theory Spec2Isabelle
  imports Main "HOL-Library.Word"
begin

unbundle bit_operations_syntax

section \<open>The allocator of talloc.h over an explicit store\<close>

text \<open>
  The model follows \<^verbatim>\<open>src/talloc.h\<close> on an LP64 little-endian target: \<^verbatim>\<open>size_t\<close> and
  pointers are 64-bit words, \<^verbatim>\<open>sizeof(talloc_chunk_t) = sizeof(talloc_header_t) = 16\<close> and
  \<^verbatim>\<open>sizeof(talloc_arena_t) = 40\<close>.

  Memory is a store from the byte address of a field to the 64-bit value held there. Every
  access of the allocator is to an 8-byte field of one of its three structs; the one
  4-byte field, \<^verbatim>\<open>magic\<close>, is the low half of the field at offset 8 of a header, the very
  bytes in which a free chunk keeps the low half of \<^verbatim>\<open>next\<close>.

  An access outside every mapped region (a null or dangling pointer) is a fault, a read
  of a local variable that no branch assigned is a fault, and so is a division by zero.
  A loop that does not end has no result at all (\<open>None\<close>).
\<close>

type_synonym addr = "64 word"
type_synonym size_t = "64 word"

datatype fault = Segfault addr | Uninitialized_read | Division_by_zero

type_synonym 'a run = "(fault + 'a) option"

definition ret :: "'a \<Rightarrow> 'a run" where
  "ret x = Some (Inr x)"

definition crash :: "fault \<Rightarrow> 'a run" where
  "crash e = Some (Inl e)"

definition bnd :: "'a run \<Rightarrow> ('a \<Rightarrow> 'b run) \<Rightarrow> 'b run" where
  "bnd m f = (case m of None \<Rightarrow> None | Some (Inl e) \<Rightarrow> Some (Inl e) | Some (Inr x) \<Rightarrow> f x)"

definition TALLOC_MAGIC :: "32 word" where
  "TALLOC_MAGIC = 0xab91ea94"

definition TALLOC_ALLOC_PAGES :: size_t where
  "TALLOC_ALLOC_PAGES = 1000"

definition sizeof_chunk :: size_t where
  "sizeof_chunk = 16"

definition sizeof_header :: size_t where
  "sizeof_header = 16"

definition sizeof_arena :: size_t where
  "sizeof_arena = 40"

definition TALLOC_ARENA_OVERHEAD :: size_t where
  "TALLOC_ARENA_OVERHEAD = sizeof_arena + sizeof_chunk"

definition MAP_FAILED :: addr where
  "MAP_FAILED = - 1"

subsection \<open>Field addresses\<close>

text \<open>\<^verbatim>\<open>talloc_chunk_t\<close>: size at 0, next at 8. \<^verbatim>\<open>talloc_header_t\<close>: size at 0, magic at 8.
  \<^verbatim>\<open>talloc_arena_t\<close>: allocated at 0, max_free_space at 8, free_list at 16, next at 24,
  prev at 32.\<close>

definition size_at :: "addr \<Rightarrow> addr" where
  "size_at c = c"

definition next_at :: "addr \<Rightarrow> addr" where
  "next_at c = c + 8"

definition magic_at :: "addr \<Rightarrow> addr" where
  "magic_at h = h + 8"

definition allocated_at :: "addr \<Rightarrow> addr" where
  "allocated_at a = a"

definition max_free_space_at :: "addr \<Rightarrow> addr" where
  "max_free_space_at a = a + 8"

definition free_list_at :: "addr \<Rightarrow> addr" where
  "free_list_at a = a + 16"

definition arena_next_at :: "addr \<Rightarrow> addr" where
  "arena_next_at a = a + 24"

definition arena_prev_at :: "addr \<Rightarrow> addr" where
  "arena_prev_at a = a + 32"

subsection \<open>The allocator's globals, the store and the virtual-memory provider\<close>

text \<open>
  The first five fields are \<^verbatim>\<open>talloc_state_t state\<close> (zero at program start). \<open>mem\<close> is
  the store and \<open>mapped\<close> the regions (base, length) now mapped. The provider is scripted:
  \<open>os_pagesize\<close> is what \<^verbatim>\<open>getpagesize()\<close> returns, \<open>mmap_plan\<close> lists the addresses at
  which the kernel would place the next mappings (\<open>MAP_FAILED\<close> for a refusal, and an
  exhausted plan refuses), \<open>munmap_plan\<close> lists whether the next \<^verbatim>\<open>munmap\<close> calls succeed
  (an exhausted plan succeeds), and \<open>munmap_log\<close> records every \<^verbatim>\<open>munmap\<close> call made.
\<close>

record machine =
  arena_head :: addr
  arena_tail :: addr
  minallocsize :: size_t
  pagesize :: size_t
  initialized :: "8 word"
  mem :: "addr \<Rightarrow> 64 word"
  mapped :: "(addr \<times> size_t) list"
  os_pagesize :: size_t
  mmap_plan :: "addr list"
  munmap_plan :: "bool list"
  munmap_log :: "(addr \<times> size_t) list"

definition boot :: "size_t \<Rightarrow> addr list \<Rightarrow> bool list \<Rightarrow> machine" where
  "boot ps mm mu =
     \<lparr>arena_head = 0, arena_tail = 0, minallocsize = 0, pagesize = 0, initialized = 0,
      mem = (\<lambda>_. 0), mapped = [], os_pagesize = ps, mmap_plan = mm, munmap_plan = mu,
      munmap_log = []\<rparr>"

definition in_region :: "addr \<Rightarrow> size_t \<Rightarrow> addr \<Rightarrow> bool" where
  "in_region b l x = (unat b \<le> unat x \<and> unat x + 8 \<le> unat b + unat l)"

definition valid_access :: "machine \<Rightarrow> addr \<Rightarrow> bool" where
  "valid_access s x = list_ex (\<lambda>(b, l). in_region b l x) (mapped s)"

definition load :: "addr \<Rightarrow> machine \<Rightarrow> (64 word) run" where
  "load x s = (if valid_access s x then ret (mem s x) else crash (Segfault x))"

definition store :: "addr \<Rightarrow> 64 word \<Rightarrow> machine \<Rightarrow> machine run" where
  "store x v s = (if valid_access s x then ret (s\<lparr>mem := (mem s)(x := v)\<rparr>)
                  else crash (Segfault x))"

text \<open>The 4-byte \<^verbatim>\<open>magic\<close>: the low half of the field, the high half (padding) kept.\<close>

definition load_magic :: "addr \<Rightarrow> machine \<Rightarrow> (32 word) run" where
  "load_magic h s = bnd (load (magic_at h) s) (\<lambda>v. ret (ucast v))"

definition store_magic :: "addr \<Rightarrow> 32 word \<Rightarrow> machine \<Rightarrow> machine run" where
  "store_magic h g s =
     bnd (load (magic_at h) s) (\<lambda>v.
     store (magic_at h) ((v AND 0xFFFFFFFF00000000) OR ucast g) s)"

text \<open>
  \<^verbatim>\<open>mmap(NULL, len, ..., MAP_ANON|MAP_PRIVATE, -1, 0)\<close>: the kernel's placement is taken from
  the plan and granted only where a kernel can grant it: a length that is not 0, at a
  page-aligned address that is not 0, for a region that does not wrap and overlaps no
  mapped region. The new region is zero-filled.
\<close>

definition region_free :: "machine \<Rightarrow> addr \<Rightarrow> size_t \<Rightarrow> bool" where
  "region_free s a len =
     (len \<noteq> 0 \<and> a \<noteq> 0 \<and> unat a mod unat (os_pagesize s) = 0 \<and>
      unat a + unat len < 2 ^ 64 \<and>
      list_all (\<lambda>(b, l). unat a + unat len \<le> unat b \<or> unat b + unat l \<le> unat a) (mapped s))"

definition mmap :: "size_t \<Rightarrow> machine \<Rightarrow> addr \<times> machine" where
  "mmap len s =
     (case mmap_plan s of
        [] \<Rightarrow> (MAP_FAILED, s)
      | a # rest \<Rightarrow>
          if region_free s a len
          then (a, s\<lparr>mmap_plan := rest, mapped := (a, len) # mapped s,
                     mem := (\<lambda>x. if unat a \<le> unat x \<and> unat x < unat a + unat len
                                  then 0 else mem s x)\<rparr>)
          else (MAP_FAILED, s\<lparr>mmap_plan := rest\<rparr>))"

text \<open>\<^verbatim>\<open>munmap(a, len)\<close> returns 0 on success and -1 on failure.\<close>

definition munmap_succeeds :: "machine \<Rightarrow> bool" where
  "munmap_succeeds s = (case munmap_plan s of [] \<Rightarrow> True | b # _ \<Rightarrow> b)"

definition munmap :: "addr \<Rightarrow> size_t \<Rightarrow> machine \<Rightarrow> 32 word \<times> machine" where
  "munmap a len s =
     (let ok = munmap_succeeds s;
          s = s\<lparr>munmap_plan := tl (munmap_plan s), munmap_log := (a, len) # munmap_log s\<rparr>
      in if ok then (0, s\<lparr>mapped := removeAll (a, len) (mapped s)\<rparr>) else (- 1, s))"

subsection \<open>Arenas\<close>

text \<open>\<^verbatim>\<open>TAlloc_init_arena\<close>, lines 55-65.\<close>

definition TAlloc_init_arena :: "addr \<Rightarrow> size_t \<Rightarrow> machine \<Rightarrow> machine run" where
  "TAlloc_init_arena arena allocated s =
     bnd (store (allocated_at arena) allocated s) (\<lambda>s.
     bnd (store (max_free_space_at arena) (allocated - TALLOC_ARENA_OVERHEAD) s) (\<lambda>s.
     bnd (store (arena_next_at arena) 0 s) (\<lambda>s.
     bnd (store (arena_prev_at arena) 0 s) (\<lambda>s.
     let free_list = arena + sizeof_arena in
     bnd (load (max_free_space_at arena) s) (\<lambda>mfs.
     bnd (store (size_at free_list) mfs s) (\<lambda>s.
     bnd (store (next_at free_list) 0 s) (\<lambda>s.
     store (free_list_at arena) free_list s)))))))"

text \<open>\<^verbatim>\<open>TAlloc_initialize\<close>, lines 68-79.\<close>

definition TAlloc_initialize :: "machine \<Rightarrow> machine run" where
  "TAlloc_initialize s =
     (let s = s\<lparr>pagesize := os_pagesize s\<rparr>;
          s = s\<lparr>minallocsize := pagesize s * TALLOC_ALLOC_PAGES\<rparr>;
          (p, s) = mmap (minallocsize s) s;
          s = s\<lparr>arena_head := p\<rparr>
      in if arena_head s = MAP_FAILED then ret (s\<lparr>arena_head := 0\<rparr>)
         else
           let s = s\<lparr>arena_tail := arena_head s\<rparr> in
           bnd (TAlloc_init_arena (arena_head s) (minallocsize s) s) (\<lambda>s.
           ret (s\<lparr>initialized := 1\<rparr>)))"

text \<open>
  The arena-sizing decision of \<^verbatim>\<open>TAlloc_create_arena\<close>, lines 90-100: \<^verbatim>\<open>to_allocate\<close> is
  assigned in the branch \<^verbatim>\<open><\<close> and in the branch \<^verbatim>\<open>>\<close>, and in no other.
\<close>

definition arena_size :: "size_t \<Rightarrow> machine \<Rightarrow> size_t run" where
  "arena_size space_needed s =
     (if space_needed < minallocsize s then ret (minallocsize s)
      else if space_needed > minallocsize s then
        (if pagesize s = 0 then crash Division_by_zero
         else
           let add_one = (if space_needed mod pagesize s > 0 then 1 else 0) in
           ret (pagesize s * (space_needed div pagesize s + add_one)))
      else crash Uninitialized_read)"

text \<open>\<^verbatim>\<open>TAlloc_create_arena\<close>, lines 85-113. A null result is the address 0.\<close>

definition TAlloc_create_arena :: "size_t \<Rightarrow> machine \<Rightarrow> (addr \<times> machine) run" where
  "TAlloc_create_arena space_needed s =
     (if space_needed + TALLOC_ARENA_OVERHEAD < space_needed then ret (0, s)
      else
        let space_needed = space_needed + TALLOC_ARENA_OVERHEAD in
        bnd (arena_size space_needed s) (\<lambda>to_allocate.
        let (new_arena, s) = mmap to_allocate s in
        if new_arena = MAP_FAILED then ret (0, s)
        else
          bnd (TAlloc_init_arena new_arena to_allocate s) (\<lambda>s.
          ret (new_arena, s))))"

text \<open>\<^verbatim>\<open>TAlloc_alloc_more_space\<close>, lines 117-129.\<close>

definition TAlloc_alloc_more_space :: "size_t \<Rightarrow> machine \<Rightarrow> (addr \<times> machine) run" where
  "TAlloc_alloc_more_space space_needed s =
     bnd (TAlloc_create_arena space_needed s) (\<lambda>(arena, s).
     if arena = 0 then ret (0, s)
     else
       bnd (store (arena_next_at (arena_tail s)) arena s) (\<lambda>s.
       bnd (store (arena_prev_at arena) (arena_tail s) s) (\<lambda>s.
       ret (arena, s\<lparr>arena_tail := arena\<rparr>))))"

text \<open>\<^verbatim>\<open>TAlloc_free_arena\<close>, lines 133-141.\<close>

definition TAlloc_free_arena :: "addr \<Rightarrow> machine \<Rightarrow> machine run" where
  "TAlloc_free_arena arena s =
     bnd (load (arena_prev_at arena) s) (\<lambda>prev.
     bnd (load (arena_next_at arena) s) (\<lambda>next.
     bnd (load (allocated_at arena) s) (\<lambda>allocated.
     let (r, s) = munmap arena allocated s in
     if r = 0 then
       bnd (store (arena_next_at prev) next s) (\<lambda>s.
       if next \<noteq> 0 then store (arena_prev_at next) prev s else ret s)
     else ret s)))"

subsection \<open>Chunks\<close>

text \<open>\<^verbatim>\<open>TAlloc_coalesce\<close>, lines 145-152.\<close>

definition TAlloc_coalesce :: "addr \<Rightarrow> machine \<Rightarrow> machine run" where
  "TAlloc_coalesce chunk s =
     bnd (load (next_at chunk) s) (\<lambda>next.
     bnd (load (size_at chunk) s) (\<lambda>size.
     if next = chunk + size + sizeof_chunk then
       bnd (load (size_at next) s) (\<lambda>next_size.
       bnd (store (size_at chunk) (size + (sizeof_chunk + next_size)) s) (\<lambda>s.
       bnd (load (next_at chunk) s) (\<lambda>next.
       bnd (load (next_at next) s) (\<lambda>next_next.
       store (next_at chunk) next_next s))))
     else ret s))"

text \<open>\<^verbatim>\<open>TAlloc_adjust_space_for_new_chunk\<close>, lines 156-160.\<close>

definition TAlloc_adjust_space_for_new_chunk :: "addr \<Rightarrow> addr \<Rightarrow> machine \<Rightarrow> machine run" where
  "TAlloc_adjust_space_for_new_chunk arena chunk s =
     bnd (load (size_at chunk) s) (\<lambda>size.
     bnd (load (max_free_space_at arena) s) (\<lambda>max_free_space.
     if size > max_free_space then store (max_free_space_at arena) size s else ret s))"

text \<open>\<^verbatim>\<open>TAlloc_ptr_in_arena\<close>, lines 163-165, with the short circuit of \<^verbatim>\<open>&&\<close>.\<close>

definition TAlloc_ptr_in_arena :: "addr \<Rightarrow> addr \<Rightarrow> machine \<Rightarrow> bool run" where
  "TAlloc_ptr_in_arena arena ptr s =
     (if ptr \<ge> arena + sizeof_arena then
        bnd (load (allocated_at arena) s) (\<lambda>allocated. ret (ptr < arena + allocated))
      else ret False)"

lemma bnd_mono [partial_function_mono]:
  assumes mf: "mono_option B" and mg: "\<And>y. mono_option (\<lambda>f. C y f)"
  shows "mono_option (\<lambda>f. bnd (B f) (\<lambda>y. C y f))"
proof -
  have eq: "\<And>f. bnd (B f) (\<lambda>y. C y f) =
      Option.bind (B f) (\<lambda>r. case r of Inl e \<Rightarrow> Some (Inl e) | Inr y \<Rightarrow> C y f)"
    by (simp add: bnd_def split: option.split sum.split)
  have inner: "mono_option (\<lambda>f. case r of Inl e \<Rightarrow> Some (Inl e) | Inr y \<Rightarrow> C y f)" for r
    by (cases r) (simp_all add: mg option.const_mono)
  show ?thesis
    unfolding eq by (rule bind_mono [OF mf inner])
qed

text \<open>\<^verbatim>\<open>TAlloc_find_arena\<close>, lines 168-172: the loop from \<^verbatim>\<open>arena\<close> on.\<close>

partial_function (option) find_arena_from :: "addr \<Rightarrow> addr \<Rightarrow> machine \<Rightarrow> addr run" where
  "find_arena_from arena ptr s =
     (if arena = 0 then ret arena
      else
        bnd (TAlloc_ptr_in_arena arena ptr s) (\<lambda>inside.
        if inside then ret arena
        else bnd (load (arena_next_at arena) s) (\<lambda>next. find_arena_from next ptr s)))"

definition TAlloc_find_arena :: "addr \<Rightarrow> machine \<Rightarrow> addr run" where
  "TAlloc_find_arena ptr s = find_arena_from (arena_head s) ptr s"

text \<open>The scan of \<^verbatim>\<open>TAlloc_free\<close>, lines 202-204.\<close>

partial_function (option) insert_after_from :: "addr \<Rightarrow> addr \<Rightarrow> machine \<Rightarrow> addr run" where
  "insert_after_from insert_after chunk s =
     bnd (load (next_at insert_after) s) (\<lambda>next.
     if next \<noteq> 0 \<and> next < chunk then insert_after_from next chunk s
     else ret insert_after)"

text \<open>\<^verbatim>\<open>TAlloc_free\<close>, lines 178-217: the insertion into the free list (lines 191-211), then
  the release of the arena (lines 214-216).\<close>

definition free_insert :: "addr \<Rightarrow> addr \<Rightarrow> machine \<Rightarrow> machine run" where
  "free_insert arena chunk s =
     bnd (load (free_list_at arena) s) (\<lambda>free_list.
     if free_list = 0 then
       bnd (store (free_list_at arena) chunk s) (\<lambda>s.
       bnd (load (free_list_at arena) s) (\<lambda>free_list.
       bnd (store (next_at free_list) 0 s) (\<lambda>s.
       bnd (load (size_at chunk) s) (\<lambda>size.
       store (max_free_space_at arena) size s))))
     else if chunk < free_list then
       bnd (store (next_at chunk) free_list s) (\<lambda>s.
       bnd (store (free_list_at arena) chunk s) (\<lambda>s.
       bnd (TAlloc_coalesce chunk s) (\<lambda>s.
       TAlloc_adjust_space_for_new_chunk arena chunk s)))
     else
       bnd (insert_after_from free_list chunk s) (\<lambda>insert_after.
       bnd (load (next_at insert_after) s) (\<lambda>next.
       bnd (store (next_at chunk) next s) (\<lambda>s.
       bnd (store (next_at insert_after) chunk s) (\<lambda>s.
       bnd (TAlloc_coalesce chunk s) (\<lambda>s.
       bnd (TAlloc_adjust_space_for_new_chunk arena chunk s) (\<lambda>s.
       bnd (TAlloc_coalesce insert_after s) (\<lambda>s.
       TAlloc_adjust_space_for_new_chunk arena insert_after s))))))))"

definition release_wanted :: "addr \<Rightarrow> machine \<Rightarrow> bool run" where
  "release_wanted arena s =
     (if arena \<noteq> arena_head s then
        bnd (load (allocated_at arena) s) (\<lambda>allocated.
        bnd (load (max_free_space_at arena) s) (\<lambda>max_free_space.
        ret (allocated = max_free_space + TALLOC_ARENA_OVERHEAD)))
      else ret False)"

definition TAlloc_free :: "addr \<Rightarrow> machine \<Rightarrow> machine run" where
  "TAlloc_free ptr s =
     (if initialized s = 0 then ret s
      else
        bnd (TAlloc_find_arena ptr s) (\<lambda>arena.
        if arena = 0 then ret s
        else
          let header = ptr - sizeof_header in
          bnd (load_magic header s) (\<lambda>magic.
          if magic \<noteq> TALLOC_MAGIC then ret s
          else
            let chunk = header in
            bnd (free_insert arena chunk s) (\<lambda>s.
            bnd (release_wanted arena s) (\<lambda>wanted.
            if wanted then TAlloc_free_arena arena s else ret s)))))"

subsection \<open>Allocation\<close>

text \<open>The loop of \<^verbatim>\<open>TAlloc_get_accommodating_arena\<close>, line 223.\<close>

partial_function (option) accommodating_from :: "addr \<Rightarrow> size_t \<Rightarrow> machine \<Rightarrow> addr run" where
  "accommodating_from arena_node sz s =
     (if arena_node = 0 then ret arena_node
      else
        bnd (load (max_free_space_at arena_node) s) (\<lambda>max_free_space.
        if max_free_space < sz then
          bnd (load (arena_next_at arena_node) s) (\<lambda>next. accommodating_from next sz s)
        else ret arena_node))"

text \<open>\<^verbatim>\<open>TAlloc_get_accommodating_arena\<close>, lines 221-230.\<close>

definition TAlloc_get_accommodating_arena :: "size_t \<Rightarrow> machine \<Rightarrow> (addr \<times> machine) run" where
  "TAlloc_get_accommodating_arena sz s =
     bnd (accommodating_from (arena_head s) sz s) (\<lambda>arena_node.
     if arena_node = 0 then TAlloc_alloc_more_space sz s
     else ret (arena_node, s))"

text \<open>The first-fit scan of \<^verbatim>\<open>TAlloc_malloc\<close>, lines 255-260; the result is
  \<^verbatim>\<open>(prev, head)\<close>.\<close>

partial_function (option) first_fit_from ::
  "addr \<Rightarrow> addr \<Rightarrow> size_t \<Rightarrow> machine \<Rightarrow> (addr \<times> addr) run" where
  "first_fit_from prev head sz s =
     (if head = 0 then ret (prev, head)
      else
        bnd (load (size_at head) s) (\<lambda>head_size.
        if head_size < sz then
          bnd (load (next_at head) s) (\<lambda>next. first_fit_from head next sz s)
        else ret (prev, head)))"

text \<open>The rescan of \<^verbatim>\<open>TAlloc_malloc\<close>, lines 300-304: the loop from \<^verbatim>\<open>chunk\<close> on.\<close>

partial_function (option) rescan_from :: "addr \<Rightarrow> addr \<Rightarrow> machine \<Rightarrow> machine run" where
  "rescan_from arena chunk s =
     bnd (load (next_at chunk) s) (\<lambda>chunk.
     if chunk \<noteq> 0 then
       bnd (TAlloc_adjust_space_for_new_chunk arena chunk s) (\<lambda>s.
       rescan_from arena chunk s)
     else ret s)"

text \<open>Lines 294-306.\<close>

definition recompute_max :: "addr \<Rightarrow> machine \<Rightarrow> machine run" where
  "recompute_max arena s =
     bnd (load (free_list_at arena) s) (\<lambda>free_list.
     if free_list = 0 then store (max_free_space_at arena) 0 s
     else
       let chunk = free_list in
       bnd (load (size_at chunk) s) (\<lambda>sz.
       bnd (store (max_free_space_at arena) sz s) (\<lambda>s.
       rescan_from arena chunk s)))"

text \<open>Lines 264-284: the split, or the donation of the excess. The result is
  \<^verbatim>\<open>(next_free_chunk, allocated_space, max_free_space_affected)\<close> and the store.\<close>

definition split_chunk ::
  "addr \<Rightarrow> addr \<Rightarrow> size_t \<Rightarrow> machine \<Rightarrow> ((addr \<times> size_t \<times> bool) \<times> machine) run" where
  "split_chunk arena head sz s =
     bnd (load (size_at head) s) (\<lambda>head_size.
     let excess_space = head_size - sz;
         allocated_space = sz in
     bnd (load (max_free_space_at arena) s) (\<lambda>max_free_space.
     let max_free_space_affected = (head_size \<ge> max_free_space) in
     if excess_space > sizeof_chunk then
       let next_free_chunk = head + sizeof_chunk + sz in
       bnd (store (size_at next_free_chunk) (excess_space - sizeof_chunk) s) (\<lambda>s.
       bnd (load (next_at head) s) (\<lambda>head_next.
       bnd (store (next_at next_free_chunk) head_next s) (\<lambda>s.
       bnd (TAlloc_coalesce next_free_chunk s) (\<lambda>s.
       bnd (TAlloc_adjust_space_for_new_chunk arena next_free_chunk s) (\<lambda>s.
       bnd (if max_free_space_affected then
              bnd (load (size_at head) s) (\<lambda>head_size.
              bnd (load (size_at next_free_chunk) s) (\<lambda>next_size.
              ret (head_size > next_size)))
            else ret False) (\<lambda>max_free_space_affected.
       ret ((next_free_chunk, allocated_space, max_free_space_affected), s)))))))
     else
       bnd (load (next_at head) s) (\<lambda>next_free_chunk.
       ret ((next_free_chunk, allocated_space + excess_space, max_free_space_affected), s))))"

text \<open>Lines 255-310 of \<^verbatim>\<open>TAlloc_malloc\<close>: the allocation from the chosen arena. A null
  result is the address 0.\<close>

definition take_chunk :: "addr \<Rightarrow> size_t \<Rightarrow> machine \<Rightarrow> (addr \<times> machine) run" where
  "take_chunk arena sz s =
     bnd (load (free_list_at arena) s) (\<lambda>free_list.
     bnd (first_fit_from 0 free_list sz s) (\<lambda>(prev, head).
     if head = 0 then ret (0, s)
     else
       bnd (split_chunk arena head sz s) (\<lambda>((next_free_chunk, allocated_space, affected), s).
       let alloc_header = head in
       bnd (store_magic alloc_header TALLOC_MAGIC s) (\<lambda>s.
       bnd (store (size_at alloc_header) allocated_space s) (\<lambda>s.
       bnd (if prev = 0 then store (free_list_at arena) next_free_chunk s
            else
              bnd (load (free_list_at arena) s) (\<lambda>free_list.
              store (next_at free_list) next_free_chunk s)) (\<lambda>s.
       bnd (if affected then recompute_max arena s else ret s) (\<lambda>s.
       ret (alloc_header + sizeof_header, s))))))))"

text \<open>\<^verbatim>\<open>TAlloc_malloc\<close>, lines 246-311.\<close>

definition TAlloc_malloc :: "size_t \<Rightarrow> machine \<Rightarrow> (addr \<times> machine) run" where
  "TAlloc_malloc sz s =
     bnd (if initialized s = 0 then TAlloc_initialize s else ret s) (\<lambda>s.
     if sz = 0 then ret (0, s)
     else
       bnd (TAlloc_get_accommodating_arena sz s) (\<lambda>(arena, s).
       if arena = 0 then ret (0, s)
       else take_chunk arena sz s))"

subsection \<open>A client of the allocator\<close>

text \<open>
  A client issues \<^verbatim>\<open>TAlloc_malloc\<close> and \<^verbatim>\<open>TAlloc_free\<close> calls one after the other. Next to
  the machine the run keeps the pointers that \<^verbatim>\<open>TAlloc_malloc\<close> has returned and that have
  not been passed to \<^verbatim>\<open>TAlloc_free\<close> since (most recent first): the client's live
  allocations.
\<close>

datatype call = Malloc size_t | Free addr

fun step :: "call \<Rightarrow> machine \<times> addr list \<Rightarrow> (machine \<times> addr list) run" where
  "step (Malloc n) (s, live) =
     bnd (TAlloc_malloc n s) (\<lambda>(p, s). ret (s, if p = 0 then live else p # live))"
| "step (Free p) (s, live) =
     bnd (TAlloc_free p s) (\<lambda>s. ret (s, removeAll p live))"

fun run :: "call list \<Rightarrow> machine \<times> addr list \<Rightarrow> (machine \<times> addr list) run" where
  "run [] g = ret g"
| "run (c # cs) g = bnd (step c g) (run cs)"

text \<open>\<open>returns r P\<close>: the computation ends without a fault, with a result that satisfies
  \<open>P\<close>.\<close>

definition returns :: "'a run \<Rightarrow> ('a \<Rightarrow> bool) \<Rightarrow> bool" where
  "returns r P = (case r of Some (Inr x) \<Rightarrow> P x | _ \<Rightarrow> False)"

subsection \<open>Reading the linked lists off the store\<close>

text \<open>\<open>path m off p xs\<close>: following the link at offset \<open>off\<close> from \<open>p\<close> visits exactly the
  nodes \<open>xs\<close> and then reaches the null pointer.\<close>

fun path :: "(addr \<Rightarrow> 64 word) \<Rightarrow> 64 word \<Rightarrow> addr \<Rightarrow> addr list \<Rightarrow> bool" where
  "path m off p [] = (p = 0)"
| "path m off p (x # xs) = (p \<noteq> 0 \<and> p = x \<and> path m off (m (x + off)) xs)"

text \<open>The free list of an arena, and the arena sequence from \<^verbatim>\<open>state.arena_head\<close>.\<close>

definition free_list_is :: "machine \<Rightarrow> addr \<Rightarrow> addr list \<Rightarrow> bool" where
  "free_list_is s arena cs = path (mem s) 8 (mem s (free_list_at arena)) cs"

definition arenas_are :: "machine \<Rightarrow> addr list \<Rightarrow> bool" where
  "arenas_are s as = path (mem s) 24 (arena_head s) as"

text \<open>The fields of an arena header that \<^verbatim>\<open>TAlloc_find_arena\<close> reads lie in mapped memory.\<close>

definition arena_readable :: "machine \<Rightarrow> addr \<Rightarrow> bool" where
  "arena_readable s a = (valid_access s (allocated_at a) \<and> valid_access s (arena_next_at a))"

text \<open>The test of \<^verbatim>\<open>TAlloc_ptr_in_arena\<close>, read off the store.\<close>

definition inside_arena :: "machine \<Rightarrow> addr \<Rightarrow> addr \<Rightarrow> bool" where
  "inside_arena s arena ptr =
     (ptr \<ge> arena + sizeof_arena \<and> ptr < arena + mem s (allocated_at arena))"

text \<open>The release test of \<^verbatim>\<open>TAlloc_free\<close>, line 214, read off the store, and the machine
  with the arena's region unmapped.\<close>

definition fully_free :: "machine \<Rightarrow> addr \<Rightarrow> bool" where
  "fully_free s arena =
     (mem s (allocated_at arena) = mem s (max_free_space_at arena) + TALLOC_ARENA_OVERHEAD)"

definition release_due :: "machine \<Rightarrow> addr \<Rightarrow> bool" where
  "release_due s arena = (arena \<noteq> arena_head s \<and> fully_free s arena)"

definition unmapped :: "machine \<Rightarrow> addr \<Rightarrow> machine" where
  "unmapped s arena = s\<lparr>mapped := removeAll (arena, mem s (allocated_at arena)) (mapped s)\<rparr>"

subsection \<open>The blocks of an arena\<close>

text \<open>
  A free chunk \<open>c\<close> occupies its header and its \<open>size\<close> bytes; a live allocation \<open>p\<close>
  occupies the header before it and the \<open>size\<close> bytes that header records. An arena is
  tiled when these blocks, in address order, follow one another from the end of the arena
  header to the end of the arena with no gap and no overlap.
\<close>

definition free_block :: "machine \<Rightarrow> addr \<Rightarrow> addr \<times> addr" where
  "free_block s c = (c, c + sizeof_chunk + mem s (size_at c))"

definition live_block :: "machine \<Rightarrow> addr \<Rightarrow> addr \<times> addr" where
  "live_block s p = (p - sizeof_header, p + mem s (size_at (p - sizeof_header)))"

fun chain :: "addr \<Rightarrow> (addr \<times> addr) list \<Rightarrow> addr \<Rightarrow> bool" where
  "chain b [] e = (b = e)"
| "chain b ((x, y) # bs) e = (b = x \<and> chain y bs e)"

definition tiled :: "machine \<Rightarrow> addr list \<Rightarrow> addr \<Rightarrow> addr list \<Rightarrow> bool" where
  "tiled s live arena cs =
     chain (arena + sizeof_arena)
       (sort_key fst
          (map (free_block s) cs @ map (live_block s) (filter (inside_arena s arena) live)))
       (arena + mem s (allocated_at arena))"

subsection \<open>A client that keeps the contract\<close>

text \<open>
  A client keeps the contract of the allocator when every pointer it passes to
  \<^verbatim>\<open>TAlloc_free\<close> is one of its live allocations at that moment: a pointer that
  \<^verbatim>\<open>TAlloc_malloc\<close> returned and that has not been passed to \<^verbatim>\<open>TAlloc_free\<close> since. The
  check follows the run; a run that ends in a fault has nothing left to check.
\<close>

fun polite :: "call list \<Rightarrow> machine \<times> addr list \<Rightarrow> bool" where
  "polite [] g = True"
| "polite (c # cs) g =
     ((case c of Malloc n \<Rightarrow> True | Free p \<Rightarrow> p \<in> set (snd g)) \<and>
      (case step c g of Some (Inr g') \<Rightarrow> polite cs g' | _ \<Rightarrow> True))"

text \<open>
  The page sizes considered: a power of two (a divisor of \<open>2 ^ 64\<close>) of at least 64 bytes,
  small enough for \<^verbatim>\<open>pagesize * TALLOC_ALLOC_PAGES\<close> not to wrap around.
\<close>

definition page_ok :: "size_t \<Rightarrow> bool" where
  "page_ok ps = (64 \<le> unat ps \<and> unat ps dvd 2 ^ 64 \<and> unat ps * 1000 < 2 ^ 64)"

text \<open>The maximum of a list of sizes, 0 for the empty list.\<close>

definition largest :: "64 word list \<Rightarrow> 64 word" where
  "largest xs = fold max xs 0"

section \<open>Notions for the proofs about client runs\<close>

text \<open>
  Nothing below is code of \<^verbatim>\<open>talloc.h\<close>: these are the notions in which the invariant of the
  allocator is stated and proved. Offsets are written as numbers: in an arena header
  \<open>a\<close>, \<open>a\<close> is \<^verbatim>\<open>allocated\<close>, \<open>a + 8\<close> is \<^verbatim>\<open>max_free_space\<close>, \<open>a + 16\<close> is \<^verbatim>\<open>free_list\<close>,
  \<open>a + 24\<close> is \<^verbatim>\<open>next\<close>, \<open>a + 32\<close> is \<^verbatim>\<open>prev\<close> and \<open>a + 40\<close> is the first byte after the
  header; in a chunk \<open>c\<close>, \<open>c\<close> is \<^verbatim>\<open>size\<close>, \<open>c + 8\<close> is \<^verbatim>\<open>next\<close> (or \<^verbatim>\<open>magic\<close>) and \<open>c + 16\<close> is
  the first usable byte.
\<close>

subsection \<open>Linked lists and what the scans compute\<close>

text \<open>\<open>seg m off p xs q\<close>: following the link at offset \<open>off\<close> from \<open>p\<close> visits the nodes
  \<open>xs\<close> and then reaches \<open>q\<close>.\<close>

fun seg :: "(addr \<Rightarrow> 64 word) \<Rightarrow> 64 word \<Rightarrow> addr \<Rightarrow> addr list \<Rightarrow> addr \<Rightarrow> bool" where
  "seg m off p [] q = (p = q)"
| "seg m off p (x # xs) q = (p \<noteq> 0 \<and> p = x \<and> seg m off (m (x + off)) xs q)"

text \<open>The results of the first-fit scan (lines 255-260), of the scan for an arena with
  enough free space (line 223) and of the scan for the arena of a pointer (line 170), as
  functions of the list scanned.\<close>

definition fit_result :: "(addr \<Rightarrow> 64 word) \<Rightarrow> size_t \<Rightarrow> addr \<Rightarrow> addr list \<Rightarrow> addr \<times> addr" where
  "fit_result m sz q cs =
     (let pre = takeWhile (\<lambda>c. m c < sz) cs; post = dropWhile (\<lambda>c. m c < sz) cs
      in (if pre = [] then q else last pre, if post = [] then 0 else hd post))"

definition accommodating :: "(addr \<Rightarrow> 64 word) \<Rightarrow> size_t \<Rightarrow> addr list \<Rightarrow> addr" where
  "accommodating m sz as =
     (case dropWhile (\<lambda>a. m (a + 8) < sz) as of [] \<Rightarrow> 0 | a # _ \<Rightarrow> a)"

definition owner :: "machine \<Rightarrow> addr \<Rightarrow> addr list \<Rightarrow> addr" where
  "owner s ptr as = (case dropWhile (\<lambda>a. \<not> inside_arena s a ptr) as of [] \<Rightarrow> 0 | a # _ \<Rightarrow> a)"

subsection \<open>Free lists as lists of (address, size)\<close>

text \<open>\<open>fl_rep m p fl\<close>: the free list that starts at \<open>p\<close> in the store \<open>m\<close> consists of the
  chunks \<open>fl\<close>, each with its address and the size its header holds.\<close>

definition fl_rep :: "(addr \<Rightarrow> 64 word) \<Rightarrow> addr \<Rightarrow> (addr \<times> size_t) list \<Rightarrow> bool" where
  "fl_rep m p fl = (path m 8 p (map fst fl) \<and> (\<forall>x\<in>set fl. m (fst x) = snd x))"

text \<open>\<open>gaps_ok lo hi fl\<close>: the blocks of the chunks \<open>fl\<close> lie between \<open>lo\<close> and \<open>hi\<close> in
  address order, and between the end of one and the start of the next there is at least
  one byte, so that no two of them are adjacent.\<close>

fun gaps_ok :: "nat \<Rightarrow> nat \<Rightarrow> (addr \<times> size_t) list \<Rightarrow> bool" where
  "gaps_ok lo hi [] = True"
| "gaps_ok lo hi ((c, n) # fl) =
     (lo \<le> unat c \<and> unat c + 16 + unat n \<le> hi \<and> gaps_ok (unat c + 16 + unat n + 1) hi fl)"

text \<open>A chunk too small for a request of \<open>sz\<close> bytes.\<close>

definition small :: "size_t \<Rightarrow> addr \<times> size_t \<Rightarrow> bool" where
  "small sz = (\<lambda>(c, n). n < sz)"

text \<open>
  The free list after lines 255-310 have consumed the chunk \<open>(h, hs)\<close> of the list
  \<open>pre @ (h, hs) # rest\<close> for a request of \<open>sz\<close> bytes: the chunk is replaced by the
  remainder of the split, if there is one, and line 292 links the replacement to the
  first chunk of the list, so that of \<open>pre\<close> only the first chunk stays. \<open>taken_mem\<close> is the
  store after the same lines, \<open>link\<close> being the cell that line 291 or 292 writes.
\<close>

definition taken_list ::
  "(addr \<times> size_t) list \<Rightarrow> addr \<Rightarrow> size_t \<Rightarrow> (addr \<times> size_t) list \<Rightarrow> size_t \<Rightarrow>
   (addr \<times> size_t) list" where
  "taken_list pre h hs rest sz =
     (let repl = (if 16 < hs - sz then [(h + 16 + sz, hs - sz - 16)] else [])
      in if pre = [] then repl @ rest else hd pre # repl @ rest)"

definition taken_mem ::
  "(addr \<Rightarrow> 64 word) \<Rightarrow> addr \<Rightarrow> size_t \<Rightarrow> size_t \<Rightarrow> addr \<Rightarrow> addr \<Rightarrow> 64 word" where
  "taken_mem m h hs sz link =
     (let hn = m (h + 8); nfc = h + 16 + sz;
          m1 = (if 16 < hs - sz then m(nfc := hs - sz - 16, nfc + 8 := hn) else m);
          m2 = m1(h + 8 := (hn AND 0xFFFFFFFF00000000) OR ucast TALLOC_MAGIC,
                  h := (if 16 < hs - sz then sz else hs))
      in m2(link := (if 16 < hs - sz then nfc else hn)))"

text \<open>
  \<^verbatim>\<open>TAlloc_coalesce\<close> on the first chunk of a list, and the insertion of lines 191-211
  on lists: before the first chunk, or after the last chunk with a smaller address, with
  the coalescing calls of each branch.
\<close>

fun coal :: "(addr \<times> size_t) list \<Rightarrow> (addr \<times> size_t) list" where
  "coal ((c, n) # (c', n') # xs) =
     (if c' = c + n + 16 then (c, n + (16 + n')) # xs else (c, n) # (c', n') # xs)"
| "coal xs = xs"

definition insert_list :: "addr \<Rightarrow> size_t \<Rightarrow> (addr \<times> size_t) list \<Rightarrow> (addr \<times> size_t) list" where
  "insert_list c n fl =
     (case fl of
        [] \<Rightarrow> [(c, n)]
      | (c1, n1) # _ \<Rightarrow>
          if c < c1 then coal ((c, n) # fl)
          else
            let pre = takeWhile (\<lambda>x. fst x < c) fl; post = dropWhile (\<lambda>x. fst x < c) fl
            in butlast pre @ coal (last pre # coal ((c, n) # post)))"

text \<open>\<open>sep_from qlo qhi fl\<close>: no block of \<open>fl\<close> meets the bytes from \<open>qlo\<close> to \<open>qhi\<close>.
  \<open>hdr_cell fl x\<close>: the address \<open>x\<close> lies in the header of a chunk of \<open>fl\<close>. \<open>ins_post\<close>: what
  the insertion of the chunk \<open>c\<close> leaves in the store \<open>m'\<close>.\<close>

definition sep_from :: "nat \<Rightarrow> nat \<Rightarrow> (addr \<times> size_t) list \<Rightarrow> bool" where
  "sep_from qlo qhi fl =
     (\<forall>x\<in>set fl. unat (fst x) + 16 + unat (snd x) \<le> qlo \<or> qhi \<le> unat (fst x))"

definition hdr_cell :: "(addr \<times> size_t) list \<Rightarrow> addr \<Rightarrow> bool" where
  "hdr_cell fl x = (\<exists>y\<in>set fl. unat (fst y) \<le> unat x \<and> unat x < unat (fst y) + 16)"

definition ins_post ::
  "machine \<Rightarrow> addr \<Rightarrow> (addr \<times> size_t) list \<Rightarrow> addr \<Rightarrow> (addr \<times> size_t) list \<Rightarrow>
   (addr \<Rightarrow> 64 word) \<Rightarrow> bool" where
  "ins_post s a fl c fl' m' =
     (fl_rep m' (m' (a + 16)) fl' \<and> m' (a + 8) = largest (map snd fl') \<and>
      (\<forall>x. x \<noteq> a + 8 \<and> x \<noteq> a + 16 \<and> \<not> (unat c \<le> unat x \<and> unat x < unat c + 16) \<and>
           \<not> hdr_cell fl x \<longrightarrow> m' x = mem s x))"

subsection \<open>The invariant of an arena\<close>

text \<open>
  \<open>lives_ok m L lo hi fl\<close>: every live allocation of \<open>L\<close> between \<open>lo\<close> and \<open>hi\<close> has its
  header and its bytes inside these bounds, and its block meets no block of a free chunk
  and no block of another live allocation.

  \<open>arena_inv s L a fl\<close>: the arena \<open>a\<close> is a mapped region of more than 56 bytes, its free
  list is \<open>fl\<close>, in address order and with no two chunks adjacent, \<^verbatim>\<open>max_free_space\<close> is
  the largest size in it, and the live allocations in the arena are as \<open>lives_ok\<close> says.
\<close>

definition lives_ok ::
  "(addr \<Rightarrow> 64 word) \<Rightarrow> addr list \<Rightarrow> nat \<Rightarrow> nat \<Rightarrow> (addr \<times> size_t) list \<Rightarrow> bool" where
  "lives_ok m L lo hi fl =
     (\<forall>p\<in>set L. lo \<le> unat p \<and> unat p < hi \<longrightarrow>
        lo + 16 \<le> unat p \<and> unat p + unat (m (p - 16)) \<le> hi \<and>
        (\<forall>x\<in>set fl. unat (fst x) + 16 + unat (snd x) \<le> unat p - 16 \<or>
                      unat p + unat (m (p - 16)) \<le> unat (fst x)) \<and>
        (\<forall>q\<in>set L. q \<noteq> p \<and> lo \<le> unat q \<and> unat q < hi \<longrightarrow>
           unat q + unat (m (q - 16)) \<le> unat p - 16 \<or> unat p + unat (m (p - 16)) \<le> unat q - 16))"

definition arena_inv :: "machine \<Rightarrow> addr list \<Rightarrow> addr \<Rightarrow> (addr \<times> size_t) list \<Rightarrow> bool" where
  "arena_inv s L a fl =
     ((a, mem s a) \<in> set (mapped s) \<and> unat a + unat (mem s a) < 2 ^ 64 \<and> 56 < unat (mem s a) \<and>
      fl_rep (mem s) (mem s (a + 16)) fl \<and>
      gaps_ok (unat a + 40) (unat a + unat (mem s a)) fl \<and>
      mem s (a + 8) = largest (map snd fl) \<and>
      lives_ok (mem s) L (unat a + 40) (unat a + unat (mem s a)) fl)"

text \<open>The cells that an allocation from the arena \<open>a\<close> of length \<open>l\<close>, or a deallocation into
  it, may write; and two machines that differ in such cells of the store only.\<close>

definition touched :: "addr \<Rightarrow> size_t \<Rightarrow> addr \<Rightarrow> bool" where
  "touched a l x = (x = a + 8 \<or> x = a + 16 \<or> (unat a + 40 \<le> unat x \<and> unat x < unat a + unat l))"

definition same_but :: "machine \<Rightarrow> machine \<Rightarrow> (addr \<Rightarrow> bool) \<Rightarrow> bool" where
  "same_but s s' T = (s' = s\<lparr>mem := mem s'\<rparr> \<and> (\<forall>x. \<not> T x \<longrightarrow> mem s' x = mem s x))"

subsection \<open>The invariant of the allocator\<close>

text \<open>A region freshly mapped at \<open>Z\<close>, and the arena that \<^verbatim>\<open>TAlloc_init_arena\<close> writes in
  it.\<close>

definition zeroed :: "(addr \<Rightarrow> 64 word) \<Rightarrow> addr \<Rightarrow> size_t \<Rightarrow> addr \<Rightarrow> 64 word" where
  "zeroed m Z len = (\<lambda>x. if unat Z \<le> unat x \<and> unat x < unat Z + unat len then 0 else m x)"

definition fresh_arena :: "(addr \<Rightarrow> 64 word) \<Rightarrow> addr \<Rightarrow> size_t \<Rightarrow> addr \<Rightarrow> 64 word" where
  "fresh_arena m Z len =
     (zeroed m Z len)(Z := len, Z + 8 := len - 56, Z + 24 := 0, Z + 32 := 0,
        Z + 40 := len - 56, Z + 48 := 0, Z + 16 := Z + 40)"

text \<open>
  \<open>regions_ok\<close>: the mapped regions are page-aligned, do not wrap around, are longer than
  56 bytes and do not overlap. \<open>prevs_ok\<close>: each arena of the sequence but the first has its
  predecessor in \<^verbatim>\<open>prev\<close>. \<open>tail_ok\<close>: \<^verbatim>\<open>state.arena_tail\<close> is the last arena of the sequence,
  or (after the release of the last arena, which leaves it dangling) a page-aligned
  address whose header bytes lie in no arena of the sequence. \<open>lives_mapped\<close>: every live
  allocation lies in a mapped region.

  \<open>heap_inv s L as F\<close>: the arena sequence is \<open>as\<close>, each arena \<open>a\<close> of it has the free list
  \<open>F a\<close> and its invariant, and \<open>L\<close> are the live allocations of the client.
\<close>

definition regions_ok :: "nat \<Rightarrow> (addr \<times> size_t) set \<Rightarrow> bool" where
  "regions_ok P R =
     ((\<forall>r\<in>R. fst r \<noteq> 0 \<and> unat (fst r) mod P = 0 \<and> unat (fst r) + unat (snd r) < 2 ^ 64 \<and>
             56 < unat (snd r)) \<and>
      (\<forall>r\<in>R. \<forall>r'\<in>R. r \<noteq> r' \<longrightarrow>
         unat (fst r) + unat (snd r) \<le> unat (fst r') \<or>
         unat (fst r') + unat (snd r') \<le> unat (fst r)))"

fun prevs_ok :: "(addr \<Rightarrow> 64 word) \<Rightarrow> addr list \<Rightarrow> bool" where
  "prevs_ok m (a # b # as) = (m (b + 32) = a \<and> prevs_ok m (b # as))"
| "prevs_ok m as = True"

definition tail_ok :: "machine \<Rightarrow> addr list \<Rightarrow> bool" where
  "tail_ok s as =
     (arena_tail s = last as \<or>
      (arena_tail s \<noteq> 0 \<and> unat (arena_tail s) mod unat (os_pagesize s) = 0 \<and>
       (\<forall>a\<in>set as. unat (arena_tail s) + 40 \<le> unat a \<or>
                     unat a + unat (mem s a) \<le> unat (arena_tail s))))"

definition lives_mapped :: "machine \<Rightarrow> addr list \<Rightarrow> bool" where
  "lives_mapped s L =
     (\<forall>p\<in>set L. \<exists>r\<in>set (mapped s).
        unat (fst r) + 56 \<le> unat p \<and> unat p < unat (fst r) + unat (snd r))"

definition heap_inv ::
  "machine \<Rightarrow> addr list \<Rightarrow> addr list \<Rightarrow> (addr \<Rightarrow> (addr \<times> size_t) list) \<Rightarrow> bool" where
  "heap_inv s L as F =
     (page_ok (os_pagesize s) \<and> regions_ok (unat (os_pagesize s)) (set (mapped s)) \<and>
      lives_mapped s L \<and> path (mem s) 24 (arena_head s) as \<and>
      (\<forall>a\<in>set as. arena_inv s L a (F a)) \<and> prevs_ok (mem s) as \<and>
      (if initialized s = 0 then arena_head s = 0 \<and> arena_tail s = 0 \<and> mapped s = []
       else pagesize s = os_pagesize s \<and> minallocsize s = os_pagesize s * 1000 \<and>
            as \<noteq> [] \<and> tail_ok s as))"

text \<open>
  \<open>taken_at\<close>: the pointer \<open>p\<close> was allocated from the chunk \<open>(h, hs)\<close> of the arena \<open>a\<close> of the
  sequence, the first arena with enough free space. \<open>outside_all\<close>: \<open>p\<close> lies in no arena of
  the sequence. \<open>inside\<close>: the test of \<^verbatim>\<open>TAlloc_ptr_in_arena\<close> on numbers.
\<close>

definition taken_at ::
  "machine \<Rightarrow> size_t \<Rightarrow> addr \<Rightarrow> addr list \<Rightarrow> (addr \<Rightarrow> (addr \<times> size_t) list) \<Rightarrow> bool" where
  "taken_at s1 n p as1 F1 =
     (\<exists>a P Q pre h hs rest. as1 = P @ a # Q \<and> (\<forall>b\<in>set P. mem s1 (b + 8) < n) \<and> p = h + 16 \<and>
        F1 a = taken_list pre h hs rest n \<and> (\<forall>x\<in>set pre. small n x) \<and> n \<le> hs \<and>
        gaps_ok (unat a + 40) (unat a + unat (mem s1 a)) (pre @ (h, hs) # rest) \<and>
        mem s1 h = (if 16 < hs - n then n else hs) \<and> ucast (mem s1 (h + 8)) = TALLOC_MAGIC)"

definition outside_all :: "machine \<Rightarrow> addr \<Rightarrow> addr list \<Rightarrow> bool" where
  "outside_all s p as =
     (\<forall>a\<in>set as. \<not> (unat a + 40 \<le> unat p \<and> unat p < unat a + unat (mem s a)))"

definition inside :: "machine \<Rightarrow> addr \<Rightarrow> addr \<Rightarrow> bool" where
  "inside s a p = (unat a + 40 \<le> unat p \<and> unat p < unat a + unat (mem s a))"

section \<open>Executing the model\<close>

lemma bnd_simps:
  "bnd None f = None"
  "bnd (Some (Inl e)) f = Some (Inl e)"
  "bnd (Some (Inr x)) f = f x"
  by (simp_all add: bnd_def)

lemma bnd_weak_cong: "m = m' \<Longrightarrow> bnd m f = bnd m' f"
  by simp

lemmas const_defs =
  TALLOC_MAGIC_def TALLOC_ALLOC_PAGES_def sizeof_chunk_def sizeof_header_def sizeof_arena_def
  TALLOC_ARENA_OVERHEAD_def MAP_FAILED_def

lemmas field_defs =
  size_at_def next_at_def magic_at_def allocated_at_def max_free_space_at_def free_list_at_def
  arena_next_at_def arena_prev_at_def

lemma unat_minus_one_64: "unat (- 1 :: 64 word) = 18446744073709551615"
  by (simp add: unsigned_minus_1_eq_mask mask_eq_exp_minus_1)

lemmas exec_defs =
  TAlloc_malloc_def take_chunk_def TAlloc_free_def TAlloc_initialize_def TAlloc_init_arena_def
  TAlloc_create_arena_def arena_size_def TAlloc_alloc_more_space_def TAlloc_free_arena_def
  TAlloc_coalesce_def TAlloc_adjust_space_for_new_chunk_def TAlloc_ptr_in_arena_def
  TAlloc_find_arena_def free_insert_def release_wanted_def TAlloc_get_accommodating_arena_def
  recompute_max_def split_chunk_def load_def store_def load_magic_def store_magic_def
  mmap_def munmap_def munmap_succeeds_def region_free_def valid_access_def in_region_def boot_def
  ret_def crash_def bnd_simps const_defs field_defs
  find_arena_from.simps insert_after_from.simps accommodating_from.simps first_fit_from.simps
  rescan_from.simps Let_def returns_def free_list_is_def arenas_are_def unat_minus_one_64
  tiled_def free_block_def live_block_def inside_arena_def arena_readable_def
  fully_free_def release_due_def

section \<open>Basic facts\<close>

lemma ret_inject [simp]: "(ret x = ret y) = (x = y)"
  by (simp add: ret_def)

lemma ret_not_crash [simp]: "ret x \<noteq> crash e" "crash e \<noteq> ret x"
  by (simp_all add: ret_def crash_def)

lemma bnd_ret [simp]: "bnd (ret x) f = f x"
  by (simp add: bnd_def ret_def)

lemma bnd_crash [simp]: "bnd (crash e) f = crash e"
  by (simp add: bnd_def crash_def)

lemma returnsE: "returns r P \<Longrightarrow> (\<And>x. r = ret x \<Longrightarrow> P x \<Longrightarrow> thesis) \<Longrightarrow> thesis"
  by (auto simp: returns_def ret_def split: option.splits sum.splits)

lemma returnsI: "r = ret x \<Longrightarrow> P x \<Longrightarrow> returns r P"
  by (simp add: returns_def ret_def)

lemma load_valid: "valid_access s x \<Longrightarrow> load x s = ret (mem s x)"
  by (simp add: load_def)

lemma store_valid: "valid_access s x \<Longrightarrow> store x v s = ret (s\<lparr>mem := (mem s)(x := v)\<rparr>)"
  by (simp add: store_def)

lemma valid_access_upd [simp]:
  "valid_access (s\<lparr>mem := m\<rparr>) x = valid_access s x"
  "valid_access (s\<lparr>munmap_plan := pl\<rparr>) x = valid_access s x"
  "valid_access (s\<lparr>munmap_log := lg\<rparr>) x = valid_access s x"
  "valid_access (s\<lparr>mmap_plan := mp\<rparr>) x = valid_access s x"
  "valid_access (s\<lparr>arena_tail := t\<rparr>) x = valid_access s x"
  "valid_access (s\<lparr>arena_head := h\<rparr>) x = valid_access s x"
  by (simp_all add: valid_access_def)

section \<open>Defects found by running the model\<close>

text \<open>
  C1. With page size 4096 and the first arena mapped at \<open>0x10000000\<close>, four allocations of
  16 bytes followed by the release of the first and the third leave the free list
  \<open>[0x10000028, 0x10000068, 0x100000A8]\<close>. An allocation of 50 bytes then finds its chunk
  in third position, so the scan's trailing pointer is the second chunk \<open>0x10000068\<close>.
  Line 292 writes the replacement into \<^verbatim>\<open>arena->free_list->next\<close>, the link of the first
  chunk, not into the link of the trailing pointer: afterwards the free list is
  \<open>[0x10000028, 0x100000EA]\<close>, and the second chunk, which was not consumed, is gone from
  it.
\<close>

theorem malloc_unlinks_through_list_head:
  "returns (run [Malloc 16, Malloc 16, Malloc 16, Malloc 16, Free 0x10000038, Free 0x10000078]
              (boot 4096 [0x10000000] [], []))
     (\<lambda>(s, live). free_list_is s 0x10000000 [0x10000028, 0x10000068, 0x100000A8] \<and>
        returns (TAlloc_malloc 50 s)
          (\<lambda>(p, s'). p = 0x100000B8 \<and> free_list_is s' 0x10000000 [0x10000028, 0x100000EA]))"
  by (simp add: exec_defs cong: bnd_weak_cong)

text \<open>
  C3. With page size 4096 (\<open>minallocsize = 4096000\<close>) and 16 bytes already allocated, a
  request of 4095944 bytes fits no arena, and its overhead-inclusive total is exactly
  \<open>minallocsize\<close>. Neither branch of the sizing decision assigns \<^verbatim>\<open>to_allocate\<close>, and
  \<^verbatim>\<open>TAlloc_create_arena\<close> passes the unassigned variable to \<^verbatim>\<open>mmap\<close>.
\<close>

theorem create_arena_size_unassigned_at_minallocsize:
  "returns (run [Malloc 16] (boot 4096 [0x10000000, 0x20000000] [], []))
     (\<lambda>(s, live). minallocsize s = 4095944 + TALLOC_ARENA_OVERHEAD \<and>
        TAlloc_create_arena 4095944 s = crash Uninitialized_read \<and>
        TAlloc_malloc 4095944 s = crash Uninitialized_read)"
  by (simp add: exec_defs cong: bnd_weak_cong)

text \<open>
  C6. In the run of C1 the arena is tiled by its free chunks and live allocations before
  the allocation of 50 bytes, and is not tiled after it: the bytes of the chunk at
  \<open>0x10000068\<close>, dropped from the free list by line 292, belong to no free chunk and to no
  live allocation.
\<close>

theorem arena_not_tiled_after_malloc:
  "returns (run [Malloc 16, Malloc 16, Malloc 16, Malloc 16, Free 0x10000038, Free 0x10000078]
              (boot 4096 [0x10000000] [], []))
     (\<lambda>(s, live). free_list_is s 0x10000000 [0x10000028, 0x10000068, 0x100000A8] \<and>
        tiled s live 0x10000000 [0x10000028, 0x10000068, 0x100000A8] \<and>
        returns (step (Malloc 50) (s, live))
          (\<lambda>(s', live'). free_list_is s' 0x10000000 [0x10000028, 0x100000EA] \<and>
             \<not> tiled s' live' 0x10000000 [0x10000028, 0x100000EA]))"
  by (simp add: exec_defs cong: bnd_weak_cong)

text \<open>
  C10. With page size 4096, an allocation of 5000000 bytes creates a second arena at
  \<open>0x20000000\<close>, which becomes the tail. Releasing the allocation frees the whole arena;
  \<^verbatim>\<open>TAlloc_free_arena\<close> unmaps it and unlinks it from its neighbours, and leaves
  \<^verbatim>\<open>state.arena_tail\<close> as it was: the arena sequence is then \<open>[0x10000000]\<close>, while the tail
  still designates the unmapped arena, and the next allocation that needs a new arena
  writes through it.
\<close>

theorem arena_tail_dangles_after_release:
  "returns (run [Malloc 5000000, Free 0x20000038]
              (boot 4096 [0x10000000, 0x20000000, 0x30000000] [], []))
     (\<lambda>(s, live). arenas_are s [0x10000000] \<and> arena_tail s = 0x20000000 \<and>
        mapped s = [(0x10000000, 4096000)] \<and> munmap_log s = [(0x20000000, 5001216)] \<and>
        TAlloc_malloc 5000000 s = crash (Segfault 0x20000018))"
  by (simp add: exec_defs cong: bnd_weak_cong)

section \<open>Initialization failure\<close>

lemma mmap_refused:
  "\<forall>a\<in>set (mmap_plan s). a = MAP_FAILED \<Longrightarrow>
   mmap len s = (MAP_FAILED, s\<lparr>mmap_plan := tl (mmap_plan s)\<rparr>)"
  by (cases "mmap_plan s")
     (auto simp: mmap_def region_free_def MAP_FAILED_def unat_minus_one_64 unat_eq_0)

text \<open>
  C2. With page size 4096 and a provider that refuses the mapping request of
  \<^verbatim>\<open>TAlloc_initialize\<close> and grants the next one at \<open>0x10000000\<close>, \<^verbatim>\<open>TAlloc_malloc(16)\<close> goes
  on after the failed initialization (line 247 does not return): the arena sequence is
  empty, \<^verbatim>\<open>TAlloc_alloc_more_space\<close> creates an arena, and line 124 writes
  \<^verbatim>\<open>state.arena_tail->next\<close> through the null \<^verbatim>\<open>state.arena_tail\<close>, at address 24. The same
  happens in a later call: after a first call in which every mapping was refused, which
  returns null and leaves the allocator uninitialized with a null head and a null tail,
  the second call is refused its initialization, is granted the arena, and writes through
  the null tail.
\<close>

theorem malloc_writes_through_null_tail_after_refused_initialization:
  "TAlloc_malloc 16 (boot 4096 [MAP_FAILED, 0x10000000] []) = crash (Segfault 24) \<and>
   returns (run [Malloc 16] (boot 4096 [MAP_FAILED, MAP_FAILED, MAP_FAILED, 0x10000000] [], []))
     (\<lambda>(s, live). live = [] \<and> initialized s = 0 \<and> arena_head s = 0 \<and> arena_tail s = 0 \<and>
        mapped s = [] \<and> TAlloc_malloc 16 s = crash (Segfault 24))"
  by (simp add: exec_defs cong: bnd_weak_cong)

text \<open>
  The other paths after a refused initialization. Every call that finds the flag clear
  runs \<^verbatim>\<open>TAlloc_initialize\<close> again: with a provider that refuses the first two mapping
  requests and grants the third at \<open>0x10000000\<close>, the first \<^verbatim>\<open>TAlloc_malloc(16)\<close> returns null
  and leaves the allocator uninitialized, and the second initializes it and succeeds.
\<close>

lemma malloc_retries_initialization:
  "returns (run [Malloc 16] (boot 4096 [MAP_FAILED, MAP_FAILED, 0x10000000] [], []))
     (\<lambda>(s, live). initialized s = 0 \<and> live = [] \<and>
        returns (TAlloc_malloc 16 s) (\<lambda>(p, s'). p = 0x10000038 \<and> initialized s' = 1))"
  by (simp add: exec_defs cong: bnd_weak_cong)

text \<open>
  As long as the provider refuses every mapping request (the page size is not 0, and the
  overhead-inclusive size is not \<open>minallocsize\<close>), a call made while the allocator is
  uninitialized returns null, reads and writes no memory, maps nothing, leaves the arena
  head null and the arena tail as it was, and leaves the allocator uninitialized.
\<close>

lemma malloc_fails_while_mapping_refused:
  assumes "initialized s = 0"
    and "\<forall>a\<in>set (mmap_plan s). a = MAP_FAILED"
    and "os_pagesize s \<noteq> 0"
    and "sz + TALLOC_ARENA_OVERHEAD \<noteq> os_pagesize s * TALLOC_ALLOC_PAGES"
  shows "\<exists>s'. TAlloc_malloc sz s = ret (0, s') \<and> initialized s' = 0 \<and> arena_head s' = 0 \<and>
           arena_tail s' = arena_tail s \<and> mem s' = mem s \<and> mapped s' = mapped s \<and>
           munmap_log s' = munmap_log s \<and> os_pagesize s' = os_pagesize s \<and>
           (\<forall>a\<in>set (mmap_plan s'). a = MAP_FAILED)"
proof -
  define s1 where "s1 = s\<lparr>pagesize := os_pagesize s, minallocsize := os_pagesize s * TALLOC_ALLOC_PAGES,
     mmap_plan := tl (mmap_plan s), arena_head := 0\<rparr>"
  have init: "TAlloc_initialize s = ret s1"
    using assms(2)
    by (simp add: TAlloc_initialize_def Let_def mmap_refused s1_def)
  have pl1: "\<forall>a\<in>set (mmap_plan s1). a = MAP_FAILED"
    using assms(2) by (cases "mmap_plan s") (auto simp: s1_def)
  have acc: "TAlloc_get_accommodating_arena sz s1 = TAlloc_alloc_more_space sz s1"
    by (simp add: TAlloc_get_accommodating_arena_def accommodating_from.simps s1_def)
  have "\<exists>s'. TAlloc_create_arena sz s1 = ret (0, s') \<and> (s' = s1 \<or> s' = s1\<lparr>mmap_plan := tl (mmap_plan s1)\<rparr>)"
    using assms(3,4) pl1
    by (auto simp: TAlloc_create_arena_def arena_size_def Let_def mmap_refused s1_def not_less)
  then obtain s' where c: "TAlloc_create_arena sz s1 = ret (0, s')"
    and s': "s' = s1 \<or> s' = s1\<lparr>mmap_plan := tl (mmap_plan s1)\<rparr>" by blast
  have m: "TAlloc_malloc sz s = ret (0, if sz = 0 then s1 else s')"
    using assms(1) init acc c
    by (simp add: TAlloc_malloc_def TAlloc_alloc_more_space_def)
  have "\<forall>a\<in>set (mmap_plan s'). a = MAP_FAILED"
    using s' pl1 by (cases "mmap_plan s1") auto
  then show ?thesis
    using m s' pl1 assms(1) by (auto simp: s1_def)
qed

lemma malloc_fails_while_mapping_refused_example:
  "\<exists>s'. TAlloc_malloc 16 (boot 4096 [MAP_FAILED, MAP_FAILED, MAP_FAILED] []) = ret (0, s') \<and>
     initialized s' = 0 \<and> arena_head s' = 0 \<and> mapped s' = [] \<and> mmap_plan s' = [MAP_FAILED]"
proof -
  have "\<exists>s'. TAlloc_malloc 16 (boot 4096 [MAP_FAILED, MAP_FAILED, MAP_FAILED] []) = ret (0, s') \<and>
      initialized s' = 0 \<and> arena_head s' = 0 \<and>
      mapped s' = mapped (boot 4096 [MAP_FAILED, MAP_FAILED, MAP_FAILED] [])"
    using malloc_fails_while_mapping_refused
      [of "boot 4096 [MAP_FAILED, MAP_FAILED, MAP_FAILED] []" 16]
    by (simp add: boot_def const_defs) blast
  moreover have "returns (TAlloc_malloc 16 (boot 4096 [MAP_FAILED, MAP_FAILED, MAP_FAILED] []))
      (\<lambda>(p, s'). mmap_plan s' = [MAP_FAILED])"
    by (simp add: exec_defs cong: bnd_weak_cong)
  ultimately show ?thesis
    by (auto elim!: returnsE simp: boot_def)
qed

section \<open>Deallocation of an invalid pointer\<close>

lemma ptr_in_arena_readable:
  "arena_readable s a \<Longrightarrow> TAlloc_ptr_in_arena a ptr s = ret (inside_arena s a ptr)"
  by (simp add: TAlloc_ptr_in_arena_def arena_readable_def inside_arena_def load_valid)

lemma find_arena_from_total:
  "path (mem s) 24 p as \<Longrightarrow> \<forall>a\<in>set as. arena_readable s a \<Longrightarrow>
   \<exists>a. find_arena_from p ptr s = ret a \<and> (a = 0 \<or> a \<in> set as)"
proof (induction as arbitrary: p)
  case Nil
  then show ?case by (simp add: find_arena_from.simps)
next
  case (Cons x xs)
  from Cons.prems have px: "p = x" "x \<noteq> 0" and rest: "path (mem s) 24 (mem s (x + 24)) xs"
    and rd: "arena_readable s x" "\<forall>a\<in>set xs. arena_readable s a"
    by auto
  from Cons.IH [OF rest rd(2)] obtain a where
    a: "find_arena_from (mem s (x + 24)) ptr s = ret a" "a = 0 \<or> a \<in> set xs" by blast
  show ?case
    using px rd(1) a
    by (subst find_arena_from.simps)
       (auto simp: ptr_in_arena_readable load_valid arena_readable_def arena_next_at_def)
qed

lemma find_arena_from_outside:
  "path (mem s) 24 p as \<Longrightarrow> \<forall>a\<in>set as. arena_readable s a \<and> \<not> inside_arena s a ptr \<Longrightarrow>
   find_arena_from p ptr s = ret 0"
proof (induction as arbitrary: p)
  case Nil
  then show ?case by (simp add: find_arena_from.simps)
next
  case (Cons x xs)
  from Cons.prems have px: "p = x" "x \<noteq> 0" and rest: "path (mem s) 24 (mem s (x + 24)) xs"
    and rd: "arena_readable s x" "\<not> inside_arena s x ptr"
      "\<forall>a\<in>set xs. arena_readable s a \<and> \<not> inside_arena s a ptr"
    by auto
  from Cons.IH [OF rest rd(3)] have "find_arena_from (mem s (x + 24)) ptr s = ret 0" .
  then show ?case
    using px rd(1,2)
    by (subst find_arena_from.simps)
       (auto simp: ptr_in_arena_readable load_valid arena_readable_def arena_next_at_def)
qed

text \<open>
  C8. \<^verbatim>\<open>TAlloc_free\<close> returns the machine unchanged (globals, store, mapped regions and
  provider alike) when the allocator is uninitialized, when the pointer lies inside no
  arena of the arena sequence, and when the field before the pointer does not hold
  \<^verbatim>\<open>TALLOC_MAGIC\<close>; calling it once more on the result changes nothing either. The arena
  sequence is one whose headers can be read.
\<close>

theorem free_ignores_invalid_pointer:
  assumes "initialized s = 0 \<or>
     (\<exists>as. arenas_are s as \<and> (\<forall>a\<in>set as. arena_readable s a) \<and>
        ((\<forall>a\<in>set as. \<not> inside_arena s a ptr) \<or>
         (valid_access s (magic_at (ptr - sizeof_header)) \<and>
          ucast (mem s (magic_at (ptr - sizeof_header))) \<noteq> TALLOC_MAGIC)))"
  shows "TAlloc_free ptr s = ret s \<and> bnd (TAlloc_free ptr s) (TAlloc_free ptr) = ret s"
proof -
  have "TAlloc_free ptr s = ret s"
    using assms
  proof (elim disjE exE conjE)
    assume "initialized s = 0"
    then show ?thesis by (simp add: TAlloc_free_def)
  next
    fix as
    assume "arenas_are s as" "\<forall>a\<in>set as. arena_readable s a" "\<forall>a\<in>set as. \<not> inside_arena s a ptr"
    then have "TAlloc_find_arena ptr s = ret 0"
      unfolding TAlloc_find_arena_def arenas_are_def
      by (intro find_arena_from_outside [where as = as]) auto
    then show ?thesis by (simp add: TAlloc_free_def)
  next
    fix as
    assume "arenas_are s as" "\<forall>a\<in>set as. arena_readable s a"
      and v: "valid_access s (magic_at (ptr - sizeof_header))"
      and m: "ucast (mem s (magic_at (ptr - sizeof_header))) \<noteq> TALLOC_MAGIC"
    then obtain a where "TAlloc_find_arena ptr s = ret a"
      unfolding TAlloc_find_arena_def arenas_are_def
      using find_arena_from_total by blast
    then show ?thesis
      using v m by (simp add: TAlloc_free_def load_magic_def load_valid Let_def)
  qed
  then show ?thesis by simp
qed

theorem free_ignores_invalid_pointer_witness:
  "returns (run [Malloc 16] (boot 4096 [0x10000000] [], []))
     (\<lambda>(s, live). TAlloc_free 0x7FFD00001000 s = ret s \<and> TAlloc_free 0x10000100 s = ret s) \<and>
   TAlloc_free 0x10000038 (boot 4096 [0x10000000] []) = ret (boot 4096 [0x10000000] [])"
proof -
  have "returns (run [Malloc 16] (boot 4096 [0x10000000] [], []))
     (\<lambda>(s, live). arenas_are s [0x10000000] \<and> arena_readable s 0x10000000 \<and>
        \<not> inside_arena s 0x10000000 0x7FFD00001000 \<and>
        valid_access s (magic_at (0x10000100 - sizeof_header)) \<and>
        ucast (mem s (magic_at (0x10000100 - sizeof_header))) \<noteq> TALLOC_MAGIC)"
    by (simp add: exec_defs arena_readable_def cong: bnd_weak_cong)
  then obtain s live where r: "run [Malloc 16] (boot 4096 [0x10000000] [], []) = ret (s, live)"
    and f: "arenas_are s [0x10000000]" "arena_readable s 0x10000000"
      "\<not> inside_arena s 0x10000000 0x7FFD00001000"
      "valid_access s (magic_at (0x10000100 - sizeof_header))"
      "ucast (mem s (magic_at (0x10000100 - sizeof_header))) \<noteq> TALLOC_MAGIC"
    by (auto elim!: returnsE)
  have "\<exists>as. arenas_are s as \<and> (\<forall>a\<in>set as. arena_readable s a) \<and>
        ((\<forall>a\<in>set as. \<not> inside_arena s a 0x7FFD00001000) \<or>
         (valid_access s (magic_at (0x7FFD00001000 - sizeof_header)) \<and>
          ucast (mem s (magic_at (0x7FFD00001000 - sizeof_header))) \<noteq> TALLOC_MAGIC))"
    using f by (intro exI [of _ "[0x10000000]"]) simp
  then have a: "TAlloc_free 0x7FFD00001000 s = ret s"
    using free_ignores_invalid_pointer [of s "0x7FFD00001000"] by blast
  have "\<exists>as. arenas_are s as \<and> (\<forall>a\<in>set as. arena_readable s a) \<and>
        ((\<forall>a\<in>set as. \<not> inside_arena s a 0x10000100) \<or>
         (valid_access s (magic_at (0x10000100 - sizeof_header)) \<and>
          ucast (mem s (magic_at (0x10000100 - sizeof_header))) \<noteq> TALLOC_MAGIC))"
    using f by (intro exI [of _ "[0x10000000]"]) simp
  then have b: "TAlloc_free 0x10000100 s = ret s"
    using free_ignores_invalid_pointer [of s "0x10000100"] by blast
  have c: "TAlloc_free 0x10000038 (boot 4096 [0x10000000] []) = ret (boot 4096 [0x10000000] [])"
    using free_ignores_invalid_pointer [of "boot 4096 [0x10000000] []" "0x10000038"]
    by (simp add: boot_def)
  show ?thesis
    using r a b c by (auto intro!: returnsI)
qed

section \<open>Release of an arena\<close>

text \<open>
  C9. Let \<^verbatim>\<open>TAlloc_free\<close> pass its checks for a pointer of \<open>arena\<close> and let \<open>s1\<close> be the
  machine after the insertion and coalescing. \<^verbatim>\<open>munmap\<close> is called on the arena exactly
  when the arena is not the head arena and \<^verbatim>\<open>allocated == max_free_space + overhead\<close> in
  \<open>s1\<close>; the arena's region leaves the mapped regions exactly when, moreover, \<^verbatim>\<open>munmap\<close>
  succeeds; and when \<^verbatim>\<open>munmap\<close> fails (or is not called) the store, hence every link of the
  arena sequence, the arena head and the arena tail are those of \<open>s1\<close>.
\<close>

theorem free_releases_arena_when_fully_free:
  assumes init: "initialized s \<noteq> 0"
    and found: "TAlloc_find_arena ptr s = ret arena" "arena \<noteq> 0"
    and magic: "load_magic (ptr - sizeof_header) s = ret TALLOC_MAGIC"
    and ins: "free_insert arena (ptr - sizeof_header) s = ret s1"
    and acc: "valid_access s1 (allocated_at arena)" "valid_access s1 (max_free_space_at arena)"
      "valid_access s1 (arena_prev_at arena)" "valid_access s1 (arena_next_at arena)"
    and nb: "release_due s1 arena \<and> munmap_succeeds s1 \<longrightarrow>
      valid_access (unmapped s1 arena) (arena_next_at (mem s1 (arena_prev_at arena))) \<and>
      (mem s1 (arena_next_at arena) \<noteq> 0 \<longrightarrow>
         valid_access (unmapped s1 arena) (arena_prev_at (mem s1 (arena_next_at arena))))"
  shows "\<exists>s2. TAlloc_free ptr s = ret s2 \<and>
     munmap_log s2 =
       (if release_due s1 arena then [(arena, mem s1 (allocated_at arena))] else []) @ munmap_log s1 \<and>
     mapped s2 =
       (if release_due s1 arena \<and> munmap_succeeds s1
        then removeAll (arena, mem s1 (allocated_at arena)) (mapped s1) else mapped s1) \<and>
     (\<not> (release_due s1 arena \<and> munmap_succeeds s1) \<longrightarrow>
        mem s2 = mem s1 \<and> arena_head s2 = arena_head s1 \<and> arena_tail s2 = arena_tail s1)"
proof -
  have rw: "release_wanted arena s1 = ret (release_due s1 arena)"
    using acc by (simp add: release_wanted_def release_due_def fully_free_def load_valid)
  have fr: "TAlloc_free ptr s = (if release_due s1 arena then TAlloc_free_arena arena s1 else ret s1)"
    using init found magic ins rw by (simp add: TAlloc_free_def Let_def)
  show ?thesis
  proof (cases "release_due s1 arena")
    case False
    then show ?thesis using fr by simp
  next
    case due: True
    show ?thesis
    proof (cases "munmap_succeeds s1")
      case False
      then have "TAlloc_free_arena arena s1 =
          ret (s1\<lparr>munmap_plan := tl (munmap_plan s1),
                  munmap_log := (arena, mem s1 (allocated_at arena)) # munmap_log s1\<rparr>)"
        using acc by (simp add: TAlloc_free_arena_def load_valid munmap_def munmap_succeeds_def Let_def)
      then show ?thesis using fr due False by simp
    next
      case True
      let ?u = "s1\<lparr>munmap_plan := tl (munmap_plan s1),
                  munmap_log := (arena, mem s1 (allocated_at arena)) # munmap_log s1,
                  mapped := removeAll (arena, mem s1 (allocated_at arena)) (mapped s1)\<rparr>"
      have v1: "valid_access ?u (arena_next_at (mem s1 (arena_prev_at arena)))"
        and v2: "mem s1 (arena_next_at arena) \<noteq> 0 \<Longrightarrow>
           valid_access ?u (arena_prev_at (mem s1 (arena_next_at arena)))"
        using nb due True by (simp_all add: unmapped_def valid_access_def)
      have "\<exists>s2. TAlloc_free_arena arena s1 = ret s2 \<and>
          munmap_log s2 = munmap_log ?u \<and> mapped s2 = mapped ?u"
        using acc True v1 v2
        by (cases "mem s1 (arena_next_at arena) = 0")
           (simp_all add: TAlloc_free_arena_def load_valid munmap_def munmap_succeeds_def
              Let_def store_valid)
      then show ?thesis using fr due True by auto
    qed
  qed
qed

theorem free_releases_arena_when_fully_free_witness:
  "returns (run [Malloc 5000000] (boot 4096 [0x10000000, 0x20000000] [False], []))
     (\<lambda>(s, live). returns (TAlloc_free 0x20000038 s)
        (\<lambda>s2. munmap_log s2 = [(0x20000000, 5001216)] \<and> mapped s2 = mapped s \<and>
           arenas_are s2 [0x10000000, 0x20000000]))"
proof -
  have "returns (run [Malloc 5000000] (boot 4096 [0x10000000, 0x20000000] [False], []))
     (\<lambda>(s, live). initialized s \<noteq> 0 \<and> TAlloc_find_arena 0x20000038 s = ret 0x20000000 \<and>
        load_magic (0x20000038 - sizeof_header) s = ret TALLOC_MAGIC \<and>
        returns (free_insert 0x20000000 (0x20000038 - sizeof_header) s)
          (\<lambda>s1. valid_access s1 (allocated_at 0x20000000) \<and>
             valid_access s1 (max_free_space_at 0x20000000) \<and>
             valid_access s1 (arena_prev_at 0x20000000) \<and>
             valid_access s1 (arena_next_at 0x20000000) \<and>
             release_due s1 0x20000000 \<and> \<not> munmap_succeeds s1 \<and>
             mem s1 (allocated_at 0x20000000) = 5001216 \<and> munmap_log s1 = [] \<and>
             mapped s1 = mapped s \<and> arenas_are s1 [0x10000000, 0x20000000]))"
    by (simp add: exec_defs release_due_def fully_free_def munmap_succeeds_def
          cong: bnd_weak_cong)
  then obtain s live s1 where
    r: "run [Malloc 5000000] (boot 4096 [0x10000000, 0x20000000] [False], []) = ret (s, live)"
    and h: "initialized s \<noteq> 0" "TAlloc_find_arena 0x20000038 s = ret 0x20000000"
      "load_magic (0x20000038 - sizeof_header) s = ret TALLOC_MAGIC"
      "free_insert 0x20000000 (0x20000038 - sizeof_header) s = ret s1"
    and v: "valid_access s1 (allocated_at 0x20000000)"
      "valid_access s1 (max_free_space_at 0x20000000)"
      "valid_access s1 (arena_prev_at 0x20000000)"
      "valid_access s1 (arena_next_at 0x20000000)"
    and d: "release_due s1 0x20000000" "\<not> munmap_succeeds s1"
    and o: "mem s1 (allocated_at 0x20000000) = 5001216" "munmap_log s1 = []"
      "mapped s1 = mapped s" "arenas_are s1 [0x10000000, 0x20000000]"
    by (auto elim!: returnsE)
  from free_releases_arena_when_fully_free [OF h(1) h(2) _ h(3) h(4) v] d
  obtain s2 where "TAlloc_free 0x20000038 s = ret s2"
    "munmap_log s2 = [(0x20000000, mem s1 (allocated_at 0x20000000))] @ munmap_log s1"
    "mapped s2 = mapped s1" "mem s2 = mem s1" "arena_head s2 = arena_head s1"
    by auto
  then show ?thesis
    using r o by (auto intro!: returnsI simp: arenas_are_def)
qed

section \<open>Address arithmetic, linked lists and the scans\<close>

lemma unat_plus: "unat (c::64 word) + unat k < 2 ^ 64 \<Longrightarrow> unat (c + k) = unat c + unat k"
  using unat_add_lem [of c k] by simp

lemma unat_minus: "unat (k::64 word) \<le> unat c \<Longrightarrow> unat (c - k) = unat c - unat k"
  by (simp add: unat_sub word_le_nat_alt)

lemma unat_lt_2p64: "unat (x::64 word) < 18446744073709551616"
  using unsigned_less [of x, where 'a = nat] by simp

lemma path_seg: "path m off p xs = seg m off p xs 0"
  by (induction xs arbitrary: p) auto

lemma seg_append: "seg m off p (xs @ ys) q = (\<exists>r. seg m off p xs r \<and> seg m off r ys q)"
  by (induction xs arbitrary: p) auto

lemma path_append: "path m off p (xs @ ys) = (\<exists>r. seg m off p xs r \<and> path m off r ys)"
  by (simp add: path_seg seg_append)

lemma seg_frame:
  "\<forall>x\<in>set xs. x + off \<noteq> u \<Longrightarrow> seg (m(u := v)) off p xs q = seg m off p xs q"
  by (induction xs arbitrary: p) auto

lemma path_frame:
  "\<forall>x\<in>set xs. x + off \<noteq> u \<Longrightarrow> path (m(u := v)) off p xs = path m off p xs"
  by (simp add: path_seg seg_frame)

lemma seg_cong:
  "\<forall>x\<in>set xs. m' (x + off) = m (x + off) \<Longrightarrow> seg m' off p xs q = seg m off p xs q"
  by (induction xs arbitrary: p) auto

lemma path_cong:
  "\<forall>x\<in>set xs. m' (x + off) = m (x + off) \<Longrightarrow> path m' off p xs = path m off p xs"
  by (simp add: path_seg seg_cong)

lemma path_nonzero: "path m off p xs \<Longrightarrow> 0 \<notin> set xs"
  by (induction xs arbitrary: p) auto

lemma path_unique: "path m off p xs \<Longrightarrow> path m off p ys \<Longrightarrow> xs = ys"
proof (induction xs arbitrary: p ys)
  case Nil
  then show ?case by (cases ys) auto
next
  case (Cons x xs)
  then show ?case by (cases ys) auto
qed

lemma path_suffix: "path m off p (xs @ y # ys) \<Longrightarrow> path m off y (y # ys)"
  by (induction xs arbitrary: p) auto

lemma path_distinct: "path m off p xs \<Longrightarrow> distinct xs"
proof (induction xs arbitrary: p)
  case Nil
  then show ?case by simp
next
  case (Cons x xs)
  then have rest: "path m off (m (x + off)) xs" by simp
  have "x \<notin> set xs"
  proof
    assume "x \<in> set xs"
    then obtain us vs where xs: "xs = us @ x # vs" by (auto simp: in_set_conv_decomp)
    with rest have "path m off x (x # vs)" using path_suffix by blast
    then have "path m off (m (x + off)) vs" by simp
    with rest have "xs = vs" by (rule path_unique)
    with xs show False by simp
  qed
  with Cons.IH [OF rest] show ?case by simp
qed

lemma first_fit_from_spec:
  "path (mem s) 8 p cs \<Longrightarrow> \<forall>c\<in>set cs. valid_access s c \<and> valid_access s (c + 8) \<Longrightarrow>
   first_fit_from q p sz s = ret (fit_result (mem s) sz q cs)"
proof (induction cs arbitrary: p q)
  case Nil
  then show ?case
    by (subst first_fit_from.simps) (simp add: fit_result_def)
next
  case (Cons c cs)
  from Cons.prems have p: "p = c" "c \<noteq> 0" and rest: "path (mem s) 8 (mem s (c + 8)) cs"
    and v: "valid_access s c" "valid_access s (c + 8)"
    and vs: "\<forall>c\<in>set cs. valid_access s c \<and> valid_access s (c + 8)"
    by auto
  show ?case
  proof (cases "mem s c < sz")
    case True
    then show ?thesis
      using p v Cons.IH [OF rest vs, of c]
      by (subst first_fit_from.simps)
         (simp add: load_valid field_defs fit_result_def Let_def)
  next
    case False
    then show ?thesis
      using p v
      by (subst first_fit_from.simps) (simp add: load_valid field_defs fit_result_def)
  qed
qed

lemma accommodating_from_spec:
  "path (mem s) 24 p as \<Longrightarrow> \<forall>a\<in>set as. valid_access s (a + 8) \<and> valid_access s (a + 24) \<Longrightarrow>
   accommodating_from p sz s = ret (accommodating (mem s) sz as)"
proof (induction as arbitrary: p)
  case Nil
  then show ?case
    by (subst accommodating_from.simps) (simp add: accommodating_def)
next
  case (Cons a as)
  from Cons.prems have p: "p = a" "a \<noteq> 0" and rest: "path (mem s) 24 (mem s (a + 24)) as"
    and v: "valid_access s (a + 8)" "valid_access s (a + 24)"
    and vs: "\<forall>a\<in>set as. valid_access s (a + 8) \<and> valid_access s (a + 24)"
    by auto
  show ?case
    using p v Cons.IH [OF rest vs]
    by (subst accommodating_from.simps)
       (simp add: load_valid field_defs accommodating_def)
qed

lemma find_arena_from_spec:
  "path (mem s) 24 p as \<Longrightarrow> \<forall>a\<in>set as. arena_readable s a \<Longrightarrow>
   find_arena_from p ptr s = ret (owner s ptr as)"
proof (induction as arbitrary: p)
  case Nil
  then show ?case
    by (subst find_arena_from.simps) (simp add: owner_def)
next
  case (Cons a as)
  from Cons.prems have p: "p = a" "a \<noteq> 0" and rest: "path (mem s) 24 (mem s (a + 24)) as"
    and v: "arena_readable s a" and vs: "\<forall>a\<in>set as. arena_readable s a"
    by auto
  have pin: "TAlloc_ptr_in_arena a ptr s = ret (inside_arena s a ptr)"
    using v by (simp add: TAlloc_ptr_in_arena_def arena_readable_def inside_arena_def load_valid)
  show ?case
    using p v Cons.IH [OF rest vs] pin
    by (subst find_arena_from.simps)
       (simp add: load_valid field_defs owner_def arena_readable_def)
qed

lemma insert_after_from_spec:
  "path (mem s) 8 (mem s (ia + 8)) cs \<Longrightarrow> valid_access s (ia + 8) \<Longrightarrow>
   \<forall>c\<in>set cs. valid_access s (c + 8) \<Longrightarrow>
   insert_after_from ia chunk s = ret (last (ia # takeWhile (\<lambda>c. c < chunk) cs))"
proof (induction cs arbitrary: ia)
  case Nil
  then show ?case
    by (subst insert_after_from.simps) (simp add: load_valid field_defs)
next
  case (Cons c cs)
  from Cons.prems have p: "mem s (ia + 8) = c" "c \<noteq> 0"
    and rest: "path (mem s) 8 (mem s (c + 8)) cs"
    and v: "valid_access s (ia + 8)" "valid_access s (c + 8)"
    and vs: "\<forall>c\<in>set cs. valid_access s (c + 8)"
    by auto
  show ?case
    using p v Cons.IH [OF rest v(2) vs]
    by (subst insert_after_from.simps) (simp add: load_valid field_defs)
qed

lemma adjust_spec:
  "valid_access s c \<Longrightarrow> valid_access s (a + 8) \<Longrightarrow>
   TAlloc_adjust_space_for_new_chunk a c s =
     ret (s\<lparr>mem := (mem s)(a + 8 := max (mem s c) (mem s (a + 8)))\<rparr>)"
  by (auto simp: TAlloc_adjust_space_for_new_chunk_def load_valid store_valid field_defs max_def)

lemma rescan_from_spec:
  "path (mem s) 8 (mem s (c + 8)) cs \<Longrightarrow> valid_access s (c + 8) \<Longrightarrow>
   valid_access s (a + 8) \<Longrightarrow>
   \<forall>x\<in>set cs. valid_access s x \<and> valid_access s (x + 8) \<and> x \<noteq> a + 8 \<and> x + 8 \<noteq> a + 8 \<Longrightarrow>
   rescan_from a c s =
     ret (s\<lparr>mem := (mem s)(a + 8 := fold max (map (mem s) cs) (mem s (a + 8)))\<rparr>)"
proof (induction cs arbitrary: c s)
  case Nil
  then show ?case
    by (subst rescan_from.simps) (simp add: load_valid field_defs)
next
  case (Cons x xs)
  from Cons.prems have p: "mem s (c + 8) = x" "x \<noteq> 0"
    and rest: "path (mem s) 8 (mem s (x + 8)) xs"
    and v: "valid_access s (c + 8)" "valid_access s (a + 8)" "valid_access s x"
      "valid_access s (x + 8)" "x \<noteq> a + 8" "x + 8 \<noteq> a + 8"
    and vs: "\<forall>y\<in>set xs. valid_access s y \<and> valid_access s (y + 8) \<and> y \<noteq> a + 8 \<and> y + 8 \<noteq> a + 8"
    by auto
  let ?s = "s\<lparr>mem := (mem s)(a + 8 := max (mem s x) (mem s (a + 8)))\<rparr>"
  have rest': "path (mem ?s) 8 (mem ?s (x + 8)) xs"
    using rest v vs by (simp add: path_frame)
  have vs': "\<forall>y\<in>set xs. valid_access ?s y \<and> valid_access ?s (y + 8) \<and> y \<noteq> a + 8 \<and> y + 8 \<noteq> a + 8"
    using vs by simp
  have m: "map (mem ?s) xs = map (mem s) xs"
    using vs by auto
  have step: "rescan_from a c s = rescan_from a x ?s"
    using p v by (subst rescan_from.simps) (simp add: load_valid field_defs adjust_spec)
  have "rescan_from a x ?s =
     ret (?s\<lparr>mem := (mem ?s)(a + 8 := fold max (map (mem ?s) xs) (mem ?s (a + 8)))\<rparr>)"
  proof (rule Cons.IH [OF rest' _ _ vs'])
    show "valid_access ?s (x + 8)" "valid_access ?s (a + 8)" using v by simp_all
  qed
  also have "map (mem ?s) xs = map (mem s) xs"
    by (rule m)
  also have "?s\<lparr>mem := (mem ?s)(a + 8 := fold max (map (mem s) xs) (mem ?s (a + 8)))\<rparr> =
      s\<lparr>mem := (mem s)(a + 8 := fold max (map (mem s) (x # xs)) (mem s (a + 8)))\<rparr>"
    by simp
  finally have fin: "rescan_from a x ?s =
      ret (s\<lparr>mem := (mem s)(a + 8 := fold max (map (mem s) (x # xs)) (mem s (a + 8)))\<rparr>)" .
  show ?case
    unfolding step by (rule fin)
qed

section \<open>Free lists as lists\<close>

lemma fold_max_ge: "(a::64 word) \<le> fold max xs a"
  by (induction xs arbitrary: a) (auto intro: order_trans [OF max.cobounded2])

lemma fold_max_mem: "x \<in> set xs \<Longrightarrow> (x::64 word) \<le> fold max xs a"
proof (induction xs arbitrary: a)
  case Nil
  then show ?case by simp
next
  case (Cons y ys)
  then show ?case
    by (auto intro: order_trans [OF max.cobounded1 fold_max_ge])
qed

lemma fold_max_in: "fold max xs (a::64 word) = a \<or> fold max xs a \<in> set xs"
proof (induction xs arbitrary: a)
  case Nil
  then show ?case by simp
next
  case (Cons y ys)
  from Cons.IH [of "max y a"] show ?case
    by (auto simp: max_def split: if_splits)
qed

lemma largest_ge: "x \<in> set xs \<Longrightarrow> x \<le> largest xs"
  by (simp add: largest_def fold_max_mem)

lemma largest_in: "xs \<noteq> [] \<Longrightarrow> largest xs \<in> set xs"
proof -
  assume ne: "xs \<noteq> []"
  then obtain y where y: "y \<in> set xs" by (cases xs) auto
  from fold_max_in [of xs 0] show ?thesis
  proof
    assume z: "fold max xs 0 = 0"
    from fold_max_mem [OF y, of 0] z have "y = 0" by simp
    with y z show ?thesis by (simp add: largest_def)
  next
    assume "fold max xs 0 \<in> set xs"
    then show ?thesis by (simp add: largest_def)
  qed
qed

lemma largest_Nil [simp]: "largest [] = 0"
  by (simp add: largest_def)

lemma largestI:
  "\<forall>x\<in>set xs. x \<le> v \<Longrightarrow> (if xs = [] then v = 0 else v \<in> set xs) \<Longrightarrow> largest xs = v"
proof (cases "xs = []")
  case True
  then show "(if xs = [] then v = 0 else v \<in> set xs) \<Longrightarrow> largest xs = v" by simp
next
  case False
  assume a: "\<forall>x\<in>set xs. x \<le> v" "if xs = [] then v = 0 else v \<in> set xs"
  with False have "v \<in> set xs" by simp
  then have "v \<le> largest xs" by (rule largest_ge)
  moreover have "largest xs \<le> v" using a(1) largest_in [OF False] by blast
  ultimately show "largest xs = v" by simp
qed

lemma largest_fold: "fold max xs (x::64 word) = largest (x # xs)"
  by (simp add: largest_def)

lemma gaps_ok_weaken: "gaps_ok lo hi fl \<Longrightarrow> lo' \<le> lo \<Longrightarrow> gaps_ok lo' hi fl"
  by (cases fl) auto

lemma gaps_ok_bounds:
  "gaps_ok lo hi fl \<Longrightarrow> (c, n) \<in> set fl \<Longrightarrow> lo \<le> unat c \<and> unat c + 16 + unat n \<le> hi"
proof (induction fl arbitrary: lo)
  case Nil
  then show ?case by simp
next
  case (Cons x fl)
  obtain c' n' where x: "x = (c', n')" by (cases x)
  from Cons.prems x show ?case
    using Cons.IH [of "unat c' + 16 + unat n' + 1"] by auto
qed

lemma gaps_ok_append:
  "gaps_ok lo hi (xs @ (c, n) # ys) =
     (gaps_ok lo (unat c - 1) xs \<and> (xs = [] \<or> 0 < unat c) \<and> lo \<le> unat c \<and> unat c + 16 + unat n \<le> hi \<and>
      gaps_ok (unat c + 16 + unat n + 1) hi ys)"
proof (induction xs arbitrary: lo)
  case Nil
  then show ?case by simp
next
  case (Cons x xs)
  obtain c' n' where x: "x = (c', n')" by (cases x)
  show ?case
    unfolding x using Cons.IH [of "unat c' + 16 + unat n' + 1"]
    by auto
qed

section \<open>Allocation from an arena\<close>

lemma valid_in_region:
  "(b, l) \<in> set (mapped s) \<Longrightarrow> unat b \<le> unat x \<Longrightarrow> unat x + 8 \<le> unat b + unat l \<Longrightarrow>
   valid_access s x"
  by (auto simp: valid_access_def list_ex_iff in_region_def)

lemma coalesce_noop:
  "valid_access s c \<Longrightarrow> valid_access s (c + 8) \<Longrightarrow> mem s (c + 8) \<noteq> c + mem s c + 16 \<Longrightarrow>
   TAlloc_coalesce c s = ret s"
  by (simp add: TAlloc_coalesce_def load_valid field_defs const_defs)

lemma split_chunk_split:
  assumes reg: "(a, l) \<in> set (mapped s)" "unat a + unat l < 2 ^ 64"
    and h: "unat a + 40 \<le> unat h" "unat h + 16 + unat hs \<le> unat a + unat l"
    and hs: "mem s h = hs" "sz \<le> hs" "16 < hs - sz"
    and hn: "mem s (h + 8) = hn" "hn = 0 \<or> unat h + 16 + unat hs < unat hn"
    and mx: "mem s (a + 8) = mx" "hs \<le> mx"
  shows "split_chunk a h sz s =
     ret ((h + 16 + sz, sz, mx \<le> hs),
          s\<lparr>mem := (mem s)(h + 16 + sz := hs - sz - 16, h + 16 + sz + 8 := hn)\<rparr>)"
proof -
  have szn: "unat sz \<le> unat hs" "16 < unat hs - unat sz"
    using hs(2,3) by (simp_all add: word_le_nat_alt word_less_nat_alt unat_minus)
  have n1: "unat (h + 16 + sz) = unat h + 16 + unat sz"
    using reg h szn by (simp add: unat_plus)
  have n2: "unat (h + 16 + sz + 8) = unat h + 16 + unat sz + 8"
    using reg h szn n1 by (simp add: unat_plus)
  have n3: "unat (h + 8) = unat h + 8" "unat (a + 8) = unat a + 8"
    using reg h szn by (simp_all add: unat_plus)
  have v: "valid_access s h" "valid_access s (h + 8)" "valid_access s (a + 8)"
    "valid_access s (h + 16 + sz)" "valid_access s (h + 16 + sz + 8)"
    using reg h szn n1 n2 n3 by (auto intro!: valid_in_region [OF reg(1)])
  have ne: "h + 16 + sz \<noteq> h" "h + 16 + sz \<noteq> h + 8" "h + 16 + sz + 8 \<noteq> h" "h + 16 + sz + 8 \<noteq> h + 8"
    "h + 16 + sz \<noteq> a + 8" "h + 16 + sz + 8 \<noteq> a + 8" "h + 16 + sz + 8 \<noteq> h + 16 + sz"
    using n1 n2 n3 h by (auto simp: word_unat_eq_iff)
  let ?s = "s\<lparr>mem := (mem s)(h + 16 + sz := hs - sz - 16, h + 16 + sz + 8 := hn)\<rparr>"
  have e: "unat (hs - sz - 16) = unat hs - unat sz - 16"
    using szn by (simp add: unat_minus)
  have end_eq: "unat (h + 16 + sz + (hs - sz - 16) + 16) = unat h + 16 + unat hs"
    using reg h szn n1 e by (simp add: unat_plus)
  have "hn \<noteq> h + 16 + sz + (hs - sz - 16) + 16"
    using hn(2) end_eq h by (auto simp: word_unat_eq_iff)
  then have co: "TAlloc_coalesce (h + 16 + sz) ?s = ret ?s"
    using v ne by (intro coalesce_noop) simp_all
  have lt: "hs - sz - 16 < hs"
    using szn e by (simp add: word_less_nat_alt)
  have "hs - sz - 16 \<le> mx"
    by (rule order_trans [OF less_imp_le [OF lt] mx(2)])
  then have mxeq: "max (hs - sz - 16) mx = mx"
    by (simp add: max_absorb2)
  have adj: "TAlloc_adjust_space_for_new_chunk a (h + 16 + sz) ?s = ret ?s"
    using v ne mx(1) mxeq by (subst adjust_spec) (simp_all add: fun_upd_idem)
  show ?thesis
    using v ne hs hn mx co adj lt
    by (simp add: split_chunk_def load_valid store_valid field_defs const_defs Let_def)
qed

lemma split_chunk_donate:
  assumes v: "valid_access s h" "valid_access s (h + 8)" "valid_access s (a + 8)"
    and hs: "mem s h = hs" "sz \<le> hs" "\<not> 16 < hs - sz"
    and hn: "mem s (h + 8) = hn" and mx: "mem s (a + 8) = mx"
  shows "split_chunk a h sz s = ret ((hn, hs, mx \<le> hs), s)"
  using assms
  by (simp add: split_chunk_def load_valid store_valid field_defs const_defs Let_def)

lemma gaps_split_facts:
  assumes "gaps_ok lo hi (pre @ (h, hs) # rest)"
  shows "lo \<le> unat h" "unat h + 16 + unat hs \<le> hi"
    "\<And>c n. (c, n) \<in> set pre \<Longrightarrow> lo \<le> unat c \<and> unat c + 16 + unat n < unat h"
    "\<And>c n. (c, n) \<in> set rest \<Longrightarrow> unat h + 16 + unat hs < unat c \<and> unat c + 16 + unat n \<le> hi"
proof -
  from assms have g: "gaps_ok lo (unat h - 1) pre" "pre = [] \<or> 0 < unat h" "lo \<le> unat h"
    "unat h + 16 + unat hs \<le> hi" "gaps_ok (unat h + 16 + unat hs + 1) hi rest"
    by (simp_all add: gaps_ok_append)
  show "lo \<le> unat h" "unat h + 16 + unat hs \<le> hi" using g by simp_all
  show "lo \<le> unat c \<and> unat c + 16 + unat n < unat h" if "(c, n) \<in> set pre" for c n
    using gaps_ok_bounds [OF g(1) that] g(2) that by auto
  show "unat h + 16 + unat hs < unat c \<and> unat c + 16 + unat n \<le> hi" if "(c, n) \<in> set rest" for c n
    using gaps_ok_bounds [OF g(5) that] by auto
qed

lemma fit_result_decomp:
  assumes vals: "\<forall>x\<in>set (pre @ (h, hs) # rest). m (fst x) = snd x"
    and small: "\<forall>x\<in>set pre. small sz x" and fit: "sz \<le> hs"
  shows "fit_result m sz q (map fst (pre @ (h, hs) # rest)) =
     (if pre = [] then q else fst (last pre), h)"
proof -
  have p: "m c < sz" if "c \<in> set (map fst pre)" for c
  proof -
    from that obtain n where cn: "(c, n) \<in> set pre" by auto
    with vals have "m c = n" by force
    moreover from small cn have "n < sz" by (auto simp: small_def)
    ultimately show ?thesis by simp
  qed
  have nh: "\<not> m h < sz"
    using vals fit by (simp add: not_less)
  have "takeWhile (\<lambda>c. m c < sz) (map fst pre @ h # map fst rest) =
      map fst pre @ takeWhile (\<lambda>c. m c < sz) (h # map fst rest)"
    by (rule takeWhile_append2) (rule p)
  then have t: "takeWhile (\<lambda>c. m c < sz) (map fst pre @ h # map fst rest) = map fst pre"
    using nh by simp
  have "dropWhile (\<lambda>c. m c < sz) (map fst pre @ h # map fst rest) =
      dropWhile (\<lambda>c. m c < sz) (h # map fst rest)"
    by (rule dropWhile_append2) (rule p)
  then have d: "dropWhile (\<lambda>c. m c < sz) (map fst pre @ h # map fst rest) = h # map fst rest"
    using nh by simp
  show ?thesis
    using t d by (simp add: fit_result_def Let_def last_map)
qed

lemma fl_rep_decomp:
  assumes "fl_rep m p (pre @ (h, hs) # rest)"
  shows "seg m 8 p (map fst pre) h" "h \<noteq> 0" "m h = hs" "path m 8 (m (h + 8)) (map fst rest)"
    "\<And>c n. (c, n) \<in> set pre \<Longrightarrow> m c = n \<and> c \<noteq> 0"
    "\<And>c n. (c, n) \<in> set rest \<Longrightarrow> m c = n \<and> c \<noteq> 0"
proof -
  from assms have pa: "path m 8 p (map fst pre @ h # map fst rest)"
    and v: "\<forall>x\<in>set (pre @ (h, hs) # rest). m (fst x) = snd x"
    by (simp_all add: fl_rep_def)
  from pa obtain r where r: "seg m 8 p (map fst pre) r" "path m 8 r (h # map fst rest)"
    by (auto simp: path_append)
  then show "seg m 8 p (map fst pre) h" "h \<noteq> 0" "path m 8 (m (h + 8)) (map fst rest)"
    by auto
  show "m h = hs" using v by simp
  have nz: "0 \<notin> set (map fst pre @ h # map fst rest)"
    using pa by (rule path_nonzero)
  show "m c = n \<and> c \<noteq> 0" if "(c, n) \<in> set pre" for c n
    using v nz that by force
  show "m c = n \<and> c \<noteq> 0" if "(c, n) \<in> set rest" for c n
    using v nz that by force
qed

lemma hd_pointer:
  "path m 8 p (map fst rest) \<Longrightarrow> p = (if rest = [] then 0 else fst (hd rest))"
  by (cases rest) auto

lemma fl_rep_cong:
  "fl_rep m p fl \<Longrightarrow> \<forall>x\<in>set fl. m' (fst x) = m (fst x) \<and> m' (fst x + 8) = m (fst x + 8) \<Longrightarrow>
   fl_rep m' p fl"
  unfolding fl_rep_def
  by (auto simp: path_cong [where m' = m' and m = m])

lemma fl_rep_Cons:
  "fl_rep m p ((c, n) # fl) = (p = c \<and> c \<noteq> 0 \<and> m c = n \<and> fl_rep m (m (c + 8)) fl)"
  by (auto simp: fl_rep_def)

lemma fl_rep_Nil: "fl_rep m p [] = (p = 0)"
  by (simp add: fl_rep_def)

lemma recompute_max_spec:
  assumes rep: "fl_rep (mem s) (mem s (a + 16)) fl"
    and va: "valid_access s (a + 8)" "valid_access s (a + 16)"
    and vc: "\<forall>x\<in>set fl. valid_access s (fst x) \<and> valid_access s (fst x + 8) \<and>
               fst x \<noteq> a + 8 \<and> fst x + 8 \<noteq> a + 8"
  shows "recompute_max a s = ret (s\<lparr>mem := (mem s)(a + 8 := largest (map snd fl))\<rparr>)"
proof (cases fl)
  case Nil
  with rep have "mem s (a + 16) = 0" by (simp add: fl_rep_Nil)
  then show ?thesis
    using va Nil by (simp add: recompute_max_def load_valid store_valid field_defs)
next
  case (Cons x fl0)
  obtain c n where x: "x = (c, n)" by (cases x)
  from rep Cons x have p: "mem s (a + 16) = c" "c \<noteq> 0" "mem s c = n"
    and rest: "fl_rep (mem s) (mem s (c + 8)) fl0"
    by (simp_all add: fl_rep_Cons)
  from vc Cons x have v: "valid_access s c" "valid_access s (c + 8)" "c \<noteq> a + 8" "c + 8 \<noteq> a + 8"
    and vs: "\<forall>y\<in>set fl0. valid_access s (fst y) \<and> valid_access s (fst y + 8) \<and>
               fst y \<noteq> a + 8 \<and> fst y + 8 \<noteq> a + 8"
    by auto
  let ?s = "s\<lparr>mem := (mem s)(a + 8 := n)\<rparr>"
  have rest': "path (mem ?s) 8 (mem ?s (c + 8)) (map fst fl0)"
    using rest v vs by (simp add: fl_rep_def path_frame)
  have vals: "map (mem ?s) (map fst fl0) = map snd fl0"
    using rest vs by (auto simp: fl_rep_def)
  have "rescan_from a c ?s =
      ret (?s\<lparr>mem := (mem ?s)(a + 8 := fold max (map (mem ?s) (map fst fl0)) (mem ?s (a + 8)))\<rparr>)"
  proof (rule rescan_from_spec [OF rest'])
    show "valid_access ?s (c + 8)" "valid_access ?s (a + 8)" using v va by simp_all
    show "\<forall>x\<in>set (map fst fl0). valid_access ?s x \<and> valid_access ?s (x + 8) \<and>
        x \<noteq> a + 8 \<and> x + 8 \<noteq> a + 8"
      using vs by simp
  qed
  also have "map (mem ?s) (map fst fl0) = map snd fl0" by (rule vals)
  also have "?s\<lparr>mem := (mem ?s)(a + 8 := fold max (map snd fl0) (mem ?s (a + 8)))\<rparr> =
      s\<lparr>mem := (mem s)(a + 8 := largest (map snd fl))\<rparr>"
    using Cons x by (simp add: largest_fold)
  finally have fin: "rescan_from a c ?s = ret (s\<lparr>mem := (mem s)(a + 8 := largest (map snd fl))\<rparr>)" .
  show ?thesis
    using p v va fin
    by (simp add: recompute_max_def load_valid store_valid field_defs Let_def)
qed

lemma arena_inv_valid:
  assumes "arena_inv s L a fl" "unat a \<le> unat x" "unat x + 8 \<le> unat a + unat (mem s a)"
  shows "valid_access s x"
  using assms by (auto simp: arena_inv_def intro: valid_in_region)

lemma take_chunk_run:
  assumes inv: "arena_inv s L a (pre @ (h, hs) # rest)"
    and small: "\<forall>x\<in>set pre. small sz x" and fit: "sz \<le> hs"
  shows "take_chunk a sz s =
     bnd (if largest (map snd (pre @ (h, hs) # rest)) \<le> hs
          then recompute_max a
                 (s\<lparr>mem := taken_mem (mem s) h hs sz (if pre = [] then a + 16 else fst (hd pre) + 8)\<rparr>)
          else ret (s\<lparr>mem := taken_mem (mem s) h hs sz (if pre = [] then a + 16 else fst (hd pre) + 8)\<rparr>))
       (\<lambda>s. ret (h + 16, s))"
proof -
  let ?fl = "pre @ (h, hs) # rest"
  let ?l = "mem s a"
  let ?hi = "unat a + unat ?l"
  let ?mx = "largest (map snd ?fl)"
  from inv have reg: "(a, ?l) \<in> set (mapped s)" "?hi < 2 ^ 64" "56 < unat ?l"
    and rep: "fl_rep (mem s) (mem s (a + 16)) ?fl"
    and gaps: "gaps_ok (unat a + 40) ?hi ?fl"
    and mx: "mem s (a + 8) = ?mx"
    by (simp_all add: arena_inv_def)
  note gb = gaps_split_facts [OF gaps]
  note rd = fl_rep_decomp [OF rep]
  have va: "valid_access s x" if "unat a \<le> unat x" "unat x + 8 \<le> ?hi" for x
    using arena_inv_valid [OF inv that] .
  have ua: "unat (a + 8) = unat a + 8" "unat (a + 16) = unat a + 16"
    using reg by (simp_all add: unat_plus)
  have uh: "unat (h + 8) = unat h + 8"
    using reg gb(1,2) by (simp add: unat_plus)
  have vah: "valid_access s (a + 8)" "valid_access s (a + 16)" "valid_access s h"
    "valid_access s (h + 8)"
    using reg gb(1,2) ua uh by (auto intro!: va)
  have vfl: "\<forall>c\<in>set (map fst ?fl). valid_access s c \<and> valid_access s (c + 8)"
  proof
    fix c assume "c \<in> set (map fst ?fl)"
    then obtain n where cn: "(c, n) \<in> set ?fl" by fastforce
    from gaps_ok_bounds [OF gaps cn] have b: "unat a + 40 \<le> unat c" "unat c + 16 + unat n \<le> ?hi"
      by simp_all
    with reg have "unat (c + 8) = unat c + 8" by (simp add: unat_plus)
    with b show "valid_access s c \<and> valid_access s (c + 8)"
      by (auto intro!: va)
  qed
  have pa: "path (mem s) 8 (mem s (a + 16)) (map fst ?fl)"
    using rep by (simp add: fl_rep_def)
  have vals: "\<forall>x\<in>set ?fl. mem s (fst x) = snd x"
    using rep by (simp add: fl_rep_def)
  have ff: "first_fit_from 0 (mem s (a + 16)) sz s = ret (if pre = [] then 0 else fst (last pre), h)"
    using first_fit_from_spec [OF pa vfl, of 0 sz] fit_result_decomp [OF vals small fit, of 0]
    by simp
  have lastnz: "pre \<noteq> [] \<Longrightarrow> fst (last pre) \<noteq> 0"
    using rd(5) [of "fst (last pre)" "snd (last pre)"] by simp
  have p0: "pre \<noteq> [] \<Longrightarrow> mem s (a + 16) = fst (hd pre)"
    using rd(1) by (cases pre) auto
  have hsmx: "hs \<le> ?mx"
    by (rule largest_ge) simp
  define hn where "hn = mem s (h + 8)"
  have hn_eq: "hn = (if rest = [] then 0 else fst (hd rest))"
    using hd_pointer [OF rd(4)] by (simp add: hn_def)
  have hn_sep: "hn = 0 \<or> unat h + 16 + unat hs < unat hn"
  proof (cases rest)
    case Nil
    then show ?thesis using hn_eq by simp
  next
    case (Cons x xs)
    then have "(fst x, snd x) \<in> set rest" by simp
    from gb(4) [OF this] show ?thesis using hn_eq Cons by simp
  qed
  define link where "link = (if pre = [] then a + 16 else fst (hd pre) + 8)"
  have vlink: "valid_access s link"
  proof (cases pre)
    case Nil
    then show ?thesis using vah by (simp add: link_def)
  next
    case (Cons x xs)
    then have "fst x \<in> set (map fst ?fl)" by simp
    with vfl have "valid_access s (fst x + 8)" by blast
    then show ?thesis using Cons by (simp add: link_def)
  qed
  define nfc' where "nfc' = (if 16 < hs - sz then h + 16 + sz else hn)"
  define asp where "asp = (if 16 < hs - sz then sz else hs)"
  define m1 where "m1 = (if 16 < hs - sz then (mem s)(h + 16 + sz := hs - sz - 16, h + 16 + sz + 8 := hn)
     else mem s)"
  have sc: "split_chunk a h sz s = ret ((nfc', asp, ?mx \<le> hs), s\<lparr>mem := m1\<rparr>)"
  proof (cases "16 < hs - sz")
    case True
    have "split_chunk a h sz s =
      ret ((h + 16 + sz, sz, ?mx \<le> hs),
           s\<lparr>mem := (mem s)(h + 16 + sz := hs - sz - 16, h + 16 + sz + 8 := hn)\<rparr>)"
      using reg gb(1,2) rd(3) fit True hn_sep mx hsmx
      by (intro split_chunk_split [where l = "?l"]) (simp_all add: hn_def)
    then show ?thesis using True by (simp add: nfc'_def asp_def m1_def)
  next
    case False
    have "split_chunk a h sz s = ret ((hn, hs, ?mx \<le> hs), s)"
      using vah rd(3) fit False mx
      by (intro split_chunk_donate) (simp_all add: hn_def)
    then show ?thesis using False by (simp add: nfc'_def asp_def m1_def)
  qed
  have m1h8: "m1 (h + 8) = hn"
  proof (cases "16 < hs - sz")
    case True
    then have szn: "unat sz \<le> unat hs" "16 < unat hs - unat sz"
      using fit by (simp_all add: word_le_nat_alt word_less_nat_alt unat_minus)
    have n1: "unat (h + 16 + sz) = unat h + 16 + unat sz"
      using reg gb(1,2) szn by (simp add: unat_plus)
    have n2: "unat (h + 16 + sz + 8) = unat h + 16 + unat sz + 8"
      using reg gb(1,2) szn n1 by (simp add: unat_plus)
    have "h + 16 + sz \<noteq> h + 8" "h + 16 + sz + 8 \<noteq> h + 8"
      using n1 n2 uh by (auto simp: word_unat_eq_iff)
    then show ?thesis using True by (simp add: m1_def hn_def)
  next
    case False
    then show ?thesis by (simp add: m1_def hn_def)
  qed
  have m1a: "m1 (a + 16) = mem s (a + 16)"
  proof (cases "16 < hs - sz")
    case True
    then have szn: "unat sz \<le> unat hs" "16 < unat hs - unat sz"
      using fit by (simp_all add: word_le_nat_alt word_less_nat_alt unat_minus)
    have n1: "unat (h + 16 + sz) = unat h + 16 + unat sz"
      using reg gb(1,2) szn by (simp add: unat_plus)
    have n2: "unat (h + 16 + sz + 8) = unat h + 16 + unat sz + 8"
      using reg gb(1,2) szn n1 by (simp add: unat_plus)
    have "h + 16 + sz \<noteq> a + 16" "h + 16 + sz + 8 \<noteq> a + 16"
      using n1 n2 ua gb(1) by (auto simp: word_unat_eq_iff)
    then show ?thesis using True by (simp add: m1_def)
  next
    case False
    then show ?thesis by (simp add: m1_def)
  qed
  have ha16: "h \<noteq> a + 16" "h + 8 \<noteq> a + 16"
    using ua uh gb(1) by (auto simp: word_unat_eq_iff)
  have tm: "taken_mem (mem s) h hs sz link =
      m1(h + 8 := (hn AND 0xFFFFFFFF00000000) OR ucast TALLOC_MAGIC, h := asp, link := nfc')"
    by (simp add: taken_mem_def Let_def m1_def hn_def asp_def nfc'_def)
  have prev0: "((if pre = [] then 0 else fst (last pre)) = 0) = (pre = [])"
    using lastnz by auto
  have unl: "(if (if pre = [] then 0 else fst (last pre)) = 0
        then store (free_list_at a) nfc' s2
        else bnd (load (free_list_at a) s2) (\<lambda>free_list. store (next_at free_list) nfc' s2)) =
      ret (s2\<lparr>mem := (mem s2)(link := nfc')\<rparr>)"
    if "mapped s2 = mapped s" "mem s2 (a + 16) = mem s (a + 16)" for s2
  proof -
    have v2: "valid_access s2 x = valid_access s x" for x
      using that(1) by (simp add: valid_access_def)
    show ?thesis
      using that(2) p0 vah vlink prev0
      by (cases "pre = []") (simp_all add: v2 load_valid store_valid field_defs link_def)
  qed
  let ?s2 = "s\<lparr>mem := m1(h + 8 := (hn AND 0xFFFFFFFF00000000) OR ucast TALLOC_MAGIC, h := asp)\<rparr>"
  have unl2: "(if (if pre = [] then 0 else fst (last pre)) = 0
        then store (free_list_at a) nfc' ?s2
        else bnd (load (free_list_at a) ?s2) (\<lambda>free_list. store (next_at free_list) nfc' ?s2)) =
      ret (s\<lparr>mem := taken_mem (mem s) h hs sz link\<rparr>)"
    using unl [of ?s2] m1a ha16 by (simp add: tm)
  show ?thesis
    unfolding take_chunk_def
    using vah ff rd(2) sc m1h8 unl2
    by (simp add: load_valid store_valid store_magic_def field_defs const_defs Let_def
        link_def [symmetric] del: if_split cong: if_cong)
qed

lemma magic_roundtrip:
  "(ucast (((v::64 word) AND 0xFFFFFFFF00000000) OR ucast (g::32 word)) :: 32 word) = g"
proof (rule bit_word_eqI)
  fix n :: nat
  assume n: "n < LENGTH(32)"
  have c: "(0xFFFFFFFF00000000 :: 64 word) = push_bit 32 (mask 32)"
    by (simp add: mask_eq_exp_minus_1)
  have "\<not> bit (v AND push_bit 32 (mask 32 :: 64 word)) n"
    using n by (simp add: bit_and_iff bit_push_bit_iff)
  then show "bit (ucast ((v AND 0xFFFFFFFF00000000) OR ucast g) :: 32 word) n = bit g n"
    using n unfolding c by (simp add: bit_ucast_iff bit_or_iff)
qed

text \<open>The cells written by the allocation lie in the block of the consumed chunk, or are the
  link.\<close>

lemma split_nat:
  fixes h hs sz :: "64 word"
  assumes "unat h + 16 + unat hs < 2 ^ 64" "sz \<le> hs" "16 < hs - sz"
  shows "unat sz + 16 < unat hs" "unat (hs - sz - 16) = unat hs - unat sz - 16"
    "unat (h + 16 + sz) = unat h + 16 + unat sz"
    "unat (h + 16 + sz + 8) = unat h + 16 + unat sz + 8"
proof -
  have szn: "unat sz \<le> unat hs" "16 < unat hs - unat sz"
    using assms(2,3) by (simp_all add: word_le_nat_alt word_less_nat_alt unat_minus)
  then show "unat sz + 16 < unat hs" by simp
  show "unat (hs - sz - 16) = unat hs - unat sz - 16"
    using szn by (simp add: unat_minus)
  show n1: "unat (h + 16 + sz) = unat h + 16 + unat sz"
    using assms(1) szn by (simp add: unat_plus)
  show "unat (h + 16 + sz + 8) = unat h + 16 + unat sz + 8"
    using assms(1) szn n1 by (simp add: unat_plus)
qed

lemma taken_mem_frame:
  assumes b: "unat h + 16 + unat hs < 2 ^ 64" "sz \<le> hs"
    and out: "unat x < unat h \<or> unat h + 16 + unat hs \<le> unat x" and nl: "x \<noteq> link"
  shows "taken_mem m h hs sz link x = m x"
proof -
  have uh: "unat (h + 8) = unat h + 8" using b by (simp add: unat_plus)
  have ne: "x \<noteq> h" "x \<noteq> h + 8" using out uh by (auto simp: word_unat_eq_iff)
  show ?thesis
  proof (cases "16 < hs - sz")
    case True
    note sn = split_nat [OF b True]
    have "x \<noteq> h + 16 + sz" "x \<noteq> h + 16 + sz + 8"
      using out sn by (auto simp: word_unat_eq_iff)
    then show ?thesis using ne nl True by (simp add: taken_mem_def Let_def)
  next
    case False
    then show ?thesis using ne nl by (simp add: taken_mem_def Let_def)
  qed
qed

lemma taken_mem_link:
  "taken_mem m h hs sz link link = (if 16 < hs - sz then h + 16 + sz else m (h + 8))"
  by (simp add: taken_mem_def Let_def)

lemma taken_mem_header:
  assumes b: "unat h + 16 + unat hs < 2 ^ 64" and nl: "link \<noteq> h" "link \<noteq> h + 8"
  shows "taken_mem m h hs sz link h = (if 16 < hs - sz then sz else hs)"
    "ucast (taken_mem m h hs sz link (h + 8)) = TALLOC_MAGIC"
proof -
  have uh: "unat (h + 8) = unat h + 8" using b by (simp add: unat_plus)
  then have "h + 8 \<noteq> h" by (auto simp: word_unat_eq_iff)
  then show "taken_mem m h hs sz link h = (if 16 < hs - sz then sz else hs)"
    using nl by (simp add: taken_mem_def Let_def)
  show "ucast (taken_mem m h hs sz link (h + 8)) = TALLOC_MAGIC"
    using nl \<open>h + 8 \<noteq> h\<close> by (simp add: taken_mem_def Let_def magic_roundtrip)
qed

lemma taken_mem_remainder:
  assumes b: "unat h + 16 + unat hs < 2 ^ 64" "sz \<le> hs" and sp: "16 < hs - sz"
    and nl: "link \<noteq> h + 16 + sz" "link \<noteq> h + 16 + sz + 8"
  shows "taken_mem m h hs sz link (h + 16 + sz) = hs - sz - 16"
    "taken_mem m h hs sz link (h + 16 + sz + 8) = m (h + 8)"
proof -
  note sn = split_nat [OF b sp]
  have uh: "unat (h + 8) = unat h + 8" using b by (simp add: unat_plus)
  have ne: "h + 16 + sz \<noteq> h" "h + 16 + sz \<noteq> h + 8" "h + 16 + sz + 8 \<noteq> h" "h + 16 + sz + 8 \<noteq> h + 8"
    "h + 16 + sz + 8 \<noteq> h + 16 + sz"
    using sn uh by (auto simp: word_unat_eq_iff)
  show "taken_mem m h hs sz link (h + 16 + sz) = hs - sz - 16"
    using sp nl ne by (simp add: taken_mem_def Let_def)
  show "taken_mem m h hs sz link (h + 16 + sz + 8) = m (h + 8)"
    using sp nl ne by (simp add: taken_mem_def Let_def)
qed

lemma taken_list_set:
  "x \<in> set (taken_list pre h hs rest sz) \<Longrightarrow>
   x \<in> set pre \<or> x \<in> set rest \<or> (16 < hs - sz \<and> x = (h + 16 + sz, hs - sz - 16))"
  by (cases pre) (auto simp: taken_list_def Let_def split: if_splits)

lemma taken_list_rest: "x \<in> set rest \<Longrightarrow> x \<in> set (taken_list pre h hs rest sz)"
  by (auto simp: taken_list_def Let_def)

lemma taken_gaps:
  assumes gaps: "gaps_ok lo hi (pre @ (h, hs) # rest)" and hi: "hi < 2 ^ 64" and fit: "sz \<le> hs"
  shows "gaps_ok lo hi (taken_list pre h hs rest sz)"
proof -
  note gb = gaps_split_facts [OF gaps]
  from gaps have g1: "gaps_ok (unat h + 16 + unat hs + 1) hi rest"
    by (simp add: gaps_ok_append)
  have b: "unat h + 16 + unat hs < 2 ^ 64" using gb(2) hi by simp
  define repl where "repl = (if 16 < hs - sz then [(h + 16 + sz, hs - sz - 16)] else [])"
  have g3: "gaps_ok X hi (repl @ rest)" if "X \<le> unat h" for X
  proof (cases "16 < hs - sz")
    case True
    note sn = split_nat [OF b fit True]
    show ?thesis
      using True sn g1 gb(2) that by (simp add: repl_def)
  next
    case False
    then show ?thesis
      using gaps_ok_weaken [OF g1, of X] that by (simp add: repl_def)
  qed
  show ?thesis
  proof (cases pre)
    case Nil
    then show ?thesis using g3 [of lo] gb(1) by (simp add: taken_list_def repl_def)
  next
    case (Cons x xs)
    obtain c0 n0 where x: "x = (c0, n0)" by (cases x)
    have "(c0, n0) \<in> set pre" using Cons x by simp
    from gb(3) [OF this] have c0: "lo \<le> unat c0" "unat c0 + 16 + unat n0 < unat h" by simp_all
    have "gaps_ok (unat c0 + 16 + unat n0 + 1) hi (repl @ rest)"
      using c0 by (intro g3) simp
    then show ?thesis
      using Cons x c0 gb(2) by (simp add: taken_list_def repl_def [symmetric] Let_def)
  qed
qed

lemma taken_largest_unaffected:
  assumes small: "\<forall>x\<in>set pre. small sz x" and fit: "sz \<le> hs"
    and lt: "hs < largest (map snd (pre @ (h, hs) # rest))"
    and b: "unat h + 16 + unat hs < 2 ^ 64"
  shows "largest (map snd (taken_list pre h hs rest sz)) = largest (map snd (pre @ (h, hs) # rest))"
proof (rule largestI)
  let ?fl = "pre @ (h, hs) # rest"
  let ?mx = "largest (map snd ?fl)"
  show "\<forall>v\<in>set (map snd (taken_list pre h hs rest sz)). v \<le> ?mx"
  proof
    fix v assume "v \<in> set (map snd (taken_list pre h hs rest sz))"
    then have "v \<in> snd ` set (taken_list pre h hs rest sz)" by (simp only: set_map)
    then obtain x where x0: "v = snd x" "x \<in> set (taken_list pre h hs rest sz)" by (rule imageE)
    then have x: "x \<in> set (taken_list pre h hs rest sz)" "v = snd x" by simp_all
    from taken_list_set [OF x(1)] show "v \<le> ?mx"
    proof (elim disjE conjE)
      assume "x \<in> set pre"
      then show ?thesis using x(2) by (intro largest_ge) auto
    next
      assume "x \<in> set rest"
      then show ?thesis using x(2) by (intro largest_ge) auto
    next
      assume sp: "16 < hs - sz" and xe: "x = (h + 16 + sz, hs - sz - 16)"
      note sn = split_nat [OF b fit sp]
      have "hs - sz - 16 < hs" using sn by (simp add: word_less_nat_alt)
      with lt xe x(2) show ?thesis by simp
    qed
  qed
  have "?mx \<in> set (map snd ?fl)" by (rule largest_in) simp
  then have "?mx \<in> snd ` set ?fl" by (simp only: set_map)
  then obtain y where y0: "?mx = snd y" "y \<in> set ?fl" by (rule imageE)
  then have y: "y \<in> set ?fl" "snd y = ?mx" by simp_all
  have "y \<in> set rest"
  proof -
    have "y \<notin> set pre"
    proof
      assume "y \<in> set pre"
      with small have "snd y < sz" by (auto simp: small_def)
      with fit lt y(2) show False by simp
    qed
    moreover have "y \<noteq> (h, hs)" using y(2) lt by auto
    ultimately show ?thesis using y(1) by auto
  qed
  then have "y \<in> set (taken_list pre h hs rest sz)" by (rule taken_list_rest)
  then have "?mx \<in> set (map snd (taken_list pre h hs rest sz))"
    using y(2) by force
  moreover have "taken_list pre h hs rest sz \<noteq> []"
    using \<open>y \<in> set (taken_list pre h hs rest sz)\<close> by auto
  ultimately show "if map snd (taken_list pre h hs rest sz) = [] then ?mx = 0
      else ?mx \<in> set (map snd (taken_list pre h hs rest sz))"
    by simp
qed

lemma taken_lives:
  fixes m m' :: "addr \<Rightarrow> 64 word"
  assumes lv: "lives_ok m L lo hi (pre @ (h, hs) # rest)"
    and gaps: "gaps_ok lo hi (pre @ (h, hs) # rest)" and hi: "hi < 2 ^ 64" and fit: "sz \<le> hs"
    and same: "\<And>p. p \<in> set L \<Longrightarrow> lo \<le> unat p \<Longrightarrow> unat p < hi \<Longrightarrow> m' (p - 16) = m (p - 16)"
    and hdr: "m' h = (if 16 < hs - sz then sz else hs)"
  shows "lives_ok m' ((h + 16) # L) lo hi (taken_list pre h hs rest sz)"
proof -
  note gb = gaps_split_facts [OF gaps]
  have b: "unat h + 16 + unat hs < 2 ^ 64" using gb(2) hi by simp
  have up: "unat (h + 16) = unat h + 16" using b by (simp add: unat_plus)
  have hback: "h + 16 - 16 = h" by simp
  define asp where "asp = (if 16 < hs - sz then sz else hs)"
  have asp_le: "unat asp \<le> unat hs"
    using fit by (simp add: asp_def word_le_nat_alt)
  have asp_split: "16 < hs - sz \<Longrightarrow> unat h + 16 + unat asp = unat (h + 16 + sz)"
    using split_nat [OF b fit] by (simp add: asp_def)
  \<comment> \<open>every chunk of the new list lies in the block of an old chunk\<close>
  have newchunk: "\<exists>y\<in>set (pre @ (h, hs) # rest).
      unat (fst y) \<le> unat (fst x) \<and> unat (fst x) + 16 + unat (snd x) \<le> unat (fst y) + 16 + unat (snd y) \<and>
      (y = (h, hs) \<longrightarrow> unat h + 16 + unat asp \<le> unat (fst x))"
    if "x \<in> set (taken_list pre h hs rest sz)" for x
    using taken_list_set [OF that]
  proof (elim disjE conjE)
    assume "x \<in> set pre"
    moreover from this gb(3) [of "fst x" "snd x"] have "x \<noteq> (h, hs)" by auto
    ultimately show ?thesis by (intro bexI [of _ x]) auto
  next
    assume "x \<in> set rest"
    moreover from this gb(4) [of "fst x" "snd x"] have "x \<noteq> (h, hs)" by auto
    ultimately show ?thesis by (intro bexI [of _ x]) auto
  next
    assume sp: "16 < hs - sz" and xe: "x = (h + 16 + sz, hs - sz - 16)"
    note sn = split_nat [OF b fit sp]
    show ?thesis
      using sn xe sp by (intro bexI [of _ "(h, hs)"]) (auto simp: asp_def)
  qed
  have old: "lo + 16 \<le> unat p \<and> unat p + unat (m (p - 16)) \<le> hi \<and>
      (\<forall>x\<in>set (pre @ (h, hs) # rest).
          unat (fst x) + 16 + unat (snd x) \<le> unat p - 16 \<or> unat p + unat (m (p - 16)) \<le> unat (fst x)) \<and>
      (\<forall>q\<in>set L. q \<noteq> p \<and> lo \<le> unat q \<and> unat q < hi \<longrightarrow>
          unat q + unat (m (q - 16)) \<le> unat p - 16 \<or> unat p + unat (m (p - 16)) \<le> unat q - 16)"
    if "p \<in> set L" "lo \<le> unat p" "unat p < hi" for p
    using lv that unfolding lives_ok_def by blast
  have oldh: "unat h + 16 + unat hs \<le> unat p - 16 \<or> unat p + unat (m (p - 16)) \<le> unat h"
    if "p \<in> set L" "lo \<le> unat p" "unat p < hi" for p
    using old [OF that] by auto
  have notnew: "p \<noteq> h + 16" if "p \<in> set L" "lo \<le> unat p" "unat p < hi" for p
    using oldh [OF that] up by auto
  show ?thesis
    unfolding lives_ok_def
  proof (intro ballI impI)
    fix p assume pin: "p \<in> set ((h + 16) # L)" and inside: "lo \<le> unat p \<and> unat p < hi"
    show "lo + 16 \<le> unat p \<and> unat p + unat (m' (p - 16)) \<le> hi \<and>
        (\<forall>x\<in>set (taken_list pre h hs rest sz).
            unat (fst x) + 16 + unat (snd x) \<le> unat p - 16 \<or> unat p + unat (m' (p - 16)) \<le> unat (fst x)) \<and>
        (\<forall>q\<in>set ((h + 16) # L). q \<noteq> p \<and> lo \<le> unat q \<and> unat q < hi \<longrightarrow>
            unat q + unat (m' (q - 16)) \<le> unat p - 16 \<or> unat p + unat (m' (p - 16)) \<le> unat q - 16)"
    proof (cases "p = h + 16")
      case True
      have sz': "m' (p - 16) = asp" using True hdr by (simp add: asp_def)
      have c1: "lo + 16 \<le> unat p" using True up gb(1) by simp
      have c2: "unat p + unat (m' (p - 16)) \<le> hi" using True up sz' asp_le gb(2) by simp
      have c3: "unat (fst x) + 16 + unat (snd x) \<le> unat p - 16 \<or> unat p + unat (m' (p - 16)) \<le> unat (fst x)"
        if "x \<in> set (taken_list pre h hs rest sz)" for x
      proof -
        from newchunk [OF that] obtain y where y: "y \<in> set (pre @ (h, hs) # rest)"
          "unat (fst y) \<le> unat (fst x)"
          "unat (fst x) + 16 + unat (snd x) \<le> unat (fst y) + 16 + unat (snd y)"
          "y = (h, hs) \<longrightarrow> unat h + 16 + unat asp \<le> unat (fst x)" by blast
        from y(1) consider "y \<in> set pre" | "y = (h, hs)" | "y \<in> set rest" by auto
        then show ?thesis
        proof cases
          case 1
          with gb(3) [of "fst y" "snd y"] y True up show ?thesis by auto
        next
          case 2
          with y True up sz' show ?thesis by auto
        next
          case 3
          with gb(4) [of "fst y" "snd y"] y True up sz' asp_le show ?thesis by auto
        qed
      qed
      have c4: "unat q + unat (m' (q - 16)) \<le> unat p - 16 \<or> unat p + unat (m' (p - 16)) \<le> unat q - 16"
        if "q \<in> set ((h + 16) # L)" "q \<noteq> p" "lo \<le> unat q" "unat q < hi" for q
      proof -
        from that True have q: "q \<in> set L" by auto
        from oldh [OF q that(3,4)] same [OF q that(3,4)] old [OF q that(3,4)]
        show ?thesis using True up sz' asp_le by auto
      qed
      show ?thesis using c1 c2 c3 c4 by blast
    next
      case False
      with pin have p: "p \<in> set L" by auto
      note o = old [OF p inside [THEN conjunct1] inside [THEN conjunct2]]
      note oh = oldh [OF p inside [THEN conjunct1] inside [THEN conjunct2]]
      have sz': "m' (p - 16) = m (p - 16)"
        using same [OF p] inside by simp
      have c3: "unat (fst x) + 16 + unat (snd x) \<le> unat p - 16 \<or> unat p + unat (m' (p - 16)) \<le> unat (fst x)"
        if "x \<in> set (taken_list pre h hs rest sz)" for x
      proof -
        from newchunk [OF that] obtain y where y: "y \<in> set (pre @ (h, hs) # rest)"
          "unat (fst y) \<le> unat (fst x)"
          "unat (fst x) + 16 + unat (snd x) \<le> unat (fst y) + 16 + unat (snd y)" by blast
        from o y(1) have "unat (fst y) + 16 + unat (snd y) \<le> unat p - 16 \<or>
            unat p + unat (m (p - 16)) \<le> unat (fst y)" by blast
        with y sz' show ?thesis by auto
      qed
      have c4: "unat q + unat (m' (q - 16)) \<le> unat p - 16 \<or> unat p + unat (m' (p - 16)) \<le> unat q - 16"
        if "q \<in> set ((h + 16) # L)" "q \<noteq> p" "lo \<le> unat q" "unat q < hi" for q
      proof (cases "q = h + 16")
        case True
        have "m' (q - 16) = asp" using True hdr by (simp add: asp_def)
        with oh True up sz' asp_le show ?thesis by auto
      next
        case False
        with that have q: "q \<in> set L" by auto
        from o q that have "unat q + unat (m (q - 16)) \<le> unat p - 16 \<or>
            unat p + unat (m (p - 16)) \<le> unat q - 16" by blast
        with same [OF q that(3,4)] sz' show ?thesis by simp
      qed
      show ?thesis using o sz' c3 c4 by auto
    qed
  qed
qed

lemma take_chunk_at:
  assumes inv: "arena_inv s L a (pre @ (h, hs) # rest)"
    and small: "\<forall>x\<in>set pre. small sz x" and fit: "sz \<le> hs"
  shows "\<exists>s'. take_chunk a sz s = ret (h + 16, s') \<and>
           arena_inv s' ((h + 16) # L) a (taken_list pre h hs rest sz) \<and>
           same_but s s' (touched a (mem s a)) \<and>
           mem s' h = (if 16 < hs - sz then sz else hs) \<and> ucast (mem s' (h + 8)) = TALLOC_MAGIC"
proof -
  let ?fl = "pre @ (h, hs) # rest"
  let ?fl' = "taken_list pre h hs rest sz"
  let ?l = "mem s a"
  let ?lo = "unat a + 40"
  let ?hi = "unat a + unat ?l"
  let ?mx = "largest (map snd ?fl)"
  from inv have reg: "(a, ?l) \<in> set (mapped s)" "?hi < 2 ^ 64" "56 < unat ?l"
    and rep: "fl_rep (mem s) (mem s (a + 16)) ?fl"
    and gaps: "gaps_ok ?lo ?hi ?fl"
    and mx: "mem s (a + 8) = ?mx"
    and lv: "lives_ok (mem s) L ?lo ?hi ?fl"
    by (simp_all add: arena_inv_def)
  note gb = gaps_split_facts [OF gaps]
  note rd = fl_rep_decomp [OF rep]
  have b: "unat h + 16 + unat hs < 2 ^ 64" using gb(2) reg(2) by simp
  have ua: "unat (a + 8) = unat a + 8" "unat (a + 16) = unat a + 16"
    using reg by (simp_all add: unat_plus)
  have uh: "unat (h + 8) = unat h + 8" "unat (h + 16) = unat h + 16"
    using b by (simp_all add: unat_plus)
  define link where "link = (if pre = [] then a + 16 else fst (hd pre) + 8)"
  define m3 where "m3 = taken_mem (mem s) h hs sz link"
  have hdpre: "(fst (hd pre), snd (hd pre)) \<in> set pre" if "pre \<noteq> []"
    using that by simp
  have ulink: "unat link = (if pre = [] then unat a + 16 else unat (fst (hd pre)) + 8)"
  proof (cases "pre = []")
    case True
    then show ?thesis using ua by (simp add: link_def)
  next
    case False
    from gb(3) [OF hdpre [OF False]] b have "unat (fst (hd pre) + 8) = unat (fst (hd pre)) + 8"
      by (simp add: unat_plus)
    then show ?thesis using False by (simp add: link_def)
  qed
  have klink: "unat link + 8 \<le> unat h" "unat a + 16 \<le> unat link"
    using ulink gb(1) gb(3) [OF hdpre] by (auto split: if_splits)
  have fr: "m3 x = mem s x" if "unat x < unat h \<or> unat h + 16 + unat hs \<le> unat x" "x \<noteq> link" for x
    unfolding m3_def using b fit that by (rule taken_mem_frame)
  have nlh: "link \<noteq> h" "link \<noteq> h + 8"
    using klink uh by (auto simp: word_unat_eq_iff)
  have m3h: "m3 h = (if 16 < hs - sz then sz else hs)" "ucast (m3 (h + 8)) = TALLOC_MAGIC"
    unfolding m3_def using taken_mem_header [OF b nlh] by simp_all
  define hn where "hn = mem s (h + 8)"
  define nfc' where "nfc' = (if 16 < hs - sz then h + 16 + sz else hn)"
  have m3link: "m3 link = nfc'"
    by (simp add: m3_def taken_mem_link nfc'_def hn_def)
  \<comment> \<open>the chunks after the consumed one\<close>
  have rest_cells: "m3 (fst x) = mem s (fst x) \<and> m3 (fst x + 8) = mem s (fst x + 8)"
    if "x \<in> set rest" for x
  proof -
    from that have "(fst x, snd x) \<in> set rest" by simp
    from gb(4) [OF this] have c: "unat h + 16 + unat hs < unat (fst x)"
      "unat (fst x) + 16 + unat (snd x) \<le> ?hi" by simp_all
    with reg have u: "unat (fst x + 8) = unat (fst x) + 8" by (simp add: unat_plus)
    have "fst x \<noteq> link" "fst x + 8 \<noteq> link"
      using c u klink by (auto simp: word_unat_eq_iff)
    then show ?thesis using c u by (auto intro!: fr)
  qed
  have rep_rest: "fl_rep m3 hn rest"
  proof (rule fl_rep_cong [where m = "mem s"])
    show "fl_rep (mem s) hn rest"
      using rd(4,6) by (auto simp: fl_rep_def hn_def)
    show "\<forall>x\<in>set rest. m3 (fst x) = mem s (fst x) \<and> m3 (fst x + 8) = mem s (fst x + 8)"
      using rest_cells by blast
  qed
  define repl where "repl = (if 16 < hs - sz then [(h + 16 + sz, hs - sz - 16)] else [])"
  have rep_repl: "fl_rep m3 nfc' (repl @ rest)"
  proof (cases "16 < hs - sz")
    case True
    note sn = split_nat [OF b fit True]
    have nl: "link \<noteq> h + 16 + sz" "link \<noteq> h + 16 + sz + 8"
      using sn klink by (auto simp: word_unat_eq_iff)
    have "h + 16 + sz \<noteq> 0" using sn by (auto simp: word_unat_eq_iff)
    moreover have "m3 (h + 16 + sz) = hs - sz - 16" "m3 (h + 16 + sz + 8) = hn"
      unfolding m3_def hn_def using taken_mem_remainder [OF b fit True nl] by simp_all
    ultimately show ?thesis
      using True rep_rest by (simp add: repl_def nfc'_def fl_rep_Cons)
  next
    case False
    then show ?thesis using rep_rest by (simp add: repl_def nfc'_def)
  qed
  have "a \<noteq> link" "a + 8 \<noteq> link"
    using klink ua by (auto simp: word_unat_eq_iff)
  then have a_cells: "m3 a = mem s a" "m3 (a + 8) = mem s (a + 8)"
    using ua gb(1) by (auto intro!: fr)
  have rep': "fl_rep m3 (m3 (a + 16)) ?fl'"
  proof (cases "pre = []")
    case True
    then have "link = a + 16" by (simp add: link_def)
    then show ?thesis
      using True rep_repl m3link by (simp add: taken_list_def repl_def [symmetric])
  next
    case False
    let ?c0 = "fst (hd pre)"
    from gb(3) [OF hdpre [OF False]] have c0: "?lo \<le> unat ?c0"
      "unat ?c0 + 16 + unat (snd (hd pre)) < unat h" by simp_all
    have l: "link = ?c0 + 8" using False by (simp add: link_def)
    have u0: "unat (?c0 + 8) = unat ?c0 + 8" using c0 b by (simp add: unat_plus)
    have "a + 16 \<noteq> link" "?c0 \<noteq> link"
      using l u0 ua c0 by (auto simp: word_unat_eq_iff)
    then have "m3 (a + 16) = mem s (a + 16)" "m3 ?c0 = mem s ?c0"
      using c0 ua gb(1) by (auto intro!: fr)
    moreover have "mem s (a + 16) = ?c0" using rd(1) False by (cases pre) auto
    moreover have "mem s ?c0 = snd (hd pre) \<and> ?c0 \<noteq> 0"
      using rd(5) [OF hdpre [OF False]] .
    ultimately show ?thesis
      using False rep_repl m3link l
      by (cases "hd pre") (simp add: taken_list_def repl_def [symmetric] fl_rep_Cons)
  qed
  have gaps': "gaps_ok ?lo ?hi ?fl'"
    using gaps reg(2) fit by (rule taken_gaps)
  \<comment> \<open>the cached maximum\<close>
  define m4 where "m4 = (if ?mx \<le> hs then m3(a + 8 := largest (map snd ?fl')) else m3)"
  have va: "valid_access s x" if "unat a \<le> unat x" "unat x + 8 \<le> ?hi" for x
    using arena_inv_valid [OF inv that] .
  have chunk_cells: "valid_access (s\<lparr>mem := m3\<rparr>) (fst x) \<and> valid_access (s\<lparr>mem := m3\<rparr>) (fst x + 8) \<and>
      fst x \<noteq> a + 8 \<and> fst x + 8 \<noteq> a + 8" if "x \<in> set ?fl'" for x
  proof -
    from that have "(fst x, snd x) \<in> set ?fl'" by simp
    from gaps_ok_bounds [OF gaps' this] have c: "?lo \<le> unat (fst x)"
      "unat (fst x) + 16 + unat (snd x) \<le> ?hi" by simp_all
    with reg have u: "unat (fst x + 8) = unat (fst x) + 8" by (simp add: unat_plus)
    show ?thesis using c u ua by (auto intro!: va simp: word_unat_eq_iff)
  qed
  have rm: "recompute_max a (s\<lparr>mem := m3\<rparr>) =
      ret (s\<lparr>mem := m3\<rparr>\<lparr>mem := (mem (s\<lparr>mem := m3\<rparr>))(a + 8 := largest (map snd ?fl'))\<rparr>)"
  proof (rule recompute_max_spec)
    show "fl_rep (mem (s\<lparr>mem := m3\<rparr>)) (mem (s\<lparr>mem := m3\<rparr>) (a + 16)) ?fl'"
      using rep' by simp
    have "valid_access s (a + 8)" "valid_access s (a + 16)"
      using ua reg by (auto intro!: va)
    then show "valid_access (s\<lparr>mem := m3\<rparr>) (a + 8)" "valid_access (s\<lparr>mem := m3\<rparr>) (a + 16)"
      by simp_all
    show "\<forall>x\<in>set ?fl'. valid_access (s\<lparr>mem := m3\<rparr>) (fst x) \<and>
        valid_access (s\<lparr>mem := m3\<rparr>) (fst x + 8) \<and> fst x \<noteq> a + 8 \<and> fst x + 8 \<noteq> a + 8"
      using chunk_cells by blast
  qed
  have run: "take_chunk a sz s = ret (h + 16, s\<lparr>mem := m4\<rparr>)"
    unfolding take_chunk_run [OF inv small fit] m4_def
    using rm by (simp add: m3_def link_def)
  have max': "m4 (a + 8) = largest (map snd ?fl')"
  proof (cases "?mx \<le> hs")
    case True
    then show ?thesis by (simp add: m4_def)
  next
    case False
    then have "hs < ?mx" by simp
    from taken_largest_unaffected [OF small fit this b] show ?thesis
      using False a_cells mx by (simp add: m4_def)
  qed
  have m4_other: "m4 x = m3 x" if "x \<noteq> a + 8" for x
    using that by (simp add: m4_def)
  have ne8: "a \<noteq> a + 8" "a + 16 \<noteq> a + 8" "h \<noteq> a + 8" "h + 8 \<noteq> a + 8"
    using ua uh gb(1) by (auto simp: word_unat_eq_iff)
  have rep4: "fl_rep m4 (m4 (a + 16)) ?fl'"
  proof -
    have "fl_rep m4 (m3 (a + 16)) ?fl'"
    proof (rule fl_rep_cong [OF rep'])
      show "\<forall>x\<in>set ?fl'. m4 (fst x) = m3 (fst x) \<and> m4 (fst x + 8) = m3 (fst x + 8)"
      proof
        fix x assume "x \<in> set ?fl'"
        from chunk_cells [OF this] show "m4 (fst x) = m3 (fst x) \<and> m4 (fst x + 8) = m3 (fst x + 8)"
          by (simp add: m4_other)
      qed
    qed
    then show ?thesis using ne8 by (simp add: m4_other)
  qed
  have lives4: "lives_ok m4 ((h + 16) # L) ?lo ?hi ?fl'"
  proof (rule taken_lives [OF lv gaps reg(2) fit])
    show "m4 h = (if 16 < hs - sz then sz else hs)"
      using m3h ne8 by (simp add: m4_other)
    fix p assume p: "p \<in> set L" "?lo \<le> unat p" "unat p < ?hi"
    from lv p have o: "?lo + 16 \<le> unat p"
      "\<forall>x\<in>set ?fl. unat (fst x) + 16 + unat (snd x) \<le> unat p - 16 \<or>
          unat p + unat (mem s (p - 16)) \<le> unat (fst x)"
      unfolding lives_ok_def by blast+
    have up: "unat (p - 16) = unat p - 16" using o(1) by (simp add: unat_minus)
    from o(2) have oh: "unat h + 16 + unat hs \<le> unat p - 16 \<or> unat p + unat (mem s (p - 16)) \<le> unat h"
      by auto
    have nl: "p - 16 \<noteq> link"
    proof (cases "pre = []")
      case True
      then show ?thesis using ulink up o(1) by (auto simp: word_unat_eq_iff)
    next
      case False
      from o(2) hdpre [OF False] have "unat (fst (hd pre)) + 16 + unat (snd (hd pre)) \<le> unat p - 16 \<or>
          unat p + unat (mem s (p - 16)) \<le> unat (fst (hd pre))" by auto
      then show ?thesis using ulink False up o(1) by (auto simp: word_unat_eq_iff)
    qed
    have "p - 16 \<noteq> a + 8" using up ua o(1) by (auto simp: word_unat_eq_iff)
    then have "m4 (p - 16) = m3 (p - 16)" by (rule m4_other)
    also have "m3 (p - 16) = mem s (p - 16)"
      using oh up o(1) nl by (intro fr) auto
    finally show "m4 (p - 16) = mem s (p - 16)" .
  qed
  have inv': "arena_inv (s\<lparr>mem := m4\<rparr>) ((h + 16) # L) a ?fl'"
    unfolding arena_inv_def
    using reg rep4 gaps' max' lives4 a_cells ne8 by (simp add: m4_other)
  have frame: "same_but s (s\<lparr>mem := m4\<rparr>) (touched a ?l)"
    unfolding same_but_def
  proof (intro conjI allI impI)
    show "s\<lparr>mem := m4\<rparr> = s\<lparr>mem := mem (s\<lparr>mem := m4\<rparr>)\<rparr>" by simp
    fix x assume nt: "\<not> touched a ?l x"
    then have x: "x \<noteq> a + 8" "x \<noteq> a + 16" "\<not> (?lo \<le> unat x \<and> unat x < ?hi)"
      by (simp_all add: touched_def)
    have "x \<noteq> link"
    proof (cases "pre = []")
      case True
      then show ?thesis using x by (simp add: link_def)
    next
      case False
      from gb(3) [OF hdpre [OF False]] have "?lo \<le> unat (fst (hd pre))" by simp
      then show ?thesis using x(3) ulink False klink gb(2) by (auto simp: word_unat_eq_iff)
    qed
    moreover have "unat x < unat h \<or> unat h + 16 + unat hs \<le> unat x"
      using x(3) gb(1,2) by auto
    ultimately have "m3 x = mem s x" by (intro fr)
    then show "mem (s\<lparr>mem := m4\<rparr>) x = mem s x" using x(1) by (simp add: m4_other)
  qed
  show ?thesis
    using run inv' frame m3h ne8 by (intro exI [of _ "s\<lparr>mem := m4\<rparr>"]) (simp add: m4_other)
qed

section \<open>Insertion into the free list, on lists\<close>

lemma largest_Cons: "largest (x # xs) = max x (largest xs)"
proof (rule largestI)
  show "\<forall>v\<in>set (x # xs). v \<le> max x (largest xs)"
    by (auto simp: largest_ge max.coboundedI2)
  show "if x # xs = [] then max x (largest xs) = 0 else max x (largest xs) \<in> set (x # xs)"
  proof (cases "xs = []")
    case True
    then show ?thesis by (simp add: max_def)
  next
    case False
    from largest_in [OF this] show ?thesis by (auto simp: max_def)
  qed
qed

lemma largest_append: "largest (xs @ ys) = max (largest xs) (largest ys)"
  by (induction xs) (simp_all add: largest_Cons max.assoc)

lemma coal_hd: "\<exists>n' xs'. coal ((c, n) # xs) = (c, n') # xs' \<and> (n' = n \<or> (\<exists>c' k ys. xs = (c', k) # ys \<and> c' = c + n + 16 \<and> n' = n + (16 + k)))"
proof (cases xs)
  case Nil
  then show ?thesis by simp
next
  case (Cons y ys)
  then show ?thesis by (cases y) auto
qed

lemma gaps_ok_raise:
  assumes "gaps_ok lo hi xs" "\<And>x. x \<in> set xs \<Longrightarrow> X \<le> unat (fst x)"
  shows "gaps_ok X hi xs"
proof (cases xs)
  case Nil
  then show ?thesis by simp
next
  case (Cons y ys)
  obtain c n where y: "y = (c, n)" by (cases y)
  have "X \<le> unat c" using assms(2) [of y] Cons y by simp
  then show ?thesis using assms(1) Cons y by simp
qed

lemma merged_nat:
  fixes c n c' n' :: "64 word"
  assumes "unat c + 16 + unat n \<le> unat c'" "unat c' + 16 + unat n' \<le> hi" "hi < 2 ^ 64"
  shows "unat (c + n + 16) = unat c + 16 + unat n"
    "unat (c + n + 16) = unat c' \<Longrightarrow> unat (n + (16 + n')) = unat n + 16 + unat n'"
proof -
  show "unat (c + n + 16) = unat c + 16 + unat n"
    using assms by (simp add: unat_plus)
  show "unat (n + (16 + n')) = unat n + 16 + unat n'"
    using assms by (simp add: unat_plus)
qed

lemma coal_gaps:
  assumes g: "gaps_ok (unat c + 16 + unat n) hi xs" and X: "X \<le> unat c"
    and e: "unat c + 16 + unat n \<le> hi" and hi: "hi < 2 ^ 64"
  shows "gaps_ok X hi (coal ((c, n) # xs))"
proof (cases xs)
  case Nil
  then show ?thesis using X e by simp
next
  case (Cons y ys)
  obtain c' n' where y: "y = (c', n')" by (cases y)
  from g Cons y have b: "unat c + 16 + unat n \<le> unat c'" "unat c' + 16 + unat n' \<le> hi"
    "gaps_ok (unat c' + 16 + unat n' + 1) hi ys" by simp_all
  note mn = merged_nat [OF b(1,2) hi]
  show ?thesis
  proof (cases "c' = c + n + 16")
    case True
    then have "unat (c + n + 16) = unat c'" by simp
    from mn(2) [OF this] this mn(1) show ?thesis
      using Cons y True X b by simp
  next
    case False
    then have "unat c' \<noteq> unat c + 16 + unat n"
      using mn(1) by (auto simp: word_unat_eq_iff)
    then show ?thesis
      using Cons y False X e b by simp
  qed
qed

lemma coal_largest:
  assumes g: "gaps_ok (unat c + 16 + unat n) hi xs" and hi: "hi < 2 ^ 64"
  shows "largest (map snd (coal ((c, n) # xs))) =
     max (snd (hd (coal ((c, n) # xs)))) (largest (map snd xs))"
    "n \<le> snd (hd (coal ((c, n) # xs)))"
proof -
  have "largest (map snd (coal ((c, n) # xs))) =
     max (snd (hd (coal ((c, n) # xs)))) (largest (map snd xs)) \<and>
     n \<le> snd (hd (coal ((c, n) # xs)))"
  proof (cases xs)
    case Nil
    then show ?thesis by (simp add: largest_Cons)
  next
    case (Cons y ys)
    obtain c' n' where y: "y = (c', n')" by (cases y)
    from g Cons y have b: "unat c + 16 + unat n \<le> unat c'" "unat c' + 16 + unat n' \<le> hi"
      by simp_all
    note mn = merged_nat [OF b(1,2) hi]
    show ?thesis
    proof (cases "c' = c + n + 16")
      case True
      then have "unat (c + n + 16) = unat c'" by simp
      from mn(2) [OF this] have le: "n' \<le> n + (16 + n')" "n \<le> n + (16 + n')"
        by (simp_all add: word_le_nat_alt)
      have "max (n + (16 + n')) (max n' (largest (map snd ys))) =
          max (n + (16 + n')) (largest (map snd ys))"
        using le(1) by (simp add: max.assoc [symmetric] max_absorb1)
      then show ?thesis
        using Cons y True le(2) by (simp add: largest_Cons)
    next
      case False
      then show ?thesis
        using Cons y by (simp add: largest_Cons)
    qed
  qed
  then show "largest (map snd (coal ((c, n) # xs))) =
     max (snd (hd (coal ((c, n) # xs)))) (largest (map snd xs))"
    "n \<le> snd (hd (coal ((c, n) # xs)))" by simp_all
qed

lemma coal_sep:
  assumes g: "gaps_ok (unat c + 16 + unat n) hi xs" and hi: "hi < 2 ^ 64"
    and q: "qlo < qhi" and s: "sep_from qlo qhi ((c, n) # xs)"
  shows "sep_from qlo qhi (coal ((c, n) # xs))"
proof (cases xs)
  case Nil
  then show ?thesis using s by simp
next
  case (Cons y ys)
  obtain c' n' where y: "y = (c', n')" by (cases y)
  from g Cons y have b: "unat c + 16 + unat n \<le> unat c'" "unat c' + 16 + unat n' \<le> hi"
    by simp_all
  note mn = merged_nat [OF b(1,2) hi]
  show ?thesis
  proof (cases "c' = c + n + 16")
    case True
    then have eq: "unat (c + n + 16) = unat c'" by simp
    have e1: "unat c' = unat c + 16 + unat n" using mn(1) eq by simp
    have e2: "unat (n + (16 + n')) = unat n + 16 + unat n'" by (rule mn(2) [OF eq])
    from s Cons y have s1: "unat c + 16 + unat n \<le> qlo \<or> qhi \<le> unat c"
      and s2: "unat c' + 16 + unat n' \<le> qlo \<or> qhi \<le> unat c'"
      and s3: "sep_from qlo qhi ys"
      by (simp_all add: sep_from_def)
    have co: "coal ((c, n) # xs) = (c, n + (16 + n')) # ys"
      using Cons y True by simp
    have "unat c + 16 + unat (n + (16 + n')) \<le> qlo \<or> qhi \<le> unat c"
      using e1 e2 s1 s2 q by arith
    then show ?thesis
      using s3 unfolding co by (simp add: sep_from_def)
  next
    case False
    then show ?thesis using Cons y s by simp
  qed
qed

lemma sep_from_append: "sep_from qlo qhi (xs @ ys) = (sep_from qlo qhi xs \<and> sep_from qlo qhi ys)"
  by (auto simp: sep_from_def)

lemma sep_from_Cons:
  "sep_from qlo qhi (x # xs) =
     ((unat (fst x) + 16 + unat (snd x) \<le> qlo \<or> qhi \<le> unat (fst x)) \<and> sep_from qlo qhi xs)"
  by (auto simp: sep_from_def)

text \<open>Insertion after a chunk \<open>ia\<close>: the list is \<open>pre0 @ (ia, ni) # post\<close> and the block of
  \<open>(c, n)\<close> lies between \<open>ia\<close> and \<open>post\<close>.\<close>

lemma ins_mid:
  assumes g: "gaps_ok lo hi (pre0 @ (ia, ni) # post)" and hi: "hi < 2 ^ 64"
    and l: "unat ia + 16 + unat ni \<le> unat c" and e: "unat c + 16 + unat n \<le> hi"
    and r: "\<And>y. y \<in> set post \<Longrightarrow> unat c + 16 + unat n \<le> unat (fst y)"
  defines "L1 \<equiv> coal ((c, n) # post)"
  defines "L2 \<equiv> coal ((ia, ni) # L1)"
  shows "gaps_ok lo hi (pre0 @ L2)"
    "largest (map snd (pre0 @ L2)) =
       max (snd (hd L2)) (max (snd (hd L1)) (largest (map snd (pre0 @ (ia, ni) # post))))"
    "\<And>qlo qhi. qlo < qhi \<Longrightarrow> sep_from qlo qhi (pre0 @ (ia, ni) # post) \<Longrightarrow>
       unat c + 16 + unat n \<le> qlo \<or> qhi \<le> unat c \<Longrightarrow> sep_from qlo qhi (pre0 @ L2)"
proof -
  from g have g0: "gaps_ok lo (unat ia - 1) pre0" "pre0 = [] \<or> 0 < unat ia" "lo \<le> unat ia"
    "unat ia + 16 + unat ni \<le> hi" "gaps_ok (unat ia + 16 + unat ni + 1) hi post"
    by (simp_all add: gaps_ok_append)
  have gp: "gaps_ok (unat c + 16 + unat n) hi post"
    using g0(5) r by (rule gaps_ok_raise)
  have g1: "gaps_ok X hi L1" if "X \<le> unat c" for X
    unfolding L1_def using gp that e hi by (rule coal_gaps)
  have g1': "gaps_ok (unat ia + 16 + unat ni) hi L1"
    using l by (rule g1)
  have g2: "gaps_ok (unat ia) hi L2"
    unfolding L2_def using g1' _ g0(4) hi by (rule coal_gaps) simp
  from coal_hd [of ia ni L1] obtain n2 ys where L2: "L2 = (ia, n2) # ys"
    unfolding L2_def by blast
  show "gaps_ok lo hi (pre0 @ L2)"
    using g2 g0 unfolding L2 by (simp add: gaps_ok_append)
  have t1: "largest (map snd L1) = max (snd (hd L1)) (largest (map snd post))"
    unfolding L1_def using gp hi by (rule coal_largest(1))
  have t2: "largest (map snd L2) = max (snd (hd L2)) (largest (map snd L1))"
    and t3: "ni \<le> snd (hd L2)"
    unfolding L2_def using coal_largest [OF g1' hi] by simp_all
  define T1 T2 P Q where "T1 = snd (hd L1)" and "T2 = snd (hd L2)"
    and "P = largest (map snd pre0)" and "Q = largest (map snd post)"
  have ab: "max T2 ni = T2"
    using t3 by (simp add: max_absorb1 T2_def)
  have "largest (map snd (pre0 @ L2)) = max P (max T2 (max T1 Q))"
    by (simp add: largest_append t1 t2 T1_def T2_def P_def Q_def)
  also have "\<dots> = max P (max (max T2 ni) (max T1 Q))"
    by (simp only: ab)
  also have "\<dots> = max T2 (max T1 (max P (max ni Q)))"
    by (simp only: max.assoc max.commute max.left_commute)
  also have "\<dots> = max (snd (hd L2)) (max (snd (hd L1)) (largest (map snd (pre0 @ (ia, ni) # post))))"
    by (simp add: largest_append largest_Cons T1_def T2_def P_def Q_def)
  finally show "largest (map snd (pre0 @ L2)) =
       max (snd (hd L2)) (max (snd (hd L1)) (largest (map snd (pre0 @ (ia, ni) # post))))" .
  show "sep_from qlo qhi (pre0 @ L2)"
    if q: "qlo < qhi" and s: "sep_from qlo qhi (pre0 @ (ia, ni) # post)"
      and sc: "unat c + 16 + unat n \<le> qlo \<or> qhi \<le> unat c" for qlo qhi
  proof -
    from s have s0: "sep_from qlo qhi pre0" "sep_from qlo qhi post"
      "unat ia + 16 + unat ni \<le> qlo \<or> qhi \<le> unat ia"
      by (simp_all add: sep_from_append sep_from_Cons)
    have "sep_from qlo qhi ((c, n) # post)"
      using s0(2) sc by (simp add: sep_from_Cons)
    then have s1: "sep_from qlo qhi L1"
      unfolding L1_def using gp hi q by (intro coal_sep)
    have "sep_from qlo qhi ((ia, ni) # L1)"
      using s1 s0(3) by (simp add: sep_from_Cons)
    then have "sep_from qlo qhi L2"
      unfolding L2_def using g1' hi q by (intro coal_sep)
    then show ?thesis using s0(1) by (simp add: sep_from_append)
  qed
qed

text \<open>Insertion before the first chunk.\<close>

lemma ins_front:
  assumes g: "gaps_ok lo hi fl" and hi: "hi < 2 ^ 64"
    and l: "lo \<le> unat c" and e: "unat c + 16 + unat n \<le> hi"
    and r: "\<And>y. y \<in> set fl \<Longrightarrow> unat c + 16 + unat n \<le> unat (fst y)"
  defines "L1 \<equiv> coal ((c, n) # fl)"
  shows "gaps_ok lo hi L1"
    "largest (map snd L1) = max (snd (hd L1)) (largest (map snd fl))"
    "\<And>qlo qhi. qlo < qhi \<Longrightarrow> sep_from qlo qhi fl \<Longrightarrow>
       unat c + 16 + unat n \<le> qlo \<or> qhi \<le> unat c \<Longrightarrow> sep_from qlo qhi L1"
proof -
  have gp: "gaps_ok (unat c + 16 + unat n) hi fl"
    using g r by (rule gaps_ok_raise)
  show "gaps_ok lo hi L1"
    unfolding L1_def using gp l e hi by (rule coal_gaps)
  show "largest (map snd L1) = max (snd (hd L1)) (largest (map snd fl))"
    unfolding L1_def using gp hi by (rule coal_largest(1))
  show "sep_from qlo qhi L1"
    if q: "qlo < qhi" and s: "sep_from qlo qhi fl"
      and sc: "unat c + 16 + unat n \<le> qlo \<or> qhi \<le> unat c" for qlo qhi
  proof -
    have "sep_from qlo qhi ((c, n) # fl)"
      using s sc by (simp add: sep_from_Cons)
    then show ?thesis
      unfolding L1_def using gp hi q by (intro coal_sep)
  qed
qed

text \<open>Where the block goes.\<close>

lemma insert_position:
  assumes g: "gaps_ok lo hi fl"
    and sep: "sep_from (unat c) (unat c + 16 + unat n) fl"
  defines "pre \<equiv> takeWhile (\<lambda>x. fst x < c) fl"
  defines "post \<equiv> dropWhile (\<lambda>x. fst x < c) fl"
  shows "fl = pre @ post"
    "\<And>x. x \<in> set pre \<Longrightarrow> fst x < c \<and> unat (fst x) + 16 + unat (snd x) \<le> unat c"
    "\<And>y. y \<in> set post \<Longrightarrow> unat c + 16 + unat n \<le> unat (fst y)"
proof -
  show fl: "fl = pre @ post" by (simp add: pre_def post_def)
  show "fst x < c \<and> unat (fst x) + 16 + unat (snd x) \<le> unat c" if "x \<in> set pre" for x
  proof -
    from that have lt: "fst x < c" unfolding pre_def by (rule set_takeWhileD [THEN conjunct2])
    from that have "x \<in> set fl" unfolding pre_def by (rule set_takeWhileD [THEN conjunct1])
    with sep have "unat (fst x) + 16 + unat (snd x) \<le> unat c \<or> unat c + 16 + unat n \<le> unat (fst x)"
      by (simp add: sep_from_def)
    with lt show ?thesis by (auto simp: word_less_nat_alt)
  qed
  show "unat c + 16 + unat n \<le> unat (fst y)" if "y \<in> set post" for y
  proof (cases post)
    case Nil
    with that show ?thesis by simp
  next
    case (Cons y0 ys)
    have "\<not> fst y0 < c"
      using Cons hd_dropWhile [of "\<lambda>x. fst x < c" fl] unfolding post_def by auto
    then have c0: "unat c \<le> unat (fst y0)" by (simp add: word_less_nat_alt)
    have "gaps_ok lo hi (pre @ (fst y0, snd y0) # ys)"
      using g fl Cons by simp
    then have gy: "gaps_ok (unat (fst y0) + 16 + unat (snd y0) + 1) hi ys"
      unfolding gaps_ok_append by blast
    have "unat c \<le> unat (fst y)"
    proof (cases "y = y0")
      case True
      with c0 show ?thesis by simp
    next
      case False
      with that Cons have "(fst y, snd y) \<in> set ys" by simp
      from gaps_ok_bounds [OF gy this] c0 show ?thesis by simp
    qed
    moreover have "y \<in> set fl" using that fl by simp
    with sep have "unat (fst y) + 16 + unat (snd y) \<le> unat c \<or> unat c + 16 + unat n \<le> unat (fst y)"
      by (simp add: sep_from_def)
    ultimately show ?thesis by auto
  qed
qed

section \<open>Insertion into the free list, in the store\<close>

lemma gaps_ok_lower:
  "gaps_ok lo hi xs \<Longrightarrow> x \<in> set xs \<Longrightarrow> lo \<le> unat (fst x) \<and> unat (fst x) + 16 + unat (snd x) \<le> hi"
  using gaps_ok_bounds [of lo hi xs "fst x" "snd x"] by simp

lemma coalesce_spec:
  assumes rep: "fl_rep (mem s) c ((c, n) # xs)"
    and g: "gaps_ok (unat c + 16 + unat n) hi xs" and hi: "hi < 2 ^ 64"
    and e: "unat c + 16 + unat n \<le> hi"
    and va: "\<And>x. unat c \<le> unat x \<Longrightarrow> unat x + 8 \<le> hi \<Longrightarrow> valid_access s x"
  shows "\<exists>m'. TAlloc_coalesce c s = ret (s\<lparr>mem := m'\<rparr>) \<and> fl_rep m' c (coal ((c, n) # xs)) \<and>
           (\<forall>x. x \<noteq> c \<and> x \<noteq> c + 8 \<longrightarrow> m' x = mem s x)"
proof -
  from rep have c: "c \<noteq> 0" "mem s c = n" and rx: "fl_rep (mem s) (mem s (c + 8)) xs"
    by (simp_all add: fl_rep_Cons)
  have uc: "unat (c + 8) = unat c + 8" using e hi by (simp add: unat_plus)
  have vc: "valid_access s c" "valid_access s (c + 8)"
    using uc e by (auto intro!: va)
  have ue: "unat (c + n + 16) = unat c + 16 + unat n"
    using e hi by (simp add: unat_plus)
  show ?thesis
  proof (cases xs)
    case Nil
    with rx have "mem s (c + 8) = 0" by (simp add: fl_rep_Nil)
    moreover have "c + n + 16 \<noteq> 0" using ue by (auto simp: word_unat_eq_iff)
    ultimately have "TAlloc_coalesce c s = ret s"
      using vc c by (intro coalesce_noop) (auto simp: add.commute add.left_commute)
    then show ?thesis
      using Nil rep by (intro exI [of _ "mem s"]) simp
  next
    case (Cons y ys)
    obtain c' n' where y: "y = (c', n')" by (cases y)
    from rx Cons y have c': "mem s (c + 8) = c'" "c' \<noteq> 0" "mem s c' = n'"
      and ry: "fl_rep (mem s) (mem s (c' + 8)) ys"
      by (simp_all add: fl_rep_Cons)
    from g Cons y have b: "unat c + 16 + unat n \<le> unat c'" "unat c' + 16 + unat n' \<le> hi"
      and gy: "gaps_ok (unat c' + 16 + unat n' + 1) hi ys" by simp_all
    have uc': "unat (c' + 8) = unat c' + 8" using b hi by (simp add: unat_plus)
    have vc': "valid_access s c'" "valid_access s (c' + 8)"
      using uc' b by (auto intro!: va)
    show ?thesis
    proof (cases "c' = c + n + 16")
      case False
      then have "TAlloc_coalesce c s = ret s"
        using vc c c' by (intro coalesce_noop) (auto simp: add.commute add.left_commute)
      then show ?thesis
        using Cons y False rep by (intro exI [of _ "mem s"]) simp
    next
      case True
      let ?m = "(mem s)(c := n + (16 + n'), c + 8 := mem s (c' + 8))"
      have ne: "c + 8 \<noteq> c" "c' \<noteq> c" "c' + 8 \<noteq> c" "c' \<noteq> c + 8" "c' + 8 \<noteq> c + 8"
        using uc uc' b by (auto simp: word_unat_eq_iff)
      have run: "TAlloc_coalesce c s = ret (s\<lparr>mem := ?m\<rparr>)"
        using vc vc' c c' True ne
        by (simp add: TAlloc_coalesce_def load_valid store_valid field_defs const_defs
            add.commute add.left_commute)
      have "fl_rep ?m (mem s (c' + 8)) ys"
      proof (rule fl_rep_cong [OF ry])
        show "\<forall>x\<in>set ys. ?m (fst x) = mem s (fst x) \<and> ?m (fst x + 8) = mem s (fst x + 8)"
        proof
          fix x assume "x \<in> set ys"
          from gaps_ok_lower [OF gy this] have bx: "unat c' + 16 + unat n' + 1 \<le> unat (fst x)"
            "unat (fst x) + 16 + unat (snd x) \<le> hi" by simp_all
          then have "unat (fst x + 8) = unat (fst x) + 8" using hi by (simp add: unat_plus)
          with bx b uc have "fst x \<noteq> c" "fst x \<noteq> c + 8" "fst x + 8 \<noteq> c" "fst x + 8 \<noteq> c + 8"
            by (auto simp: word_unat_eq_iff)
          then show "?m (fst x) = mem s (fst x) \<and> ?m (fst x + 8) = mem s (fst x + 8)" by simp
        qed
      qed
      then have "fl_rep ?m c (coal ((c, n) # xs))"
        using Cons y True c ne by (simp add: fl_rep_Cons)
      then show ?thesis
        using run by (intro exI [of _ ?m]) simp
    qed
  qed
qed

lemma free_insert_empty:
  assumes inv: "arena_inv s L a []"
    and cb: "unat a + 40 \<le> unat c" "unat c + 16 + unat n \<le> unat a + unat (mem s a)"
    and cn: "mem s c = n"
  shows "\<exists>m'. free_insert a c s = ret (s\<lparr>mem := m'\<rparr>) \<and> ins_post s a [] c [(c, n)] m'"
proof -
  let ?hi = "unat a + unat (mem s a)"
  from inv have reg: "(a, mem s a) \<in> set (mapped s)" "?hi < 2 ^ 64"
    and rep: "fl_rep (mem s) (mem s (a + 16)) []"
    by (simp_all add: arena_inv_def)
  have va: "valid_access s x" if "unat a \<le> unat x" "unat x + 8 \<le> ?hi" for x
    using arena_inv_valid [OF inv that] .
  have ua: "unat (a + 8) = unat a + 8" "unat (a + 16) = unat a + 16"
    using reg cb by (simp_all add: unat_plus)
  have uc: "unat (c + 8) = unat c + 8" using reg cb by (simp add: unat_plus)
  have v: "valid_access s (a + 8)" "valid_access s (a + 16)" "valid_access s c"
    "valid_access s (c + 8)"
    using ua uc cb by (auto intro!: va)
  have ne: "c \<noteq> a + 16" "c \<noteq> a + 8" "c + 8 \<noteq> a + 16" "c + 8 \<noteq> a + 8" "c + 8 \<noteq> c"
    "a + 16 \<noteq> a + 8" "c \<noteq> 0"
    using ua uc cb by (auto simp: word_unat_eq_iff)
  let ?m = "(mem s)(a + 16 := c, c + 8 := 0, a + 8 := n)"
  have fl0: "mem s (a + 16) = 0" using rep by (simp add: fl_rep_Nil)
  have run: "free_insert a c s = ret (s\<lparr>mem := ?m\<rparr>)"
    using fl0 v ne cn
    by (simp add: free_insert_def load_valid store_valid field_defs)
  have "ins_post s a [] c [(c, n)] ?m"
    using ne cn uc by (auto simp: ins_post_def fl_rep_Cons fl_rep_Nil largest_Cons max_def
        word_unat_eq_iff)
  then show ?thesis using run by blast
qed

lemma fl_rep_hd_val: "fl_rep m c xs \<Longrightarrow> xs \<noteq> [] \<Longrightarrow> fst (hd xs) = c \<and> m c = snd (hd xs)"
  by (cases xs) (auto simp: fl_rep_def)

lemma coal_ne: "coal ((c, n) # xs) \<noteq> []"
  using coal_hd [of c n xs] by auto

lemma free_insert_front:
  assumes inv: "arena_inv s L a fl" and ne: "fl \<noteq> []" and lt: "c < fst (hd fl)"
    and cb: "unat a + 40 \<le> unat c" "unat c + 16 + unat n \<le> unat a + unat (mem s a)"
    and cn: "mem s c = n"
    and r: "\<And>y. y \<in> set fl \<Longrightarrow> unat c + 16 + unat n \<le> unat (fst y)"
  shows "\<exists>m'. free_insert a c s = ret (s\<lparr>mem := m'\<rparr>) \<and> ins_post s a fl c (coal ((c, n) # fl)) m'"
proof -
  let ?lo = "unat a + 40"
  let ?hi = "unat a + unat (mem s a)"
  let ?L1 = "coal ((c, n) # fl)"
  from inv have reg: "(a, mem s a) \<in> set (mapped s)" "?hi < 2 ^ 64"
    and rep: "fl_rep (mem s) (mem s (a + 16)) fl"
    and gaps: "gaps_ok ?lo ?hi fl"
    and mx: "mem s (a + 8) = largest (map snd fl)"
    by (simp_all add: arena_inv_def)
  have va: "valid_access s x" if "unat a \<le> unat x" "unat x + 8 \<le> ?hi" for x
    using arena_inv_valid [OF inv that] .
  have ua: "unat (a + 8) = unat a + 8" "unat (a + 16) = unat a + 16"
    using reg cb by (simp_all add: unat_plus)
  have uc: "unat (c + 8) = unat c + 8" using reg cb by (simp add: unat_plus)
  have v: "valid_access s (a + 8)" "valid_access s (a + 16)" "valid_access s c"
    "valid_access s (c + 8)"
    using ua uc cb by (auto intro!: va)
  have nec: "c \<noteq> a + 16" "c \<noteq> a + 8" "c + 8 \<noteq> a + 16" "c + 8 \<noteq> a + 8" "c + 8 \<noteq> c"
    "a + 16 \<noteq> a + 8" "c \<noteq> 0"
    using ua uc cb by (auto simp: word_unat_eq_iff)
  obtain c1 n1 fl0 where fl: "fl = (c1, n1) # fl0" using ne by (cases fl) auto
  from rep fl have p0: "mem s (a + 16) = c1" "c1 \<noteq> 0" by (simp_all add: fl_rep_Cons)
  have lt1: "c < c1" using lt fl by simp
  \<comment> \<open>the chunk is linked in front\<close>
  let ?m1 = "(mem s)(c + 8 := c1, a + 16 := c)"
  let ?s1 = "s\<lparr>mem := ?m1\<rparr>"
  have cells: "fst x \<noteq> c + 8 \<and> fst x + 8 \<noteq> c + 8 \<and> fst x \<noteq> a + 16 \<and> fst x + 8 \<noteq> a + 16 \<and>
      fst x \<noteq> a + 8 \<and> fst x + 8 \<noteq> a + 8 \<and> fst x \<noteq> c \<and> fst x + 8 \<noteq> c" if "x \<in> set fl" for x
  proof -
    from gaps_ok_lower [OF gaps that] r [OF that] have b: "?lo \<le> unat (fst x)"
      "unat (fst x) + 16 + unat (snd x) \<le> ?hi" "unat c + 16 + unat n \<le> unat (fst x)" by simp_all
    then have "unat (fst x + 8) = unat (fst x) + 8" using reg by (simp add: unat_plus)
    with b ua uc show ?thesis by (auto simp: word_unat_eq_iff)
  qed
  have rep1: "fl_rep ?m1 c ((c, n) # fl)"
  proof -
    have "fl_rep ?m1 c1 fl"
    proof (rule fl_rep_cong)
      show "fl_rep (mem s) c1 fl" using rep p0 by simp
      show "\<forall>x\<in>set fl. ?m1 (fst x) = mem s (fst x) \<and> ?m1 (fst x + 8) = mem s (fst x + 8)"
        using cells by simp
    qed
    then show ?thesis using nec cn by (simp add: fl_rep_Cons)
  qed
  have gp: "gaps_ok (unat c + 16 + unat n) ?hi fl"
    using gaps r by (rule gaps_ok_raise)
  have "\<exists>m'. TAlloc_coalesce c ?s1 = ret (?s1\<lparr>mem := m'\<rparr>) \<and> fl_rep m' c ?L1 \<and>
           (\<forall>x. x \<noteq> c \<and> x \<noteq> c + 8 \<longrightarrow> m' x = mem ?s1 x)"
  proof (rule coalesce_spec [where hi = ?hi])
    show "fl_rep (mem ?s1) c ((c, n) # fl)" using rep1 by simp
    show "gaps_ok (unat c + 16 + unat n) ?hi fl" by (rule gp)
    show "?hi < 2 ^ 64" by (rule reg)
    show "unat c + 16 + unat n \<le> ?hi" by (rule cb)
    show "valid_access ?s1 x" if "unat c \<le> unat x" "unat x + 8 \<le> ?hi" for x
      using va [of x] that cb by simp
  qed
  then obtain m2 where co: "TAlloc_coalesce c ?s1 = ret (s\<lparr>mem := m2\<rparr>)"
    and rep2: "fl_rep m2 c ?L1" and fr2: "\<And>x. x \<noteq> c \<Longrightarrow> x \<noteq> c + 8 \<Longrightarrow> m2 x = ?m1 x"
    by auto
  have top: "m2 c = snd (hd ?L1)"
    using fl_rep_hd_val [OF rep2 coal_ne] by simp
  have m2a: "m2 (a + 8) = mem s (a + 8)" "m2 (a + 16) = c"
    using fr2 [of "a + 8"] fr2 [of "a + 16"] nec by simp_all
  let ?m3 = "m2(a + 8 := max (m2 c) (m2 (a + 8)))"
  have adj: "TAlloc_adjust_space_for_new_chunk a c (s\<lparr>mem := m2\<rparr>) = ret (s\<lparr>mem := ?m3\<rparr>)"
    using adjust_spec [of "s\<lparr>mem := m2\<rparr>" c a] v by simp
  have run: "free_insert a c s = ret (s\<lparr>mem := ?m3\<rparr>)"
    using p0 v lt1 co adj
    by (simp add: free_insert_def load_valid store_valid field_defs)
  note pure = ins_front [OF gaps reg(2) cb(1) cb(2) r]
  have cells1: "fst x \<noteq> a + 8 \<and> fst x + 8 \<noteq> a + 8" if "x \<in> set ?L1" for x
  proof -
    from gaps_ok_lower [OF pure(1) that] have b: "?lo \<le> unat (fst x)"
      "unat (fst x) + 16 + unat (snd x) \<le> ?hi" by simp_all
    then have "unat (fst x + 8) = unat (fst x) + 8" using reg by (simp add: unat_plus)
    with b ua show ?thesis by (auto simp: word_unat_eq_iff)
  qed
  have rep3: "fl_rep ?m3 (?m3 (a + 16)) ?L1"
  proof -
    have "fl_rep ?m3 c ?L1"
    proof (rule fl_rep_cong [OF rep2])
      show "\<forall>x\<in>set ?L1. ?m3 (fst x) = m2 (fst x) \<and> ?m3 (fst x + 8) = m2 (fst x + 8)"
        using cells1 by simp
    qed
    then show ?thesis using m2a nec by simp
  qed
  have max3: "?m3 (a + 8) = largest (map snd ?L1)"
    using pure(2) top m2a mx by simp
  have frame: "?m3 x = mem s x"
    if "x \<noteq> a + 8" "x \<noteq> a + 16" "\<not> (unat c \<le> unat x \<and> unat x < unat c + 16)" for x
  proof -
    have "x \<noteq> c" "x \<noteq> c + 8" using that(3) uc by (auto simp: word_unat_eq_iff)
    then have "m2 x = ?m1 x" by (rule fr2)
    then show ?thesis using that \<open>x \<noteq> c + 8\<close> by simp
  qed
  have "ins_post s a fl c ?L1 ?m3"
    unfolding ins_post_def using rep3 max3 frame by blast
  then show ?thesis using run by blast
qed

lemma fl_rep_append:
  "fl_rep m p (xs @ ys) =
     (\<exists>r. seg m 8 p (map fst xs) r \<and> (\<forall>x\<in>set xs. m (fst x) = snd x) \<and> fl_rep m r ys)"
  by (auto simp: fl_rep_def path_append)

lemma free_insert_mid:
  assumes inv: "arena_inv s L a (pre0 @ (ia, ni) # post)"
    and cb: "unat a + 40 \<le> unat c" "unat c + 16 + unat n \<le> unat a + unat (mem s a)"
    and cn: "mem s c = n"
    and l: "\<And>x. x \<in> set (pre0 @ [(ia, ni)]) \<Longrightarrow>
              fst x < c \<and> unat (fst x) + 16 + unat (snd x) \<le> unat c"
    and r: "\<And>y. y \<in> set post \<Longrightarrow> unat c + 16 + unat n \<le> unat (fst y)"
  shows "\<exists>m'. free_insert a c s = ret (s\<lparr>mem := m'\<rparr>) \<and>
           ins_post s a (pre0 @ (ia, ni) # post) c
             (pre0 @ coal ((ia, ni) # coal ((c, n) # post))) m'"
proof -
  let ?fl = "pre0 @ (ia, ni) # post"
  let ?lo = "unat a + 40"
  let ?hi = "unat a + unat (mem s a)"
  let ?L1 = "coal ((c, n) # post)"
  let ?L2 = "coal ((ia, ni) # ?L1)"
  from inv have reg: "(a, mem s a) \<in> set (mapped s)" "?hi < 2 ^ 64"
    and rep: "fl_rep (mem s) (mem s (a + 16)) ?fl"
    and gaps: "gaps_ok ?lo ?hi ?fl"
    and mx: "mem s (a + 8) = largest (map snd ?fl)"
    by (simp_all add: arena_inv_def)
  have va: "valid_access s x" if "unat a \<le> unat x" "unat x + 8 \<le> ?hi" for x
    using arena_inv_valid [OF inv that] .
  have ua: "unat (a + 8) = unat a + 8" "unat (a + 16) = unat a + 16"
    using reg cb by (simp_all add: unat_plus)
  have uc: "unat (c + 8) = unat c + 8" using reg cb by (simp add: unat_plus)
  note gb = gaps_split_facts [OF gaps]
  have lia: "ia < c" "unat ia + 16 + unat ni \<le> unat c"
    using l [of "(ia, ni)"] by simp_all
  have ui: "unat (ia + 8) = unat ia + 8" using lia reg cb by (simp add: unat_plus)
  have v: "valid_access s (a + 8)" "valid_access s (a + 16)" "valid_access s c"
    "valid_access s (c + 8)" "valid_access s ia" "valid_access s (ia + 8)"
    using ua uc ui cb gb(1,2) by (auto intro!: va)
  have nec: "c \<noteq> a + 16" "c \<noteq> a + 8" "c + 8 \<noteq> a + 16" "c + 8 \<noteq> a + 8" "c + 8 \<noteq> c"
    "a + 16 \<noteq> a + 8" "c \<noteq> 0"
    "ia \<noteq> a + 8" "ia + 8 \<noteq> a + 8" "ia \<noteq> a + 16" "ia + 8 \<noteq> a + 16"
    "ia \<noteq> c" "ia \<noteq> c + 8" "ia + 8 \<noteq> c" "ia + 8 \<noteq> c + 8" "ia + 8 \<noteq> ia" "ia \<noteq> 0"
    using ua uc ui cb gb(1) lia by (auto simp: word_unat_eq_iff)
  \<comment> \<open>the decomposition of the list in the store\<close>
  from rep obtain q where sg: "seg (mem s) 8 (mem s (a + 16)) (map fst pre0) q"
    and vpre: "\<forall>x\<in>set pre0. mem s (fst x) = snd x"
    and rq: "fl_rep (mem s) q ((ia, ni) # post)"
    unfolding fl_rep_append by blast
  from rq have q: "q = ia" "mem s ia = ni" and rpost: "fl_rep (mem s) (mem s (ia + 8)) post"
    by (simp_all add: fl_rep_Cons)
  define nx where "nx = mem s (ia + 8)"
  \<comment> \<open>the scan\<close>
  have fl_ne: "mem s (a + 16) \<noteq> 0" and nlt: "\<not> c < mem s (a + 16)"
  proof -
    have "fst (hd ?fl) = mem s (a + 16) \<and> mem s (a + 16) \<noteq> 0"
      using rep by (cases pre0) (auto simp: fl_rep_Cons)
    moreover have "hd ?fl \<in> set (pre0 @ [(ia, ni)])" by (cases pre0) auto
    from l [OF this] have "fst (hd ?fl) < c" by simp
    ultimately show "mem s (a + 16) \<noteq> 0" "\<not> c < mem s (a + 16)" by auto
  qed
  have scan: "insert_after_from (mem s (a + 16)) c s = ret ia"
  proof -
    let ?cs = "map fst ?fl"
    have pa: "path (mem s) 8 (mem s (a + 16)) ?cs" using rep by (simp add: fl_rep_def)
    obtain c1 cs1 where cs: "?cs = c1 # cs1" by (cases pre0) auto
    with pa have c1: "mem s (a + 16) = c1" and p1: "path (mem s) 8 (mem s (c1 + 8)) cs1"
      by auto
    have vcs: "\<forall>x\<in>set ?cs. valid_access s (x + 8)"
    proof
      fix x assume "x \<in> set ?cs"
      then have "x \<in> fst ` set ?fl" by (simp only: set_map)
      then obtain y where y: "x = fst y" "y \<in> set ?fl" by (rule imageE)
      from gaps_ok_lower [OF gaps y(2)] have b: "?lo \<le> unat (fst y)"
        "unat (fst y) + 16 + unat (snd y) \<le> ?hi" by simp_all
      then have "unat (fst y + 8) = unat (fst y) + 8" using reg by (simp add: unat_plus)
      with b y show "valid_access s (x + 8)" by (auto intro!: va)
    qed
    have vc1: "valid_access s (c1 + 8)" "\<forall>x\<in>set cs1. valid_access s (x + 8)"
      using vcs unfolding cs by simp_all
    have "insert_after_from c1 c s = ret (last (c1 # takeWhile (\<lambda>x. x < c) cs1))"
      using p1 vc1 by (rule insert_after_from_spec)
    moreover have "last (c1 # takeWhile (\<lambda>x. x < c) cs1) = ia"
    proof -
      have P: "x < c" if "x \<in> set (map fst (pre0 @ [(ia, ni)]))" for x
      proof -
        from that have "x \<in> fst ` set (pre0 @ [(ia, ni)])" by (simp only: set_map)
        then obtain y where "x = fst y" "y \<in> set (pre0 @ [(ia, ni)])" by (rule imageE)
        with l [of y] show ?thesis by simp
      qed
      have "takeWhile (\<lambda>x. x < c) (map fst (pre0 @ [(ia, ni)]) @ map fst post) =
          map fst (pre0 @ [(ia, ni)]) @ takeWhile (\<lambda>x. x < c) (map fst post)"
        by (rule takeWhile_append2) (rule P)
      moreover have "takeWhile (\<lambda>x. x < c) (map fst post) = []"
      proof (cases post)
        case Nil
        then show ?thesis by simp
      next
        case (Cons y ys)
        from r [of y] Cons have "unat c \<le> unat (fst y)" by simp
        then have "\<not> fst y < c" by (simp add: word_less_nat_alt)
        then show ?thesis using Cons by simp
      qed
      ultimately have t: "takeWhile (\<lambda>x. x < c) ?cs = map fst pre0 @ [ia]" by simp
      have "c1 < c" using P [of c1] cs by (cases pre0) auto
      then have "takeWhile (\<lambda>x. x < c) ?cs = c1 # takeWhile (\<lambda>x. x < c) cs1"
        unfolding cs by simp
      with t have "c1 # takeWhile (\<lambda>x. x < c) cs1 = map fst pre0 @ [ia]" by simp
      then have "last (c1 # takeWhile (\<lambda>x. x < c) cs1) = last (map fst pre0 @ [ia])"
        by (rule arg_cong)
      then show ?thesis by (simp only: last_snoc)
    qed
    ultimately show ?thesis using c1 by simp
  qed
  \<comment> \<open>linking the chunk in\<close>
  let ?m1 = "(mem s)(c + 8 := nx, ia + 8 := c)"
  let ?s1 = "s\<lparr>mem := ?m1\<rparr>"
  have post_cells: "fst x \<noteq> c + 8 \<and> fst x + 8 \<noteq> c + 8 \<and> fst x \<noteq> ia + 8 \<and> fst x + 8 \<noteq> ia + 8 \<and>
      fst x \<noteq> c \<and> fst x + 8 \<noteq> c" if "x \<in> set post" for x
  proof -
    from that have "(fst x, snd x) \<in> set post" by simp
    from gb(4) [OF this] r [OF that] have b: "unat ia + 16 + unat ni < unat (fst x)"
      "unat (fst x) + 16 + unat (snd x) \<le> ?hi" "unat c + 16 + unat n \<le> unat (fst x)" by simp_all
    then have "unat (fst x + 8) = unat (fst x) + 8" using reg by (simp add: unat_plus)
    with b ui uc show ?thesis by (auto simp: word_unat_eq_iff)
  qed
  have rep1: "fl_rep ?m1 c ((c, n) # post)"
  proof -
    have "fl_rep ?m1 nx post"
    proof (rule fl_rep_cong)
      show "fl_rep (mem s) nx post" using rpost by (simp add: nx_def)
      show "\<forall>x\<in>set post. ?m1 (fst x) = mem s (fst x) \<and> ?m1 (fst x + 8) = mem s (fst x + 8)"
        using post_cells by simp
    qed
    then show ?thesis using nec cn by (simp add: fl_rep_Cons)
  qed
  from gaps have g0: "gaps_ok (unat ia + 16 + unat ni + 1) ?hi post"
    by (simp add: gaps_ok_append)
  have gp: "gaps_ok (unat c + 16 + unat n) ?hi post"
    using g0 r by (rule gaps_ok_raise)
  have "\<exists>m'. TAlloc_coalesce c ?s1 = ret (?s1\<lparr>mem := m'\<rparr>) \<and> fl_rep m' c ?L1 \<and>
           (\<forall>x. x \<noteq> c \<and> x \<noteq> c + 8 \<longrightarrow> m' x = mem ?s1 x)"
  proof (rule coalesce_spec [where hi = ?hi])
    show "fl_rep (mem ?s1) c ((c, n) # post)" using rep1 by simp
    show "gaps_ok (unat c + 16 + unat n) ?hi post" by (rule gp)
    show "?hi < 2 ^ 64" by (rule reg)
    show "unat c + 16 + unat n \<le> ?hi" by (rule cb)
    show "valid_access ?s1 x" if "unat c \<le> unat x" "unat x + 8 \<le> ?hi" for x
      using va [of x] that cb by simp
  qed
  then obtain m2 where co1: "TAlloc_coalesce c ?s1 = ret (s\<lparr>mem := m2\<rparr>)"
    and rep2: "fl_rep m2 c ?L1" and fr2: "\<And>x. x \<noteq> c \<Longrightarrow> x \<noteq> c + 8 \<Longrightarrow> m2 x = ?m1 x"
    by auto
  have top1: "m2 c = snd (hd ?L1)"
    using fl_rep_hd_val [OF rep2 coal_ne] by simp
  let ?m3 = "m2(a + 8 := max (m2 c) (m2 (a + 8)))"
  let ?s3 = "s\<lparr>mem := ?m3\<rparr>"
  have adj1: "TAlloc_adjust_space_for_new_chunk a c (s\<lparr>mem := m2\<rparr>) = ret ?s3"
    using adjust_spec [of "s\<lparr>mem := m2\<rparr>" c a] v by simp
  have g1: "gaps_ok (unat ia + 16 + unat ni) ?hi ?L1"
    using gp lia(2) cb(2) reg(2) by (rule coal_gaps)
  have L1_cells: "fst x \<noteq> a + 8 \<and> fst x + 8 \<noteq> a + 8 \<and> fst x \<noteq> ia \<and> fst x + 8 \<noteq> ia \<and>
      fst x \<noteq> ia + 8 \<and> fst x + 8 \<noteq> ia + 8" if "x \<in> set ?L1" for x
  proof -
    from gaps_ok_lower [OF g1 that] have b: "unat ia + 16 + unat ni \<le> unat (fst x)"
      "unat (fst x) + 16 + unat (snd x) \<le> ?hi" by simp_all
    then have "unat (fst x + 8) = unat (fst x) + 8" using reg by (simp add: unat_plus)
    with b ua ui gb(1) show ?thesis by (auto simp: word_unat_eq_iff)
  qed
  have rep3: "fl_rep ?m3 ia ((ia, ni) # ?L1)"
  proof -
    have "fl_rep ?m3 c ?L1"
    proof (rule fl_rep_cong [OF rep2])
      show "\<forall>x\<in>set ?L1. ?m3 (fst x) = m2 (fst x) \<and> ?m3 (fst x + 8) = m2 (fst x + 8)"
        using L1_cells by simp
    qed
    moreover have "?m3 ia = ni" "?m3 (ia + 8) = c"
      using fr2 [of ia] fr2 [of "ia + 8"] nec q by simp_all
    ultimately show ?thesis using nec by (simp add: fl_rep_Cons)
  qed
  have "\<exists>m'. TAlloc_coalesce ia ?s3 = ret (?s3\<lparr>mem := m'\<rparr>) \<and> fl_rep m' ia ?L2 \<and>
           (\<forall>x. x \<noteq> ia \<and> x \<noteq> ia + 8 \<longrightarrow> m' x = mem ?s3 x)"
  proof (rule coalesce_spec [where hi = ?hi])
    show "fl_rep (mem ?s3) ia ((ia, ni) # ?L1)" using rep3 by simp
    show "gaps_ok (unat ia + 16 + unat ni) ?hi ?L1" by (rule g1)
    show "?hi < 2 ^ 64" by (rule reg)
    show "unat ia + 16 + unat ni \<le> ?hi" by (rule gb(2))
    show "valid_access ?s3 x" if "unat ia \<le> unat x" "unat x + 8 \<le> ?hi" for x
      using va [of x] that gb(1) by simp
  qed
  then obtain m4 where co2: "TAlloc_coalesce ia ?s3 = ret (s\<lparr>mem := m4\<rparr>)"
    and rep4: "fl_rep m4 ia ?L2" and fr4: "\<And>x. x \<noteq> ia \<Longrightarrow> x \<noteq> ia + 8 \<Longrightarrow> m4 x = ?m3 x"
    by auto
  have top2: "m4 ia = snd (hd ?L2)"
    using fl_rep_hd_val [OF rep4 coal_ne] by simp
  let ?m5 = "m4(a + 8 := max (m4 ia) (m4 (a + 8)))"
  have adj2: "TAlloc_adjust_space_for_new_chunk a ia (s\<lparr>mem := m4\<rparr>) = ret (s\<lparr>mem := ?m5\<rparr>)"
    using adjust_spec [of "s\<lparr>mem := m4\<rparr>" ia a] v by simp
  have run: "free_insert a c s = ret (s\<lparr>mem := ?m5\<rparr>)"
    using fl_ne nlt scan v co1 adj1 co2 adj2
    by (simp add: free_insert_def load_valid store_valid field_defs nx_def)
  \<comment> \<open>the list in the final store\<close>
  note pure = ins_mid [OF gaps reg(2) lia(2) cb(2) r]
  have m4a: "m4 (a + 8) = max (snd (hd ?L1)) (mem s (a + 8))" "m4 (a + 16) = mem s (a + 16)"
    using fr4 [of "a + 8"] fr4 [of "a + 16"] fr2 [of "a + 8"] fr2 [of "a + 16"] nec top1
    by simp_all
  have max5: "?m5 (a + 8) = largest (map snd (pre0 @ ?L2))"
    using pure(2) top2 m4a mx by simp
  have g2: "gaps_ok (unat ia) ?hi ?L2"
    using g1 _ gb(2) reg(2) by (rule coal_gaps) simp
  have L2_cells: "fst x \<noteq> a + 8 \<and> fst x + 8 \<noteq> a + 8" if "x \<in> set ?L2" for x
  proof -
    from gaps_ok_lower [OF g2 that] have b: "unat ia \<le> unat (fst x)"
      "unat (fst x) + 16 + unat (snd x) \<le> ?hi" by simp_all
    then have "unat (fst x + 8) = unat (fst x) + 8" using reg by (simp add: unat_plus)
    with b ua gb(1) show ?thesis by (auto simp: word_unat_eq_iff)
  qed
  have pre_cells: "?m5 (fst x) = mem s (fst x) \<and> ?m5 (fst x + 8) = mem s (fst x + 8)"
    if "x \<in> set pre0" for x
  proof -
    from that have "(fst x, snd x) \<in> set pre0" by simp
    from gb(3) [OF this] have b: "?lo \<le> unat (fst x)"
      "unat (fst x) + 16 + unat (snd x) < unat ia" by simp_all
    then have u: "unat (fst x + 8) = unat (fst x) + 8" using reg gb(2) by (simp add: unat_plus)
    have n1: "fst x \<noteq> a + 8" "fst x + 8 \<noteq> a + 8" "fst x \<noteq> ia" "fst x + 8 \<noteq> ia"
      "fst x \<noteq> ia + 8" "fst x + 8 \<noteq> ia + 8" "fst x \<noteq> c" "fst x + 8 \<noteq> c"
      "fst x \<noteq> c + 8" "fst x + 8 \<noteq> c + 8"
      using b u ua ui uc lia by (auto simp: word_unat_eq_iff)
    show ?thesis
      using n1 fr4 [of "fst x"] fr4 [of "fst x + 8"] fr2 [of "fst x"] fr2 [of "fst x + 8"]
      by simp
  qed
  have rep5: "fl_rep ?m5 (?m5 (a + 16)) (pre0 @ ?L2)"
    unfolding fl_rep_append
  proof (intro exI [of _ ia] conjI)
    have "seg ?m5 8 (mem s (a + 16)) (map fst pre0) ia"
      using sg q pre_cells by (subst seg_cong [where m = "mem s"]) auto
    then show "seg ?m5 8 (?m5 (a + 16)) (map fst pre0) ia"
      using m4a nec by simp
    show "\<forall>x\<in>set pre0. ?m5 (fst x) = snd x"
      using vpre pre_cells by simp
    show "fl_rep ?m5 ia ?L2"
    proof (rule fl_rep_cong [OF rep4])
      show "\<forall>x\<in>set ?L2. ?m5 (fst x) = m4 (fst x) \<and> ?m5 (fst x + 8) = m4 (fst x + 8)"
        using L2_cells by simp
    qed
  qed
  have frame: "?m5 x = mem s x"
    if "x \<noteq> a + 8" "x \<noteq> a + 16" "\<not> (unat c \<le> unat x \<and> unat x < unat c + 16)"
      "\<not> hdr_cell ?fl x" for x
  proof -
    have "x \<noteq> c" "x \<noteq> c + 8" using that(3) uc by (auto simp: word_unat_eq_iff)
    moreover have "\<not> (unat ia \<le> unat x \<and> unat x < unat ia + 16)"
      using that(4) by (auto simp: hdr_cell_def)
    then have "x \<noteq> ia" "x \<noteq> ia + 8" using ui by (auto simp: word_unat_eq_iff)
    ultimately show ?thesis
      using that(1) fr4 [of x] fr2 [of x] by simp
  qed
  have "ins_post s a ?fl c (pre0 @ ?L2) ?m5"
    unfolding ins_post_def using rep5 max5 frame by blast
  then show ?thesis using run by blast
qed

lemma insert_list_Nil: "insert_list c n [] = [(c, n)]"
  by (simp add: insert_list_def)

lemma insert_list_front:
  "fl \<noteq> [] \<Longrightarrow> c < fst (hd fl) \<Longrightarrow> insert_list c n fl = coal ((c, n) # fl)"
  by (cases fl) (auto simp: insert_list_def)

lemma insert_list_mid:
  assumes "\<And>x. x \<in> set (pre0 @ [(ia, ni)]) \<Longrightarrow> fst x < c"
    and "\<And>y. y \<in> set post \<Longrightarrow> \<not> fst y < c"
  shows "insert_list c n (pre0 @ (ia, ni) # post) =
     pre0 @ coal ((ia, ni) # coal ((c, n) # post))"
proof -
  let ?fl = "pre0 @ (ia, ni) # post"
  let ?P = "\<lambda>x. fst x < c"
  have fl: "?fl = (pre0 @ [(ia, ni)]) @ post" by simp
  have d: "dropWhile ?P post = post" "takeWhile ?P post = []"
    using assms(2) by (cases post; simp)+
  have t: "takeWhile ?P ?fl = pre0 @ [(ia, ni)]"
    unfolding fl using d(2) by (subst takeWhile_append2) (use assms(1) in auto)
  have dr: "dropWhile ?P ?fl = post"
    unfolding fl using d(1) by (subst dropWhile_append2) (use assms(1) in auto)
  have "hd ?fl \<in> set (pre0 @ [(ia, ni)])" by (cases pre0) auto
  then have "fst (hd ?fl) < c" by (rule assms(1))
  then have nlt: "\<not> c < fst (hd ?fl)" by simp
  obtain x xs where cons: "?fl = x # xs" by (cases ?fl) auto
  have "insert_list c n ?fl =
      butlast (takeWhile ?P ?fl) @ coal (last (takeWhile ?P ?fl) # coal ((c, n) # dropWhile ?P ?fl))"
    using nlt unfolding insert_list_def cons by (cases x) (simp add: Let_def)
  then show ?thesis unfolding t dr by simp
qed

lemma lives_ok_sub:
  "lives_ok m L lo hi fl \<Longrightarrow> set L' \<subseteq> set L \<Longrightarrow> lives_ok m L' lo hi fl"
  unfolding lives_ok_def by (meson subsetD)

lemma free_insert_spec:
  assumes inv: "arena_inv s L a fl"
    and p: "p \<in> set L" "unat a + 40 \<le> unat p" "unat p < unat a + unat (mem s a)"
  shows "\<exists>s'. free_insert a (p - 16) s = ret s' \<and>
           arena_inv s' (removeAll p L) a (insert_list (p - 16) (mem s (p - 16)) fl) \<and>
           same_but s s' (touched a (mem s a))"
proof -
  let ?lo = "unat a + 40"
  let ?hi = "unat a + unat (mem s a)"
  define c where "c = p - 16"
  define n where "n = mem s c"
  from inv have reg: "(a, mem s a) \<in> set (mapped s)" "?hi < 2 ^ 64" "56 < unat (mem s a)"
    and rep: "fl_rep (mem s) (mem s (a + 16)) fl"
    and gaps: "gaps_ok ?lo ?hi fl"
    and mx: "mem s (a + 8) = largest (map snd fl)"
    and lv: "lives_ok (mem s) L ?lo ?hi fl"
    by (simp_all add: arena_inv_def)
  from lv p have pl: "?lo + 16 \<le> unat p" "unat p + unat n \<le> ?hi"
    and psep: "\<And>x. x \<in> set fl \<Longrightarrow>
        unat (fst x) + 16 + unat (snd x) \<le> unat p - 16 \<or> unat p + unat n \<le> unat (fst x)"
    and pq: "\<And>q. q \<in> set L \<Longrightarrow> q \<noteq> p \<Longrightarrow> ?lo \<le> unat q \<Longrightarrow> unat q < ?hi \<Longrightarrow>
        unat q + unat (mem s (q - 16)) \<le> unat p - 16 \<or> unat p + unat n \<le> unat q - 16"
    unfolding lives_ok_def n_def c_def by blast+
  have uc: "unat c = unat p - 16" unfolding c_def using pl by (simp add: unat_minus)
  have cb: "?lo \<le> unat c" "unat c + 16 + unat n \<le> ?hi" using uc pl by simp_all
  have sep: "sep_from (unat c) (unat c + 16 + unat n) fl"
    unfolding sep_from_def using psep uc pl by fastforce
  have ua: "unat (a + 8) = unat a + 8" "unat (a + 16) = unat a + 16"
    using reg by (simp_all add: unat_plus)
  note pos = insert_position [OF gaps sep]
  \<comment> \<open>the three cases of the insertion\<close>
  define fl' where "fl' = insert_list c n fl"
  have "\<exists>m'. free_insert a c s = ret (s\<lparr>mem := m'\<rparr>) \<and> ins_post s a fl c fl' m' \<and>
      gaps_ok ?lo ?hi fl' \<and>
      (\<forall>qlo qhi. qlo < qhi \<longrightarrow> sep_from qlo qhi fl \<longrightarrow>
          unat c + 16 + unat n \<le> qlo \<or> qhi \<le> unat c \<longrightarrow> sep_from qlo qhi fl')"
  proof (cases "fl = []")
    case True
    have "\<exists>m'. free_insert a c s = ret (s\<lparr>mem := m'\<rparr>) \<and> ins_post s a [] c [(c, n)] m'"
      using inv cb unfolding True by (rule free_insert_empty) (simp add: n_def)
    moreover have "fl' = [(c, n)]" unfolding fl'_def True by (rule insert_list_Nil)
    ultimately show ?thesis using True cb by (auto simp: sep_from_def)
  next
    case ne: False
    show ?thesis
    proof (cases "c < fst (hd fl)")
      case True
      have r: "unat c + 16 + unat n \<le> unat (fst y)" if "y \<in> set fl" for y
      proof -
        have "hd fl \<in> set fl" using ne by simp
        have "takeWhile (\<lambda>x. fst x < c) fl = []"
          using True ne by (cases fl) auto
        then have "dropWhile (\<lambda>x. fst x < c) fl = fl"
          using takeWhile_dropWhile_id [of "\<lambda>x. fst x < c" fl] by simp
        with pos(3) [of y] that show ?thesis by simp
      qed
      have "\<exists>m'. free_insert a c s = ret (s\<lparr>mem := m'\<rparr>) \<and>
          ins_post s a fl c (coal ((c, n) # fl)) m'"
        using inv ne True cb _ r by (rule free_insert_front) (simp add: n_def)
      moreover have e: "fl' = coal ((c, n) # fl)"
        unfolding fl'_def using ne True by (rule insert_list_front)
      moreover note pure = ins_front [OF gaps reg(2) cb r]
      have "gaps_ok ?lo ?hi fl'" unfolding e by (rule pure(1))
      moreover have "sep_from qlo qhi fl'"
        if "qlo < qhi" "sep_from qlo qhi fl" "unat c + 16 + unat n \<le> qlo \<or> qhi \<le> unat c"
        for qlo qhi unfolding e by (rule pure(3) [OF _ that])
      ultimately show ?thesis by auto
    next
      case False
      let ?P = "\<lambda>x. fst x < c"
      define pre where "pre = takeWhile ?P fl"
      define post where "post = dropWhile ?P fl"
      have flpp: "fl = pre @ post" by (simp add: pre_def post_def)
      have l: "fst x < c \<and> unat (fst x) + 16 + unat (snd x) \<le> unat c" if "x \<in> set pre" for x
        using pos(2) [of x] that by (simp add: pre_def)
      have r: "unat c + 16 + unat n \<le> unat (fst y)" if "y \<in> set post" for y
        using pos(3) [of y] that by (simp add: post_def)
      have hdin: "hd fl \<in> set fl" using ne by simp
      have "fst (hd fl) < c"
      proof -
        from sep hdin have "unat (fst (hd fl)) + 16 + unat (snd (hd fl)) \<le> unat c \<or>
            unat c + 16 + unat n \<le> unat (fst (hd fl))"
          by (auto simp: sep_from_def)
        moreover have "unat (fst (hd fl)) \<le> unat c"
          using False by (simp add: word_less_nat_alt)
        ultimately show ?thesis by (simp add: word_less_nat_alt)
      qed
      then have "pre \<noteq> []" unfolding pre_def using ne by (cases fl) auto
      then obtain pre0 z where pz: "pre = pre0 @ [z]"
        by (metis append_butlast_last_id)
      obtain ia ni where z: "z = (ia, ni)" by (cases z)
      have fl3: "fl = pre0 @ (ia, ni) # post" using flpp pz z by simp
      have l': "fst x < c \<and> unat (fst x) + 16 + unat (snd x) \<le> unat c"
        if "x \<in> set (pre0 @ [(ia, ni)])" for x
        using l [of x] that pz z by simp
      have "\<exists>m'. free_insert a c s = ret (s\<lparr>mem := m'\<rparr>) \<and>
          ins_post s a (pre0 @ (ia, ni) # post) c
            (pre0 @ coal ((ia, ni) # coal ((c, n) # post))) m'"
        using inv [unfolded fl3] cb _ l' r by (rule free_insert_mid) (simp add: n_def)
      moreover have e: "fl' = pre0 @ coal ((ia, ni) # coal ((c, n) # post))"
        unfolding fl'_def fl3
      proof (rule insert_list_mid)
        show "fst x < c" if "x \<in> set (pre0 @ [(ia, ni)])" for x using l' [OF that] by simp
        show "\<not> fst y < c" if "y \<in> set post" for y
          using r [OF that] by (simp add: word_less_nat_alt)
      qed
      moreover note pure = ins_mid [OF gaps [unfolded fl3] reg(2) _ cb(2) r]
      have lia: "unat ia + 16 + unat ni \<le> unat c" using l' [of "(ia, ni)"] by simp
      have "gaps_ok ?lo ?hi fl'" unfolding e using lia by (rule pure(1))
      moreover have "sep_from qlo qhi fl'"
        if "qlo < qhi" "sep_from qlo qhi fl" "unat c + 16 + unat n \<le> qlo \<or> qhi \<le> unat c"
        for qlo qhi unfolding e
        by (rule pure(3) [OF lia _ that(1) that(2) [unfolded fl3] that(3)])
      ultimately show ?thesis unfolding fl3 [symmetric] by auto
    qed
  qed
  then obtain m' where run: "free_insert a c s = ret (s\<lparr>mem := m'\<rparr>)"
    and post: "ins_post s a fl c fl' m'" and g': "gaps_ok ?lo ?hi fl'"
    and sep': "\<And>qlo qhi. qlo < qhi \<Longrightarrow> sep_from qlo qhi fl \<Longrightarrow>
          unat c + 16 + unat n \<le> qlo \<or> qhi \<le> unat c \<Longrightarrow> sep_from qlo qhi fl'"
    by blast
  from post have rep': "fl_rep m' (m' (a + 16)) fl'" and mx': "m' (a + 8) = largest (map snd fl')"
    and fr: "\<And>x. x \<noteq> a + 8 \<Longrightarrow> x \<noteq> a + 16 \<Longrightarrow> \<not> (unat c \<le> unat x \<and> unat x < unat c + 16) \<Longrightarrow>
          \<not> hdr_cell fl x \<Longrightarrow> m' x = mem s x"
    unfolding ins_post_def by blast+
  have hdr_in: "?lo \<le> unat x \<and> unat x < ?hi" if "hdr_cell fl x" for x
  proof -
    from that obtain y where y: "y \<in> set fl" "unat (fst y) \<le> unat x" "unat x < unat (fst y) + 16"
      unfolding hdr_cell_def by blast
    from gaps_ok_lower [OF gaps y(1)] y(2,3) show ?thesis by simp
  qed
  have out: "m' x = mem s x" if "\<not> touched a (mem s a) x" for x
  proof (rule fr)
    from that show "x \<noteq> a + 8" "x \<noteq> a + 16" by (simp_all add: touched_def)
    from that have nin: "\<not> (?lo \<le> unat x \<and> unat x < ?hi)" by (simp add: touched_def)
    then show "\<not> (unat c \<le> unat x \<and> unat x < unat c + 16)" using cb by auto
    show "\<not> hdr_cell fl x" using hdr_in [of x] nin by blast
  qed
  have ma: "m' a = mem s a"
    by (rule out) (use ua in \<open>auto simp: touched_def word_unat_eq_iff\<close>)
  \<comment> \<open>the other live blocks\<close>
  have lv': "lives_ok m' (removeAll p L) ?lo ?hi fl'"
    unfolding lives_ok_def
  proof (intro ballI impI)
    fix q assume q: "q \<in> set (removeAll p L)" and qin: "?lo \<le> unat q \<and> unat q < ?hi"
    then have qL: "q \<in> set L" "q \<noteq> p" by auto
    from lv qL(1) qin have ql: "?lo + 16 \<le> unat q" "unat q + unat (mem s (q - 16)) \<le> ?hi"
      and qsep: "sep_from (unat q - 16) (unat q + unat (mem s (q - 16))) fl"
      and qq: "\<And>r. r \<in> set L \<Longrightarrow> r \<noteq> q \<Longrightarrow> ?lo \<le> unat r \<Longrightarrow> unat r < ?hi \<Longrightarrow>
        unat r + unat (mem s (r - 16)) \<le> unat q - 16 \<or>
        unat q + unat (mem s (q - 16)) \<le> unat r - 16"
      unfolding lives_ok_def sep_from_def by blast+
    have same: "m' (r - 16) = mem s (r - 16)"
      if r: "r \<in> set L" "r \<noteq> p" "?lo \<le> unat r" "unat r < ?hi" for r
    proof (rule fr)
      from lv r have rl: "?lo + 16 \<le> unat r"
        and rsep: "\<And>x. x \<in> set fl \<Longrightarrow>
          unat (fst x) + 16 + unat (snd x) \<le> unat r - 16 \<or>
          unat r + unat (mem s (r - 16)) \<le> unat (fst x)"
        unfolding lives_ok_def by blast+
      have ur: "unat (r - 16) = unat r - 16" using rl by (simp add: unat_minus)
      show "r - 16 \<noteq> a + 8" "r - 16 \<noteq> a + 16"
        using ur ua rl by (auto simp: word_unat_eq_iff)
      from pq [OF r(1,2,3,4)] show "\<not> (unat c \<le> unat (r - 16) \<and> unat (r - 16) < unat c + 16)"
        using ur uc rl pl by auto
      show "\<not> hdr_cell fl (r - 16)"
        unfolding hdr_cell_def using rsep ur rl by fastforce
    qed
    have sq: "m' (q - 16) = mem s (q - 16)" using qL qin by (intro same) auto
    have "sep_from (unat q - 16) (unat q + unat (mem s (q - 16))) fl'"
    proof (rule sep')
      show "unat q - 16 < unat q + unat (mem s (q - 16))" using ql by simp
      show "sep_from (unat q - 16) (unat q + unat (mem s (q - 16))) fl" by (rule qsep)
      from pq [OF qL] qin show "unat c + 16 + unat n \<le> unat q - 16 \<or>
          unat q + unat (mem s (q - 16)) \<le> unat c"
        using uc pl by auto
    qed
    moreover have "unat r + unat (m' (r - 16)) \<le> unat q - 16 \<or>
        unat q + unat (m' (q - 16)) \<le> unat r - 16"
      if "r \<in> set (removeAll p L)" "r \<noteq> q \<and> ?lo \<le> unat r \<and> unat r < ?hi" for r
    proof -
      from that have r: "r \<in> set L" "r \<noteq> p" "?lo \<le> unat r" "unat r < ?hi" "r \<noteq> q" by auto
      from qq [OF r(1,5,3,4)] same [OF r(1-4)] sq show ?thesis by simp
    qed
    ultimately show "?lo + 16 \<le> unat q \<and> unat q + unat (m' (q - 16)) \<le> ?hi \<and>
        (\<forall>x\<in>set fl'. unat (fst x) + 16 + unat (snd x) \<le> unat q - 16 \<or>
                      unat q + unat (m' (q - 16)) \<le> unat (fst x)) \<and>
        (\<forall>r\<in>set (removeAll p L). r \<noteq> q \<and> ?lo \<le> unat r \<and> unat r < ?hi \<longrightarrow>
           unat r + unat (m' (r - 16)) \<le> unat q - 16 \<or>
           unat q + unat (m' (q - 16)) \<le> unat r - 16)"
      using ql sq unfolding sep_from_def by auto
  qed
  have "arena_inv (s\<lparr>mem := m'\<rparr>) (removeAll p L) a fl'"
    unfolding arena_inv_def using reg ma rep' mx' g' lv' by simp
  moreover have "same_but s (s\<lparr>mem := m'\<rparr>) (touched a (mem s a))"
    unfolding same_but_def using out by simp
  ultimately show ?thesis using run unfolding fl'_def c_def n_def by blast
qed

section \<open>The frame of an arena, and the size of a new arena\<close>

lemma bnd_ret_iff: "(bnd m f = ret x) = (\<exists>y. m = ret y \<and> f y = ret x)"
  by (auto simp: bnd_def ret_def split: option.splits sum.splits)

lemma arena_inv_frame:
  assumes inv: "arena_inv s L a fl"
    and mp: "(a, mem s a) \<in> set (mapped s')"
    and eq: "\<And>x. x = a \<or> touched a (mem s a) x \<Longrightarrow> mem s' x = mem s x"
    and L: "\<And>p. p \<in> set L' \<Longrightarrow> unat a + 40 \<le> unat p \<Longrightarrow> unat p < unat a + unat (mem s a) \<Longrightarrow>
              p \<in> set L"
  shows "arena_inv s' L' a fl"
proof -
  let ?lo = "unat a + 40"
  let ?hi = "unat a + unat (mem s a)"
  from inv have reg: "?hi < 2 ^ 64" "56 < unat (mem s a)"
    and rep: "fl_rep (mem s) (mem s (a + 16)) fl"
    and gaps: "gaps_ok ?lo ?hi fl"
    and mx: "mem s (a + 8) = largest (map snd fl)"
    and lv: "lives_ok (mem s) L ?lo ?hi fl"
    by (simp_all add: arena_inv_def)
  have ma: "mem s' a = mem s a" "mem s' (a + 8) = mem s (a + 8)" "mem s' (a + 16) = mem s (a + 16)"
    by (rule eq; simp add: touched_def)+
  have inside: "mem s' x = mem s x" if "?lo \<le> unat x" "unat x < ?hi" for x
    using that by (intro eq) (simp add: touched_def)
  have rep': "fl_rep (mem s') (mem s (a + 16)) fl"
  proof (rule fl_rep_cong [OF rep], rule ballI)
    fix x assume x: "x \<in> set fl"
    from gaps_ok_lower [OF gaps x] have b: "?lo \<le> unat (fst x)"
      "unat (fst x) + 16 + unat (snd x) \<le> ?hi" by simp_all
    then have u: "unat (fst x + 8) = unat (fst x) + 8" using reg by (simp add: unat_plus)
    show "mem s' (fst x) = mem s (fst x) \<and> mem s' (fst x + 8) = mem s (fst x + 8)"
      using b u by (auto intro!: inside)
  qed
  have sz: "mem s' (p - 16) = mem s (p - 16)" if "?lo + 16 \<le> unat p" "unat p < ?hi" for p
  proof -
    have "unat (p - 16) = unat p - 16" using that by (simp add: unat_minus)
    then show ?thesis using that by (intro inside) simp_all
  qed
  have lv': "lives_ok (mem s') L' ?lo ?hi fl"
    unfolding lives_ok_def
  proof (intro ballI impI)
    fix p assume p: "p \<in> set L'" and pin: "?lo \<le> unat p \<and> unat p < ?hi"
    then have pL: "p \<in> set L" by (intro L) simp_all
    from lv pL pin have pl: "?lo + 16 \<le> unat p" "unat p + unat (mem s (p - 16)) \<le> ?hi"
      and psep: "\<forall>x\<in>set fl. unat (fst x) + 16 + unat (snd x) \<le> unat p - 16 \<or>
                      unat p + unat (mem s (p - 16)) \<le> unat (fst x)"
      and pq: "\<And>q. q \<in> set L \<Longrightarrow> q \<noteq> p \<Longrightarrow> ?lo \<le> unat q \<Longrightarrow> unat q < ?hi \<Longrightarrow>
        unat q + unat (mem s (q - 16)) \<le> unat p - 16 \<or>
        unat p + unat (mem s (p - 16)) \<le> unat q - 16"
      unfolding lives_ok_def by blast+
    have sp: "mem s' (p - 16) = mem s (p - 16)" using pl pin by (intro sz) simp_all
    have "unat q + unat (mem s' (q - 16)) \<le> unat p - 16 \<or>
        unat p + unat (mem s' (p - 16)) \<le> unat q - 16"
      if q: "q \<in> set L'" "q \<noteq> p \<and> ?lo \<le> unat q \<and> unat q < ?hi" for q
    proof -
      from q have qL: "q \<in> set L" by (intro L) simp_all
      from lv qL q(2) have "?lo + 16 \<le> unat q" unfolding lives_ok_def by blast
      then have "mem s' (q - 16) = mem s (q - 16)" using q(2) by (intro sz) simp_all
      with pq [OF qL] q(2) sp show ?thesis by simp
    qed
    then show "?lo + 16 \<le> unat p \<and> unat p + unat (mem s' (p - 16)) \<le> ?hi \<and>
        (\<forall>x\<in>set fl. unat (fst x) + 16 + unat (snd x) \<le> unat p - 16 \<or>
                      unat p + unat (mem s' (p - 16)) \<le> unat (fst x)) \<and>
        (\<forall>q\<in>set L'. q \<noteq> p \<and> ?lo \<le> unat q \<and> unat q < ?hi \<longrightarrow>
           unat q + unat (mem s' (q - 16)) \<le> unat p - 16 \<or>
           unat p + unat (mem s' (p - 16)) \<le> unat q - 16)"
      using pl psep sp by simp
  qed
  show ?thesis
    unfolding arena_inv_def using mp reg rep' gaps mx lv' ma by simp
qed

lemma round_up_page:
  fixes P N :: nat
  assumes P: "0 < P" "P dvd 2 ^ 64" and N: "N < 2 ^ 64"
  defines "T \<equiv> P * (N div P + (if 0 < N mod P then 1 else 0))"
  shows "T = 2 ^ 64 \<or> (T < 2 ^ 64 \<and> N \<le> T)"
proof -
  have dm: "P * (N div P) + N mod P = N" "N mod P < P" using P(1) by simp_all
  have le: "N \<le> T"
  proof (cases "0 < N mod P")
    case True
    then have "T = P * (N div P) + P" by (simp add: T_def)
    with dm show ?thesis by linarith
  next
    case False
    then have "T = P * (N div P)" "N mod P = 0" by (simp_all add: T_def)
    with dm show ?thesis by linarith
  qed
  have lt: "T < N + P"
  proof (cases "0 < N mod P")
    case True
    then have "T = P * (N div P) + P" by (simp add: T_def)
    with dm True show ?thesis by linarith
  next
    case False
    then have "T = P * (N div P)" "N mod P = 0" by (simp_all add: T_def)
    with dm P(1) show ?thesis by linarith
  qed
  have dv: "P dvd T" by (simp add: T_def)
  show ?thesis
  proof (cases "T < 2 ^ 64")
    case True
    then show ?thesis using le by simp
  next
    case False
    then have ge: "(2::nat) ^ 64 \<le> T" by simp
    have "P dvd T - 2 ^ 64" using dv P(2) by (rule dvd_diff_nat)
    moreover have "T - 2 ^ 64 < P" using lt N ge by simp
    ultimately have "T - 2 ^ 64 = 0" using dvd_imp_le [of P "T - 2 ^ 64"] by fastforce
    then show ?thesis using ge by simp
  qed
qed

lemma arena_size_cases:
  assumes pg: "page_ok (pagesize s)" "minallocsize s = pagesize s * 1000"
    and run: "arena_size sn s = ret len"
  shows "len = 0 \<or> (unat sn \<le> unat len \<and> 64000 \<le> unat len)"
proof -
  let ?P = "unat (pagesize s)"
  from pg have P: "64 \<le> ?P" "?P dvd 2 ^ 64" "?P * 1000 < 2 ^ 64" by (simp_all add: page_ok_def)
  have um: "unat (minallocsize s) = ?P * 1000"
    using P(3) by (simp add: pg(2) unat_word_ariths)
  show ?thesis
  proof (cases "sn < minallocsize s")
    case True
    with run have "len = minallocsize s" by (simp add: arena_size_def)
    then show ?thesis using True um P(1) by (simp add: word_less_nat_alt)
  next
    case False
    with run have gt: "minallocsize s < sn" and p0: "pagesize s \<noteq> 0"
      and len: "len = pagesize s * (sn div pagesize s + (if 0 < sn mod pagesize s then 1 else 0))"
      by (auto simp: arena_size_def Let_def split: if_splits)
    let ?N = "unat sn"
    let ?T = "?P * (?N div ?P + (if 0 < ?N mod ?P then 1 else 0))"
    have q: "?N div ?P + 1 < 2 ^ 64"
    proof -
      have "?N div ?P \<le> ?N div 64" using P(1) by (intro div_le_mono2) simp_all
      moreover have "?N < 2 ^ 64" using unat_lt_2p64 [of sn] by simp
      ultimately show ?thesis by simp
    qed
    have add: "unat (if 0 < sn mod pagesize s then 1 else 0 :: 64 word) =
        (if 0 < ?N mod ?P then 1 else 0)"
      by (simp add: word_less_nat_alt unat_mod)
    define w where "w = sn div pagesize s + (if 0 < sn mod pagesize s then 1 else 0)"
    have uw: "unat w = ?N div ?P + (if 0 < ?N mod ?P then 1 else 0)"
      unfolding w_def using q add by (subst unat_plus) (simp_all add: unat_div split: if_splits)
    have "len = pagesize s * w" by (simp add: len w_def)
    then have "unat len = (?P * unat w) mod 2 ^ 64" by (simp add: unat_word_ariths)
    then have ul: "unat len = ?T mod 2 ^ 64" by (simp only: uw)
    have "?T = 2 ^ 64 \<or> (?T < 2 ^ 64 \<and> ?N \<le> ?T)"
      using P unat_lt_2p64 [of sn] by (intro round_up_page) simp_all
    then show ?thesis
    proof
      assume "?T = 2 ^ 64"
      with ul have "unat len = 0" by simp
      then show ?thesis by (simp add: unat_eq_0)
    next
      assume t: "?T < 2 ^ 64 \<and> ?N \<le> ?T"
      with ul have "unat len = ?T" by simp
      moreover have "64000 \<le> ?N" using gt um P(1) by (simp add: word_less_nat_alt)
      ultimately show ?thesis using t by simp
    qed
  qed
qed

section \<open>Creation of an arena\<close>

lemma mmap_cases:
  assumes "mmap len s = (Z, s1)"
  shows "(Z = MAP_FAILED \<and> s1 = s\<lparr>mmap_plan := tl (mmap_plan s)\<rparr>) \<or>
         (Z \<noteq> MAP_FAILED \<and> region_free s Z len \<and>
          s1 = s\<lparr>mmap_plan := tl (mmap_plan s), mapped := (Z, len) # mapped s,
                 mem := zeroed (mem s) Z len\<rparr>)"
proof (cases "mmap_plan s")
  case Nil
  with assms show ?thesis by (simp add: mmap_def)
next
  case (Cons a rest)
  show ?thesis
  proof (cases "region_free s a len")
    case True
    then have "unat a + unat len < 2 ^ 64" "len \<noteq> 0" by (simp_all add: region_free_def)
    then have "a \<noteq> MAP_FAILED"
      by (auto simp: MAP_FAILED_def unat_minus_one_64 unat_eq_0)
    with assms Cons True show ?thesis by (auto simp: mmap_def zeroed_def)
  next
    case False
    with assms Cons show ?thesis by (auto simp: mmap_def)
  qed
qed

lemma init_arena_spec:
  assumes reg: "(Z, len) \<in> set (mapped s)" "unat Z + unat len < 2 ^ 64" "56 \<le> unat len"
  shows "TAlloc_init_arena Z len s =
     ret (s\<lparr>mem := (mem s)(Z := len, Z + 8 := len - 56, Z + 24 := 0, Z + 32 := 0,
        Z + 40 := len - 56, Z + 48 := 0, Z + 16 := Z + 40)\<rparr>)"
proof -
  have u: "unat (Z + 8) = unat Z + 8" "unat (Z + 16) = unat Z + 16" "unat (Z + 24) = unat Z + 24"
    "unat (Z + 32) = unat Z + 32" "unat (Z + 40) = unat Z + 40" "unat (Z + 48) = unat Z + 48"
    using reg by (simp_all add: unat_plus)
  have v: "valid_access s Z" "valid_access s (Z + 8)" "valid_access s (Z + 16)"
    "valid_access s (Z + 24)" "valid_access s (Z + 32)" "valid_access s (Z + 40)"
    "valid_access s (Z + 48)"
    using u reg by (auto intro!: valid_in_region [OF reg(1)])
  have [simp]: "Z + 40 + 8 = Z + 48" by simp
  show ?thesis
    using v
    by (simp add: TAlloc_init_arena_def load_valid store_valid field_defs const_defs Let_def)
qed

lemma fresh_arena_inv:
  assumes reg: "(Z, len) \<in> set (mapped s)" "unat Z + unat len < 2 ^ 64" "56 < unat len"
    and m: "mem s Z = len" "mem s (Z + 8) = len - 56" "mem s (Z + 16) = Z + 40"
      "mem s (Z + 40) = len - 56" "mem s (Z + 48) = 0"
    and L: "\<And>p. p \<in> set L \<Longrightarrow> \<not> (unat Z + 40 \<le> unat p \<and> unat p < unat Z + unat len)"
  shows "arena_inv s L Z [(Z + 40, len - 56)]"
proof -
  have u: "unat (Z + 40) = unat Z + 40" "unat (len - 56) = unat len - 56"
    using reg by (simp_all add: unat_plus unat_minus)
  have nz: "Z + 40 \<noteq> 0" using u by (auto simp: word_unat_eq_iff)
  have [simp]: "Z + 40 + 8 = Z + 48" by simp
  have "fl_rep (mem s) (mem s (Z + 16)) [(Z + 40, len - 56)]"
    using m nz by (simp add: fl_rep_Cons fl_rep_Nil)
  moreover have "gaps_ok (unat Z + 40) (unat Z + unat (mem s Z)) [(Z + 40, len - 56)]"
    using u reg m by simp
  moreover have "mem s (Z + 8) = largest (map snd [(Z + 40, len - 56)])"
    using m by (simp add: largest_Cons max_def)
  moreover have "lives_ok (mem s) L (unat Z + 40) (unat Z + unat (mem s Z)) [(Z + 40, len - 56)]"
    unfolding lives_ok_def using L m by blast
  ultimately show ?thesis
    unfolding arena_inv_def using reg m by simp
qed

lemma create_arena_cases:
  assumes pg: "page_ok (pagesize s)" "minallocsize s = pagesize s * 1000"
    and run: "TAlloc_create_arena sz s = ret (Z, s')"
  shows "(Z = 0 \<and> (s' = s \<or> s' = s\<lparr>mmap_plan := tl (mmap_plan s)\<rparr>)) \<or>
         (Z \<noteq> 0 \<and> (\<exists>len. region_free s Z len \<and> unat sz + 56 \<le> unat len \<and> 64000 \<le> unat len \<and>
            s' = s\<lparr>mmap_plan := tl (mmap_plan s), mapped := (Z, len) # mapped s,
                   mem := fresh_arena (mem s) Z len\<rparr>))"
proof (cases "sz + 56 < sz")
  case True
  with run show ?thesis by (simp add: TAlloc_create_arena_def const_defs)
next
  case False
  then have "sz \<le> sz + 56" by simp
  then have "unat sz + unat (56 :: 64 word) < 2 ^ 64" by (simp only: no_olen_add_nat) simp
  then have nw: "unat (sz + 56) = unat sz + 56" by (simp add: unat_plus)
  from run False obtain len where sz: "arena_size (sz + 56) s = ret len"
    and rest: "(let (new_arena, s1) = mmap len s in
                 if new_arena = MAP_FAILED then ret (0, s1)
                 else bnd (TAlloc_init_arena new_arena len s1) (\<lambda>s2. ret (new_arena, s2))) =
               ret (Z, s')"
    by (auto simp: TAlloc_create_arena_def const_defs Let_def bnd_ret_iff)
  obtain A s1 where mm: "mmap len s = (A, s1)" by (cases "mmap len s")
  from mmap_cases [OF mm] show ?thesis
  proof (elim disjE conjE)
    assume "A = MAP_FAILED" "s1 = s\<lparr>mmap_plan := tl (mmap_plan s)\<rparr>"
    with rest mm show ?thesis by simp
  next
    assume A: "A \<noteq> MAP_FAILED" and rf: "region_free s A len"
      and s1: "s1 = s\<lparr>mmap_plan := tl (mmap_plan s), mapped := (A, len) # mapped s,
                 mem := zeroed (mem s) A len\<rparr>"
    from rf have l0: "len \<noteq> 0" "A \<noteq> 0" "unat A + unat len < 2 ^ 64"
      by (simp_all add: region_free_def)
    from arena_size_cases [OF pg sz] l0 nw
    have big: "unat sz + 56 \<le> unat len" "64000 \<le> unat len" by simp_all
    have "TAlloc_init_arena A len s1 =
       ret (s1\<lparr>mem := (mem s1)(A := len, A + 8 := len - 56, A + 24 := 0, A + 32 := 0,
          A + 40 := len - 56, A + 48 := 0, A + 16 := A + 40)\<rparr>)"
      using l0 big by (intro init_arena_spec) (simp_all add: s1)
    with rest mm A have "Z = A"
      "s' = s1\<lparr>mem := (mem s1)(A := len, A + 8 := len - 56, A + 24 := 0, A + 32 := 0,
          A + 40 := len - 56, A + 48 := 0, A + 16 := A + 40)\<rparr>"
      by auto
    then have "Z \<noteq> 0 \<and> region_free s Z len \<and> unat sz + 56 \<le> unat len \<and> 64000 \<le> unat len \<and>
        s' = s\<lparr>mmap_plan := tl (mmap_plan s), mapped := (Z, len) # mapped s,
               mem := fresh_arena (mem s) Z len\<rparr>"
      using l0 rf big by (simp add: s1 fresh_arena_def)
    then show ?thesis by blast
  qed
qed

section \<open>Steps inside one region\<close>

lemma prevs_ok_cong:
  "\<forall>a\<in>set as. m' (a + 32) = m (a + 32) \<Longrightarrow> prevs_ok m' as = prevs_ok m as"
  by (induction m as rule: prevs_ok.induct) auto

lemma touched_inside:
  assumes "touched Z len x" "unat Z + unat len < 2 ^ 64" "56 < unat len"
  shows "unat Z \<le> unat x" "unat x < unat Z + unat len" "x \<noteq> Z" "x \<noteq> Z + 24" "x \<noteq> Z + 32"
proof -
  have u: "unat (Z + 8) = unat Z + 8" "unat (Z + 16) = unat Z + 16"
    "unat (Z + 24) = unat Z + 24" "unat (Z + 32) = unat Z + 32"
    using assms(2,3) by (simp_all add: unat_plus)
  from assms(1) have c: "x = Z + 8 \<or> x = Z + 16 \<or> (unat Z + 40 \<le> unat x \<and> unat x < unat Z + unat len)"
    by (simp add: touched_def)
  from c u assms(3) show "unat Z \<le> unat x" by auto
  from c u assms(3) show "unat x < unat Z + unat len" by auto
  from c u show "x \<noteq> Z" by (auto simp: word_unat_eq_iff)
  from c u show "x \<noteq> Z + 24" by (auto simp: word_unat_eq_iff)
  from c u show "x \<noteq> Z + 32" by (auto simp: word_unat_eq_iff)
qed

lemma regions_ok_disjoint:
  assumes "regions_ok P R" "(a, l) \<in> R" "(b, k) \<in> R" "a \<noteq> b"
  shows "unat a + unat l \<le> unat b \<or> unat b + unat k \<le> unat a"
  using assms unfolding regions_ok_def by fastforce

lemma regions_ok_same:
  assumes "regions_ok P R" "(a, l) \<in> R" "(a, k) \<in> R"
  shows "l = k"
proof (rule ccontr)
  assume "l \<noteq> k"
  then have "(a, l) \<noteq> (a, k)" by simp
  with assms have "unat a + unat l \<le> unat a \<or> unat a + unat k \<le> unat a"
    unfolding regions_ok_def by fastforce
  moreover from assms have "56 < unat l" "56 < unat k"
    unfolding regions_ok_def by fastforce+
  ultimately show False by simp
qed

lemma regions_ok_in:
  assumes "regions_ok P R" "(a, l) \<in> R"
  shows "a \<noteq> 0" "unat a mod P = 0" "unat a + unat l < 2 ^ 64" "56 < unat l"
  using assms unfolding regions_ok_def by fastforce+

text \<open>A step that writes only inside one mapped region, on the cells of that region's
  free list and blocks, keeps the invariant of everything else.\<close>

lemma heap_inv_touch:
  assumes inv: "heap_inv s L as F"
    and reg: "(Z, len) \<in> set (mapped s)"
    and sb: "same_but s s' (touched Z len)"
    and L': "\<And>p. p \<in> set L' \<Longrightarrow>
               p \<in> set L \<or> (unat Z + 56 \<le> unat p \<and> unat p < unat Z + unat len)"
    and az: "Z \<in> set as \<Longrightarrow> arena_inv s' L' Z (F' Z)"
    and F': "\<And>b. b \<noteq> Z \<Longrightarrow> F' b = F b"
  shows "heap_inv s' L' as F'"
proof -
  let ?P = "unat (os_pagesize s)"
  from inv have pg: "page_ok (os_pagesize s)" and ro: "regions_ok ?P (set (mapped s))"
    and lm: "lives_mapped s L" and pa: "path (mem s) 24 (arena_head s) as"
    and ai: "\<And>a. a \<in> set as \<Longrightarrow> arena_inv s L a (F a)" and pv: "prevs_ok (mem s) as"
    and ini: "if initialized s = 0 then arena_head s = 0 \<and> arena_tail s = 0 \<and> mapped s = []
       else pagesize s = os_pagesize s \<and> minallocsize s = os_pagesize s * 1000 \<and>
            as \<noteq> [] \<and> tail_ok s as"
    by (simp_all add: heap_inv_def)
  from sb have s': "s' = s\<lparr>mem := mem s'\<rparr>"
    and fr: "\<And>x. \<not> touched Z len x \<Longrightarrow> mem s' x = mem s x"
    by (simp_all add: same_but_def)
  have flds: "mapped s' = mapped s" "os_pagesize s' = os_pagesize s" "arena_head s' = arena_head s"
    "arena_tail s' = arena_tail s" "initialized s' = initialized s" "pagesize s' = pagesize s"
    "minallocsize s' = minallocsize s"
    by (subst s', simp)+
  note rz = regions_ok_in [OF ro reg]
  note ti = touched_inside [OF _ rz(3,4)]
  have hdr: "mem s' a = mem s a \<and> mem s' (a + 24) = mem s (a + 24) \<and>
      mem s' (a + 32) = mem s (a + 32)" if a: "a \<in> set as" for a
  proof (cases "a = Z")
    case True
    have "\<not> touched Z len Z" "\<not> touched Z len (Z + 24)" "\<not> touched Z len (Z + 32)"
      using ti(3,4,5) by blast+
    then show ?thesis using True fr by simp
  next
    case False
    from ai [OF a] have ra: "(a, mem s a) \<in> set (mapped s)" "unat a + unat (mem s a) < 2 ^ 64"
      "56 < unat (mem s a)" by (simp_all add: arena_inv_def)
    from regions_ok_disjoint [OF ro ra(1) reg False]
    have d: "unat a + unat (mem s a) \<le> unat Z \<or> unat Z + unat len \<le> unat a" .
    have u: "unat (a + 24) = unat a + 24" "unat (a + 32) = unat a + 32"
      using ra by (simp_all add: unat_plus)
    have "\<not> touched Z len a" "\<not> touched Z len (a + 24)" "\<not> touched Z len (a + 32)"
      using ti(1,2) [of a] ti(1,2) [of "a + 24"] ti(1,2) [of "a + 32"] d u ra(3) by auto
    then show ?thesis using fr by simp
  qed
  have other: "arena_inv s' L' b (F' b)" if b: "b \<in> set as" for b
  proof (cases "b = Z")
    case True
    then show ?thesis using az b by simp
  next
    case False
    from ai [OF b] have rb: "(b, mem s b) \<in> set (mapped s)" "unat b + unat (mem s b) < 2 ^ 64"
      "56 < unat (mem s b)" by (simp_all add: arena_inv_def)
    from regions_ok_disjoint [OF ro rb(1) reg False]
    have d: "unat b + unat (mem s b) \<le> unat Z \<or> unat Z + unat len \<le> unat b" .
    have "arena_inv s' L' b (F b)"
    proof (rule arena_inv_frame [OF ai [OF b]])
      show "(b, mem s b) \<in> set (mapped s')" using rb flds by simp
      show "mem s' x = mem s x" if "x = b \<or> touched b (mem s b) x" for x
      proof (rule fr)
        from that have "unat b \<le> unat x \<and> unat x < unat b + unat (mem s b)"
          using touched_inside(1,2) [OF _ rb(2,3), of x] rb(3) by auto
        with d ti(1,2) [of x] show "\<not> touched Z len x" by auto
      qed
      show "p \<in> set L" if "p \<in> set L'" "unat b + 40 \<le> unat p" "unat p < unat b + unat (mem s b)"
        for p using L' [OF that(1)] that(2,3) d by auto
    qed
    then show ?thesis using F' [OF False] by simp
  qed
  have "lives_mapped s' L'"
    unfolding lives_mapped_def
  proof
    fix p assume "p \<in> set L'"
    from L' [OF this] show "\<exists>r\<in>set (mapped s').
        unat (fst r) + 56 \<le> unat p \<and> unat p < unat (fst r) + unat (snd r)"
    proof
      assume "p \<in> set L"
      with lm show ?thesis unfolding lives_mapped_def flds by blast
    next
      assume "unat Z + 56 \<le> unat p \<and> unat p < unat Z + unat len"
      with reg show ?thesis unfolding flds by force
    qed
  qed
  moreover have "path (mem s') 24 (arena_head s') as"
    unfolding flds using pa hdr by (subst path_cong [where m = "mem s"]) auto
  moreover have "prevs_ok (mem s') as"
    using pv hdr by (subst prevs_ok_cong [where m = "mem s"]) auto
  moreover have "tail_ok s' as" if "tail_ok s as"
    using that hdr unfolding tail_ok_def flds by auto
  ultimately show ?thesis
    unfolding heap_inv_def flds using pg ro ini other by auto
qed

section \<open>Allocation, arena by arena\<close>

lemma first_fit_decomp:
  assumes fit: "sz \<le> largest (map snd fl)" and sz0: "sz \<noteq> 0"
  shows "\<exists>h hs rest. fl = takeWhile (small sz) fl @ (h, hs) # rest \<and> sz \<le> hs"
proof -
  have ne: "fl \<noteq> []"
  proof
    assume "fl = []"
    with fit have "sz \<le> 0" by simp
    with sz0 show False by simp
  qed
  then have "largest (map snd fl) \<in> set (map snd fl)" by (intro largest_in) simp
  then have "largest (map snd fl) \<in> snd ` set fl" by (simp only: set_map)
  then obtain x where x: "largest (map snd fl) = snd x" "x \<in> set fl" by (rule imageE)
  with fit have "\<not> small sz x" by (cases x) (simp add: small_def)
  with x(2) have "dropWhile (small sz) fl \<noteq> []" by auto
  then obtain y rest where d: "dropWhile (small sz) fl = y # rest" by (cases "dropWhile (small sz) fl") auto
  from hd_dropWhile [of "small sz" fl] d have ny: "\<not> small sz y" by simp
  obtain h hs where y: "y = (h, hs)" by (cases y)
  have "fl = takeWhile (small sz) fl @ dropWhile (small sz) fl" by simp
  with d y have "fl = takeWhile (small sz) fl @ (h, hs) # rest" by simp
  moreover from ny y have "sz \<le> hs" by (simp add: small_def)
  ultimately show ?thesis by blast
qed

lemma take_chunk_listed:
  assumes inv: "heap_inv s L as F" and a: "a \<in> set as"
    and fit: "sz \<le> mem s (a + 8)" and sz0: "sz \<noteq> 0"
  shows "\<exists>h hs rest s'. F a = takeWhile (small sz) (F a) @ (h, hs) # rest \<and> sz \<le> hs \<and>
           take_chunk a sz s = ret (h + 16, s') \<and> h + 16 \<noteq> 0 \<and>
           heap_inv s' ((h + 16) # L) as
             (F(a := taken_list (takeWhile (small sz) (F a)) h hs rest sz)) \<and>
           same_but s s' (touched a (mem s a)) \<and>
           mem s' h = (if 16 < hs - sz then sz else hs) \<and>
           ucast (mem s' (h + 8)) = TALLOC_MAGIC"
proof -
  let ?pre = "takeWhile (small sz) (F a)"
  from inv a have ai: "arena_inv s L a (F a)" by (simp add: heap_inv_def)
  then have reg: "(a, mem s a) \<in> set (mapped s)" "unat a + unat (mem s a) < 2 ^ 64"
    and gaps: "gaps_ok (unat a + 40) (unat a + unat (mem s a)) (F a)"
    and mx: "mem s (a + 8) = largest (map snd (F a))"
    by (simp_all add: arena_inv_def)
  from first_fit_decomp [OF fit [unfolded mx] sz0]
  obtain h hs rest where d: "F a = ?pre @ (h, hs) # rest" and le: "sz \<le> hs" by blast
  have sm: "\<forall>x\<in>set ?pre. small sz x" by (auto dest: set_takeWhileD)
  from ai have ai': "arena_inv s L a (?pre @ (h, hs) # rest)" using d by simp
  from take_chunk_at [OF ai' sm le]
  obtain s' where run: "take_chunk a sz s = ret (h + 16, s')"
    and inv': "arena_inv s' ((h + 16) # L) a (taken_list ?pre h hs rest sz)"
    and sb: "same_but s s' (touched a (mem s a))"
    and hd: "mem s' h = (if 16 < hs - sz then sz else hs)" "ucast (mem s' (h + 8)) = TALLOC_MAGIC"
    by blast
  have "(h, hs) \<in> set (F a)" by (subst d) simp
  from gaps_ok_bounds [OF gaps this]
  have b: "unat a + 40 \<le> unat h" "unat h + 16 + unat hs \<le> unat a + unat (mem s a)" by simp_all
  have "hs \<noteq> 0" using le sz0 by auto
  then have hs0: "0 < unat hs" by (simp add: unat_gt_0)
  have uh: "unat (h + 16) = unat h + 16" using b reg by (simp add: unat_plus)
  then have nz: "h + 16 \<noteq> 0" by (auto simp: word_unat_eq_iff)
  have "heap_inv s' ((h + 16) # L) as (F(a := taken_list ?pre h hs rest sz))"
  proof (rule heap_inv_touch [OF inv reg(1) sb])
    show "p \<in> set L \<or> (unat a + 56 \<le> unat p \<and> unat p < unat a + unat (mem s a))"
      if "p \<in> set ((h + 16) # L)" for p
      using that uh b hs0 by auto
    show "arena_inv s' ((h + 16) # L) a ((F(a := taken_list ?pre h hs rest sz)) a)"
      using inv' by simp
    show "(F(a := taken_list ?pre h hs rest sz)) b = F b" if "b \<noteq> a" for b
      using that by simp
  qed
  with d le run nz sb hd show ?thesis by blast
qed

lemma aligned_room:
  assumes "unat (A::64 word) mod P = 0" "64 \<le> P" "P dvd 2 ^ 64"
  shows "unat A + P \<le> 2 ^ 64"
proof -
  have lt: "unat A < 2 ^ 64" using unat_lt_2p64 [of A] by simp
  have "P dvd unat A" using assms(1) by (simp add: dvd_eq_mod_eq_0)
  with assms(3) have "P dvd 2 ^ 64 - unat A" by (rule dvd_diff_nat)
  moreover have "0 < (2::nat) ^ 64 - unat A" using lt by simp
  ultimately have "P \<le> 2 ^ 64 - unat A" by (rule dvd_imp_le)
  then show ?thesis using lt by simp
qed

lemma aligned_offset:
  assumes "unat (A::64 word) mod P = 0" "64 \<le> P" "P dvd 2 ^ 64" "unat k < 64"
  shows "unat (A + k) = unat A + unat k" "unat (A + k) mod P = unat k"
proof -
  from aligned_room [OF assms(1-3)] assms(2,4)
  show u: "unat (A + k) = unat A + unat k" by (simp add: unat_plus)
  have "(unat A + unat k) mod P = (unat A mod P + unat k mod P) mod P"
    by (rule mod_add_eq [symmetric])
  also have "\<dots> = unat k" using assms by simp
  finally show "unat (A + k) mod P = unat k" using u by simp
qed

lemma path_snoc:
  assumes "path m off p (xs @ [t])"
    and "\<forall>x\<in>set xs. m' (x + off) = m (x + off)"
    and "m' (t + off) = z" "z \<noteq> 0" "m' (z + off) = 0"
  shows "path m' off p (xs @ [t, z])"
proof -
  from assms(1) obtain r where r: "seg m off p xs r" "path m off r [t]"
    unfolding path_append by blast
  then have "seg m' off p xs r" using assms(2) by (subst seg_cong [where m = m]) auto
  moreover from r(2) have "r = t" "t \<noteq> 0" by auto
  then have "path m' off r [t, z]" using assms(3,4,5) by simp
  ultimately show ?thesis unfolding path_append by blast
qed

lemma prevs_ok_snoc:
  assumes "prevs_ok m (xs @ [t])"
    and "\<forall>x\<in>set (xs @ [t]). m' (x + 32) = m (x + 32)" "m' (z + 32) = t"
  shows "prevs_ok m' (xs @ [t, z])"
  using assms
proof (induction xs)
  case Nil
  then show ?case by simp
next
  case (Cons x xs)
  then have ih: "prevs_ok m' (xs @ [t, z])" by (cases xs) auto
  show ?case
  proof (cases xs)
    case Nil
    with Cons.prems ih show ?thesis by simp
  next
    case (Cons y ys)
    with \<open>prevs_ok m ((x # xs) @ [t])\<close> \<open>\<forall>x\<in>set ((x # xs) @ [t]). m' (x + 32) = m (x + 32)\<close> ih
    show ?thesis by simp
  qed
qed

lemma heap_inv_plan [simp]:
  "heap_inv (s\<lparr>mmap_plan := pl\<rparr>) L as F = heap_inv s L as F"
  by (simp add: heap_inv_def arena_inv_def tail_ok_def lives_mapped_def)

lemma region_free_disjoint:
  assumes "region_free s Z len" "(b, l) \<in> set (mapped s)"
  shows "unat Z + unat len \<le> unat b \<or> unat b + unat l \<le> unat Z"
  using assms by (auto simp: region_free_def list_all_iff)

lemma alloc_more_space_cases:
  assumes inv: "heap_inv s L as F" and ini: "initialized s \<noteq> 0"
    and run: "TAlloc_alloc_more_space sz s = ret (Z, s')"
  shows "(Z = 0 \<and> heap_inv s' L as F \<and> mem s' = mem s \<and> arena_head s' = arena_head s \<and>
            mapped s' = mapped s) \<or>
         (Z \<noteq> 0 \<and> (\<exists>len. unat sz + 56 \<le> unat len \<and> (Z, len) \<in> set (mapped s') \<and>
            arena_inv s' L Z [(Z + 40, len - 56)] \<and> Z \<notin> set as \<and>
            arena_head s' = arena_head s \<and> (\<forall>a\<in>set as. mem s' (a + 8) = mem s (a + 8)) \<and>
            (if arena_tail s = last as
             then heap_inv s' L (as @ [Z]) (F(Z := [(Z + 40, len - 56)]))
             else heap_inv s' L as F)))"
proof -
  let ?P = "unat (os_pagesize s)"
  from inv ini have pg: "page_ok (os_pagesize s)" and ro: "regions_ok ?P (set (mapped s))"
    and lm: "lives_mapped s L" and pa: "path (mem s) 24 (arena_head s) as"
    and ai: "\<And>a. a \<in> set as \<Longrightarrow> arena_inv s L a (F a)" and pv: "prevs_ok (mem s) as"
    and ps: "pagesize s = os_pagesize s" "minallocsize s = os_pagesize s * 1000"
    and ne: "as \<noteq> []" and tl: "tail_ok s as"
    by (simp_all add: heap_inv_def)
  from pg have P: "64 \<le> ?P" "?P dvd 2 ^ 64" by (simp_all add: page_ok_def)
  from run obtain A s1 where cr: "TAlloc_create_arena sz s = ret (A, s1)"
    and rest: "(if A = 0 then ret (0, s1)
         else bnd (store (arena_next_at (arena_tail s1)) A s1) (\<lambda>s2.
              bnd (store (arena_prev_at A) (arena_tail s2) s2) (\<lambda>s3.
              ret (A, s3\<lparr>arena_tail := A\<rparr>)))) = ret (Z, s')"
    by (auto simp: TAlloc_alloc_more_space_def bnd_ret_iff)
  from create_arena_cases [OF _ _ cr] pg ps
  have "(A = 0 \<and> (s1 = s \<or> s1 = s\<lparr>mmap_plan := tl (mmap_plan s)\<rparr>)) \<or>
         (A \<noteq> 0 \<and> (\<exists>len. region_free s A len \<and> unat sz + 56 \<le> unat len \<and> 64000 \<le> unat len \<and>
            s1 = s\<lparr>mmap_plan := tl (mmap_plan s), mapped := (A, len) # mapped s,
                   mem := fresh_arena (mem s) A len\<rparr>))"
    by simp
  then consider (fail) "A = 0" "s1 = s \<or> s1 = s\<lparr>mmap_plan := tl (mmap_plan s)\<rparr>"
    | (ok) len where "A \<noteq> 0" "region_free s A len" "unat sz + 56 \<le> unat len"
      "64000 \<le> unat len"
      "s1 = s\<lparr>mmap_plan := tl (mmap_plan s), mapped := (A, len) # mapped s,
                   mem := fresh_arena (mem s) A len\<rparr>"
    by blast
  then show ?thesis
  proof cases
    case fail
    with rest inv show ?thesis by auto
  next
    case (ok len)
    then have A0: "A \<noteq> 0" and rf: "region_free s A len" and big: "unat sz + 56 \<le> unat len"
      "64000 \<le> unat len"
      and s1: "s1 = s\<lparr>mmap_plan := tl (mmap_plan s), mapped := (A, len) # mapped s,
                   mem := fresh_arena (mem s) A len\<rparr>"
      by simp_all
    let ?T = "arena_tail s"
    let ?m1 = "fresh_arena (mem s) A len"
    from rf have ra: "unat A mod ?P = 0" "unat A + unat len < 2 ^ 64"
      by (simp_all add: region_free_def)
    have uA: "unat (A + 8) = unat A + 8" "unat (A + 16) = unat A + 16"
      "unat (A + 24) = unat A + 24" "unat (A + 32) = unat A + 32"
      "unat (A + 40) = unat A + 40" "unat (A + 48) = unat A + 48"
      using ra big by (simp_all add: unat_plus)
    have t1: "arena_tail s1 = ?T" by (simp add: s1)
    have vA: "valid_access s1 (A + 32)"
      using uA ra big by (intro valid_in_region [where b = A and l = len]) (simp_all add: s1)
    from rest A0 t1 vA have vT: "valid_access s1 (?T + 24)"
      by (auto simp: store_def field_defs bnd_ret_iff split: if_splits)
    define m' where "m' = ?m1(?T + 24 := A, A + 32 := ?T)"
    from rest A0 t1 vA vT have ZA: "Z = A"
      and s': "s' = s\<lparr>mmap_plan := tl (mmap_plan s), mapped := (A, len) # mapped s,
                   mem := m', arena_tail := A\<rparr>"
      by (auto simp: store_valid field_defs s1 m'_def)
    \<comment> \<open>the listed arenas are untouched, but for the link of the tail\<close>
    have regb: "(b, mem s b) \<in> set (mapped s) \<and> unat b + unat (mem s b) < 2 ^ 64 \<and>
        56 < unat (mem s b) \<and>
        (unat A + unat len \<le> unat b \<or> unat b + unat (mem s b) \<le> unat A)" if "b \<in> set as" for b
    proof -
      from ai [OF that] have rb: "(b, mem s b) \<in> set (mapped s)"
        "unat b + unat (mem s b) < 2 ^ 64" "56 < unat (mem s b)"
        by (simp_all add: arena_inv_def)
      with region_free_disjoint [OF rf rb(1)] show ?thesis by simp
    qed
    have nin: "A \<notin> set as"
    proof
      assume "A \<in> set as"
      from regb [OF this] big show False by auto
    qed
    have old: "m' x = mem s x"
      if "b \<in> set as" "unat b \<le> unat x" "unat x < unat b + unat (mem s b)" "x \<noteq> ?T + 24" for b x
    proof -
      from regb [OF that(1)] that(2,3)
      have out: "\<not> (unat A \<le> unat x \<and> unat x < unat A + unat len)" by auto
      then have "x \<noteq> A" "x \<noteq> A + 8" "x \<noteq> A + 16" "x \<noteq> A + 24" "x \<noteq> A + 32" "x \<noteq> A + 40"
        "x \<noteq> A + 48"
        using uA big by (auto simp: word_unat_eq_iff)
      then show ?thesis using out that(4) by (auto simp: m'_def fresh_arena_def zeroed_def)
    qed
    have hdr_in: "unat b \<le> unat (b + k) \<and> unat (b + k) < unat b + unat (mem s b)"
      if "b \<in> set as" "unat k < 56" for b k
    proof -
      from regb [OF that(1)] that(2) have "unat (b + k) = unat b + unat k"
        by (simp add: unat_plus)
      with regb [OF that(1)] that(2) show ?thesis by simp
    qed
    \<comment> \<open>the new arena\<close>
    have tail_cell: "?T + 24 \<noteq> A + k" if "unat k < 64" "k \<noteq> 24" for k
    proof (cases "?T = last as")
      case True
      then have Tas: "?T \<in> set as" using ne by simp
      from hdr_in [OF Tas, of 24] regb [OF Tas]
      have "\<not> (unat A \<le> unat (?T + 24) \<and> unat (?T + 24) < unat A + unat len)" by auto
      moreover have "unat (A + k) = unat A + unat k" using ra big that by (simp add: unat_plus)
      ultimately show ?thesis using big that by (auto simp: word_unat_eq_iff)
    next
      case False
      with tl have al: "unat ?T mod ?P = 0" by (simp add: tail_ok_def)
      have "unat (?T + 24) mod ?P = unat (24 :: 64 word)"
        using al P by (rule aligned_offset) simp
      moreover have "unat (A + k) mod ?P = unat k"
        using ra(1) P that(1) by (rule aligned_offset)
      moreover have "unat k \<noteq> 24" using that(2) by (auto simp: word_unat_eq_iff)
      ultimately show ?thesis by auto
    qed
    have newc: "m' A = len" "m' (A + 8) = len - 56" "m' (A + 16) = A + 40"
      "m' (A + 40) = len - 56" "m' (A + 48) = 0"
      using tail_cell [of 0] tail_cell [of 8] tail_cell [of 16] tail_cell [of 40] tail_cell [of 48]
      by (simp_all add: m'_def fresh_arena_def)
    have link: "m' (?T + 24) = A" "m' (A + 32) = ?T"
      using tail_cell [of 32] by (simp_all add: m'_def)
    have newnext: "m' (A + 24) = 0" if "?T \<noteq> A"
      using that by (simp add: m'_def fresh_arena_def)
    have liveout: "\<not> (unat A + 40 \<le> unat p \<and> unat p < unat A + unat len)" if "p \<in> set L" for p
    proof -
      from lm that obtain r where r: "r \<in> set (mapped s)" "unat (fst r) + 56 \<le> unat p"
        "unat p < unat (fst r) + unat (snd r)" unfolding lives_mapped_def by blast
      from r(1) have "(fst r, snd r) \<in> set (mapped s)" by simp
      from region_free_disjoint [OF rf this] r(2,3) show ?thesis by auto
    qed
    have newinv: "arena_inv s' L A [(A + 40, len - 56)]"
    proof (rule fresh_arena_inv)
      show "(A, len) \<in> set (mapped s')" by (simp add: s')
      show "unat A + unat len < 2 ^ 64" by (rule ra)
      show "56 < unat len" using big by simp
      show "mem s' A = len" "mem s' (A + 8) = len - 56" "mem s' (A + 16) = A + 40"
        "mem s' (A + 40) = len - 56" "mem s' (A + 48) = 0"
        using newc by (simp_all add: s')
      show "\<not> (unat A + 40 \<le> unat p \<and> unat p < unat A + unat len)" if "p \<in> set L" for p
        using liveout [OF that] .
    qed
    have ro': "regions_ok ?P (set (mapped s'))"
    proof -
      have "A \<noteq> 0 \<and> unat A mod ?P = 0 \<and> unat A + unat len < 2 ^ 64 \<and> 56 < unat len"
        using A0 ra big by simp
      moreover have "unat A + unat len \<le> unat (fst r) \<or> unat (fst r) + unat (snd r) \<le> unat A"
        if "r \<in> set (mapped s)" for r
        using region_free_disjoint [OF rf, of "fst r" "snd r"] that by simp
      ultimately show ?thesis
        using ro unfolding regions_ok_def by (auto simp: s')
    qed
    have lm': "lives_mapped s' L"
      using lm unfolding lives_mapped_def by (auto simp: s')
    have flds: "os_pagesize s' = os_pagesize s" "arena_head s' = arena_head s"
      "initialized s' = initialized s" "pagesize s' = pagesize s"
      "minallocsize s' = minallocsize s" "arena_tail s' = A" "mem s' = m'"
      by (simp_all add: s')
    have tc: "?T = last as \<and> b = ?T"
      if b: "b \<in> set as" and x: "unat b \<le> unat (?T + 24)"
        "unat (?T + 24) < unat b + unat (mem s b)" for b
    proof (cases "?T = last as")
      case True
      then have Tas: "?T \<in> set as" using ne by simp
      have "b = ?T"
      proof (rule ccontr)
        assume "b \<noteq> ?T"
        from regb [OF b] regb [OF Tas] have "(b, mem s b) \<in> set (mapped s)"
          "(?T, mem s ?T) \<in> set (mapped s)" by simp_all
        from regions_ok_disjoint [OF ro this \<open>b \<noteq> ?T\<close>] hdr_in [OF Tas, of 24] x
        show False by auto
      qed
      with True show ?thesis by simp
    next
      case False
      with tl have al: "unat ?T mod ?P = 0"
        and d: "unat ?T + 40 \<le> unat b \<or> unat b + unat (mem s b) \<le> unat ?T"
        using b by (auto simp: tail_ok_def)
      have "unat (?T + 24) = unat ?T + unat (24 :: 64 word)"
        using al P by (rule aligned_offset) simp
      with d x show ?thesis by auto
    qed
    have oldinv: "arena_inv s' L b (F b)" if b: "b \<in> set as" for b
    proof (rule arena_inv_frame [OF ai [OF b]])
      show "(b, mem s b) \<in> set (mapped s')" using regb [OF b] by (simp add: s')
      show "mem s' x = mem s x" if "x = b \<or> touched b (mem s b) x" for x
        unfolding flds
      proof (rule old [OF b])
        from regb [OF b] have rb: "unat b + unat (mem s b) < 2 ^ 64" "56 < unat (mem s b)"
          by simp_all
        from that show in1: "unat b \<le> unat x" and in2: "unat x < unat b + unat (mem s b)"
          using touched_inside(1,2) [OF _ rb, of x] rb by auto
        show "x \<noteq> ?T + 24"
        proof
          assume e: "x = ?T + 24"
          from tc [OF b] in1 in2 e have bT: "b = ?T" by simp
          have u24: "unat (b + 24) = unat b + 24" using rb by (simp add: unat_plus)
          from that show False
          proof
            assume "x = b"
            with e bT have "b + 24 = b" by simp
            with u24 show False by simp
          next
            assume "touched b (mem s b) x"
            from touched_inside(4) [OF this rb] e bT show False by simp
          qed
        qed
      qed
      show "p \<in> set L" if "p \<in> set L" for p by (rule that)
    qed
    have hdrs: "m' b = mem s b \<and> m' (b + 8) = mem s (b + 8) \<and> m' (b + 32) = mem s (b + 32) \<and>
        (b \<noteq> ?T \<longrightarrow> m' (b + 24) = mem s (b + 24))" if b: "b \<in> set as" for b
    proof -
      from regb [OF b] have rb: "unat b + unat (mem s b) < 2 ^ 64" "56 < unat (mem s b)"
        by simp_all
      have u: "unat (b + 8) = unat b + 8" "unat (b + 24) = unat b + 24"
        "unat (b + 32) = unat b + 32"
        using rb by (simp_all add: unat_plus)
      have ne24: "b + k \<noteq> ?T + 24" if "unat k < 56" "k \<noteq> 24 \<or> b \<noteq> ?T" for k
      proof
        assume e: "b + k = ?T + 24"
        from tc [OF b] hdr_in [OF b that(1)] e have "b = ?T" by simp
        with e that(2) show False by simp
      qed
      have "m' (b + k) = mem s (b + k)" if "unat k < 56" "k \<noteq> 24 \<or> b \<noteq> ?T" for k
        using hdr_in [OF b that(1)] ne24 [OF that] by (intro old [OF b]) simp_all
      from this [of 0] this [of 8] this [of 32] this [of 24] show ?thesis by simp
    qed
    have common: "unat sz + 56 \<le> unat len \<and> (Z, len) \<in> set (mapped s') \<and>
            arena_inv s' L Z [(Z + 40, len - 56)] \<and> Z \<notin> set as \<and>
            arena_head s' = arena_head s \<and> (\<forall>a\<in>set as. mem s' (a + 8) = mem s (a + 8))"
      using big newinv nin hdrs ZA by (simp add: flds) (simp add: s')
    from inv ini have base: "page_ok (os_pagesize s')" "initialized s' \<noteq> 0"
      "pagesize s' = os_pagesize s'" "minallocsize s' = os_pagesize s' * 1000"
      using pg ps by (simp_all add: flds)
    have "if ?T = last as then heap_inv s' L (as @ [A]) (F(A := [(A + 40, len - 56)]))
          else heap_inv s' L as F"
    proof (cases "?T = last as")
      case True
      then have Tas: "?T \<in> set as" using ne by simp
      then have TA: "?T \<noteq> A" using nin by auto
      have as: "as = butlast as @ [?T]" using ne True by simp
      have di: "distinct as" using pa by (rule path_distinct)
      have nb: "x \<noteq> ?T" if "x \<in> set (butlast as)" for x
        using di that as by (metis distinct_butlast not_distinct_conv_prefix
            append_butlast_last_id distinct_append disjoint_iff set_subset_Cons
            list.set_intros(1) True ne)
      have "path (mem s') 24 (arena_head s') (butlast as @ [?T, A])"
      proof (rule path_snoc [where m = "mem s"])
        show "path (mem s) 24 (arena_head s') (butlast as @ [?T])"
          using pa as by (simp add: flds)
        show "\<forall>x\<in>set (butlast as). mem s' (x + 24) = mem s (x + 24)"
          using hdrs nb by (auto simp: flds dest: in_set_butlastD)
        show "mem s' (?T + 24) = A" using link by (simp add: flds)
        show "A \<noteq> 0" by (rule A0)
        show "mem s' (A + 24) = 0" using newnext [OF TA] by (simp add: flds)
      qed
      then have pa': "path (mem s') 24 (arena_head s') (as @ [A])"
        using as by (metis append.assoc append_Cons append_Nil)
      have "prevs_ok (mem s') (butlast as @ [?T, A])"
      proof (rule prevs_ok_snoc [where m = "mem s"])
        show "prevs_ok (mem s) (butlast as @ [?T])" using pv as by simp
        show "\<forall>x\<in>set (butlast as @ [?T]). mem s' (x + 32) = mem s (x + 32)"
          using hdrs as by (metis flds(7))
        show "mem s' (A + 32) = ?T" using link by (simp add: flds)
      qed
      then have pv': "prevs_ok (mem s') (as @ [A])"
        using as by (metis append.assoc append_Cons append_Nil)
      have "heap_inv s' L (as @ [A]) (F(A := [(A + 40, len - 56)]))"
        unfolding heap_inv_def
        using base ro' lm' pa' pv' oldinv newinv nin
        by (auto simp: tail_ok_def flds)
      with True show ?thesis by simp
    next
      case False
      with tl have det: "\<forall>a\<in>set as. unat ?T + 40 \<le> unat a \<or> unat a + unat (mem s a) \<le> unat ?T"
        by (simp add: tail_ok_def)
      have nT: "b \<noteq> ?T" if "b \<in> set as" for b
        using det regb [OF that] that by auto
      have pa': "path (mem s') 24 (arena_head s') as"
        using pa hdrs nT by (subst path_cong [where m = "mem s"]) (auto simp: flds)
      have pv': "prevs_ok (mem s') as"
        using pv hdrs by (subst prevs_ok_cong [where m = "mem s"]) (auto simp: flds)
      have "unat A + 40 \<le> unat a \<or> unat a + unat (m' a) \<le> unat A" if "a \<in> set as" for a
        using regb [OF that] hdrs [OF that] big by auto
      then have "tail_ok s' as"
        unfolding tail_ok_def flds using A0 ra by blast
      then have "heap_inv s' L as F"
        unfolding heap_inv_def
        using base ro' lm' pa' pv' oldinv ne by (auto simp: flds(1))
      with False show ?thesis by simp
    qed
    with common A0 ZA show ?thesis by auto
  qed
qed

section \<open>The choice of the arena, and initialization\<close>

lemma heap_inv_arena:
  assumes "heap_inv s L as F" "a \<in> set as"
  shows "arena_inv s L a (F a)" "(a, mem s a) \<in> set (mapped s)"
    "unat a + unat (mem s a) < 2 ^ 64" "56 < unat (mem s a)" "a \<noteq> 0"
proof -
  from assms show ai: "arena_inv s L a (F a)" by (simp add: heap_inv_def)
  then show r: "(a, mem s a) \<in> set (mapped s)" "unat a + unat (mem s a) < 2 ^ 64"
    "56 < unat (mem s a)" by (simp_all add: arena_inv_def)
  from assms have "regions_ok (unat (os_pagesize s)) (set (mapped s))" by (simp add: heap_inv_def)
  from regions_ok_in(1) [OF this r(1)] show "a \<noteq> 0" .
qed

lemma heap_inv_disjoint:
  assumes "heap_inv s L as F" "a \<in> set as" "b \<in> set as" "a \<noteq> b"
  shows "unat a + unat (mem s a) \<le> unat b \<or> unat b + unat (mem s b) \<le> unat a"
proof -
  from assms have "regions_ok (unat (os_pagesize s)) (set (mapped s))" by (simp add: heap_inv_def)
  from regions_ok_disjoint [OF this heap_inv_arena(2) [OF assms(1,2)]
      heap_inv_arena(2) [OF assms(1,3)] assms(4)]
  show ?thesis .
qed

lemma untouched_headers:
  assumes inv: "heap_inv s L as F" and reg: "(Z, len) \<in> set (mapped s)"
    and sb: "same_but s s' (touched Z len)" and b: "b \<in> set as"
  shows "mem s' b = mem s b" "b \<noteq> Z \<Longrightarrow> mem s' (b + 8) = mem s (b + 8)"
proof -
  from inv have ro: "regions_ok (unat (os_pagesize s)) (set (mapped s))" by (simp add: heap_inv_def)
  note rz = regions_ok_in [OF ro reg]
  note rb = heap_inv_arena [OF inv b]
  from sb have fr: "\<And>x. \<not> touched Z len x \<Longrightarrow> mem s' x = mem s x"
    by (simp add: same_but_def)
  have nb: "\<not> touched Z len b"
  proof (cases "b = Z")
    case True
    then show ?thesis using touched_inside(3) [OF _ rz(3,4), of Z] by blast
  next
    case False
    from regions_ok_disjoint [OF ro rb(2) reg False] touched_inside(1,2) [OF _ rz(3,4), of b]
      rb(4) show ?thesis by auto
  qed
  then show "mem s' b = mem s b" by (rule fr)
  show "mem s' (b + 8) = mem s (b + 8)" if "b \<noteq> Z"
  proof (rule fr)
    have "unat (b + 8) = unat b + 8" using rb by (simp add: unat_plus)
    with regions_ok_disjoint [OF ro rb(2) reg that] touched_inside(1,2) [OF _ rz(3,4), of "b + 8"]
      rb(4) show "\<not> touched Z len (b + 8)" by auto
  qed
qed

lemma accommodating_found:
  assumes "accommodating m n as = r" "r \<noteq> 0"
  shows "\<exists>P Q. as = P @ r # Q \<and> (\<forall>b\<in>set P. m (b + 8) < n) \<and> \<not> m (r + 8) < n"
proof -
  let ?p = "\<lambda>a. m (a + 8) < n"
  from assms obtain Q where d: "dropWhile ?p as = r # Q"
    by (auto simp: accommodating_def split: list.splits)
  have "as = takeWhile ?p as @ r # Q" using d takeWhile_dropWhile_id [of ?p as] by simp
  moreover have "\<forall>b\<in>set (takeWhile ?p as). ?p b" by (auto dest: set_takeWhileD)
  moreover have "\<not> ?p r" using hd_dropWhile [of ?p as] d by simp
  ultimately show ?thesis by blast
qed

lemma accommodating_none:
  assumes "accommodating m n as = 0" "0 \<notin> set as"
  shows "\<forall>b\<in>set as. m (b + 8) < n"
proof -
  let ?p = "\<lambda>a. m (a + 8) < n"
  have "dropWhile ?p as = []"
  proof (cases "dropWhile ?p as")
    case Nil
    then show ?thesis .
  next
    case (Cons x xs)
    with assms(1) have "x = 0" by (simp add: accommodating_def)
    moreover have "x \<in> set as" using Cons by (metis list.set_intros(1) set_dropWhileD)
    ultimately show ?thesis using assms(2) by simp
  qed
  then show ?thesis by (simp add: dropWhile_eq_Nil_conv)
qed


lemma accommodating_run:
  assumes inv: "heap_inv s L as F"
  shows "accommodating_from (arena_head s) n s = ret (accommodating (mem s) n as)"
proof (rule accommodating_from_spec)
  from inv show "path (mem s) 24 (arena_head s) as" by (simp add: heap_inv_def)
  show "\<forall>a\<in>set as. valid_access s (a + 8) \<and> valid_access s (a + 24)"
  proof
    fix a assume a: "a \<in> set as"
    note r = heap_inv_arena [OF inv a]
    have "unat (a + 8) = unat a + 8" "unat (a + 24) = unat a + 24"
      using r by (simp_all add: unat_plus)
    then show "valid_access s (a + 8) \<and> valid_access s (a + 24)"
      using r by (auto intro!: arena_inv_valid [OF r(1)])
  qed
qed

lemma heap_inv_uninit:
  assumes "heap_inv s L as F" "initialized s = 0"
  shows "as = []" "L = []" "mapped s = []" "arena_head s = 0" "arena_tail s = 0"
proof -
  from assms show m: "mapped s = []" and h: "arena_head s = 0" and "arena_tail s = 0"
    by (simp_all add: heap_inv_def)
  from assms have "path (mem s) 24 (arena_head s) as" unfolding heap_inv_def by blast
  with h show "as = []" by (cases as) auto
  from assms have "lives_mapped s L" by (simp add: heap_inv_def)
  with m show "L = []" by (cases L) (auto simp: lives_mapped_def)
qed

lemma initialize_cases:
  assumes inv: "heap_inv s L as F" and un: "initialized s = 0"
    and run: "TAlloc_initialize s = ret s'"
  shows "pagesize s' = os_pagesize s' \<and> minallocsize s' = os_pagesize s' * 1000 \<and>
         (\<exists>as' F'. heap_inv s' L as' F')"
proof -
  let ?P = "unat (os_pagesize s)"
  note u = heap_inv_uninit [OF inv un]
  from inv have pg: "page_ok (os_pagesize s)" by (simp add: heap_inv_def)
  then have P: "64 \<le> ?P" "?P dvd 2 ^ 64" "?P * 1000 < 2 ^ 64" by (simp_all add: page_ok_def)
  let ?len = "os_pagesize s * 1000"
  have ulen: "unat ?len = ?P * 1000" using P(3) by (simp add: unat_word_ariths)
  let ?s0 = "s\<lparr>pagesize := os_pagesize s, minallocsize := ?len\<rparr>"
  obtain A s1 where mm: "mmap ?len ?s0 = (A, s1)" by (cases "mmap ?len ?s0")
  from mmap_cases [OF mm] show ?thesis
  proof (elim disjE conjE)
    assume f: "A = MAP_FAILED" "s1 = ?s0\<lparr>mmap_plan := tl (mmap_plan ?s0)\<rparr>"
    with run mm have s': "s' = s\<lparr>pagesize := os_pagesize s, minallocsize := ?len,
        mmap_plan := tl (mmap_plan s), arena_head := 0\<rparr>"
      by (simp add: TAlloc_initialize_def Let_def const_defs)
    have "heap_inv s' L [] F"
      using pg un u by (simp add: s' heap_inv_def regions_ok_def lives_mapped_def)
    then show ?thesis by (auto simp: s')
  next
    assume A: "A \<noteq> MAP_FAILED" and rf: "region_free ?s0 A ?len"
      and s1: "s1 = ?s0\<lparr>mmap_plan := tl (mmap_plan ?s0), mapped := (A, ?len) # mapped ?s0,
                 mem := zeroed (mem ?s0) A ?len\<rparr>"
    from rf have ra: "A \<noteq> 0" "unat A mod ?P = 0" "unat A + unat ?len < 2 ^ 64"
      by (simp_all add: region_free_def)
    let ?s3 = "s1\<lparr>arena_head := A, arena_tail := A\<rparr>"
    have ia: "TAlloc_init_arena A ?len ?s3 =
       ret (?s3\<lparr>mem := (mem ?s3)(A := ?len, A + 8 := ?len - 56, A + 24 := 0, A + 32 := 0,
          A + 40 := ?len - 56, A + 48 := 0, A + 16 := A + 40)\<rparr>)"
      using ra ulen P(1) by (intro init_arena_spec) (simp_all add: s1)
    define m' where "m' = fresh_arena (mem s) A ?len"
    from run mm A ia have s': "s' = s\<lparr>pagesize := os_pagesize s, minallocsize := ?len,
        mmap_plan := tl (mmap_plan s), mapped := [(A, ?len)], mem := m',
        arena_head := A, arena_tail := A, initialized := 1\<rparr>"
      by (auto simp: TAlloc_initialize_def Let_def const_defs s1 u fresh_arena_def m'_def)
    have uA: "unat (A + 8) = unat A + 8" "unat (A + 16) = unat A + 16"
      "unat (A + 24) = unat A + 24" "unat (A + 32) = unat A + 32"
      "unat (A + 40) = unat A + 40" "unat (A + 48) = unat A + 48"
      using ra ulen P(1) by (simp_all add: unat_plus)
    have c: "m' A = ?len" "m' (A + 8) = ?len - 56" "m' (A + 16) = A + 40"
      "m' (A + 40) = ?len - 56" "m' (A + 48) = 0" "m' (A + 24) = 0"
      by (simp_all add: m'_def fresh_arena_def)
    have ai: "arena_inv s' L A [(A + 40, ?len - 56)]"
    proof (rule fresh_arena_inv)
      show "(A, ?len) \<in> set (mapped s')" by (simp add: s')
      show "unat A + unat ?len < 2 ^ 64" by (rule ra)
      show "56 < unat ?len" using ulen P(1) by simp
      show "mem s' A = ?len" "mem s' (A + 8) = ?len - 56" "mem s' (A + 16) = A + 40"
        "mem s' (A + 40) = ?len - 56" "mem s' (A + 48) = 0"
        using c by (simp_all add: s')
      show "\<not> (unat A + 40 \<le> unat p \<and> unat p < unat A + unat ?len)" if "p \<in> set L" for p
        using that u by simp
    qed
    have "heap_inv s' L [A] (F(A := [(A + 40, ?len - 56)]))"
      unfolding heap_inv_def
      using pg ra ulen P(1) c ai u
      by (simp add: s' regions_ok_def lives_mapped_def tail_ok_def)
    then show ?thesis by (auto simp: s')
  qed
qed

lemma alloc_more_space_uninit:
  assumes inv: "heap_inv s L as F" and un: "initialized s = 0"
    and ps: "pagesize s = os_pagesize s" "minallocsize s = os_pagesize s * 1000"
    and run: "TAlloc_alloc_more_space sz s = ret (Z, s')"
  shows "Z = 0 \<and> heap_inv s' L as F"
proof -
  let ?P = "unat (os_pagesize s)"
  note u = heap_inv_uninit [OF inv un]
  from inv have pg: "page_ok (os_pagesize s)" by (simp add: heap_inv_def)
  then have P: "64 \<le> ?P" by (simp add: page_ok_def)
  from run obtain A s1 where cr: "TAlloc_create_arena sz s = ret (A, s1)"
    and rest: "(if A = 0 then ret (0, s1)
         else bnd (store (arena_next_at (arena_tail s1)) A s1) (\<lambda>s2.
              bnd (store (arena_prev_at A) (arena_tail s2) s2) (\<lambda>s3.
              ret (A, s3\<lparr>arena_tail := A\<rparr>)))) = ret (Z, s')"
    by (auto simp: TAlloc_alloc_more_space_def bnd_ret_iff)
  from create_arena_cases [OF _ _ cr] pg ps
  have "(A = 0 \<and> (s1 = s \<or> s1 = s\<lparr>mmap_plan := tl (mmap_plan s)\<rparr>)) \<or>
         (A \<noteq> 0 \<and> (\<exists>len. region_free s A len \<and> unat sz + 56 \<le> unat len \<and> 64000 \<le> unat len \<and>
            s1 = s\<lparr>mmap_plan := tl (mmap_plan s), mapped := (A, len) # mapped s,
                   mem := fresh_arena (mem s) A len\<rparr>))"
    by simp
  then consider (fail) "A = 0" "s1 = s \<or> s1 = s\<lparr>mmap_plan := tl (mmap_plan s)\<rparr>"
    | (ok) len where "A \<noteq> 0" "region_free s A len"
      "s1 = s\<lparr>mmap_plan := tl (mmap_plan s), mapped := (A, len) # mapped s,
                   mem := fresh_arena (mem s) A len\<rparr>"
    by blast
  then show ?thesis
  proof cases
    case fail
    with rest inv show ?thesis by auto
  next
    case (ok len)
    from ok(2) have "unat A mod ?P = 0" "A \<noteq> 0" by (simp_all add: region_free_def)
    then have "?P \<le> unat A"
      by (metis dvd_imp_le dvd_eq_mod_eq_0 unat_gt_0)
    then have "\<not> valid_access s1 24"
      using P by (simp add: ok(3) u valid_access_def in_region_def)
    with rest ok(1) have False
      by (simp add: ok(3) u store_def field_defs)
    then show ?thesis ..
  qed
qed

section \<open>The cases of an allocation\<close>

lemma malloc_listed:
  assumes inv: "heap_inv s L as F" and as: "as = P @ a # Q"
    and P: "\<forall>b\<in>set P. mem s (b + 8) < n" and fit: "n \<le> mem s (a + 8)" and n0: "n \<noteq> 0"
  shows "\<exists>p s1 F1. take_chunk a n s = ret (p, s1) \<and> p \<noteq> 0 \<and> heap_inv s1 (p # L) as F1 \<and>
           taken_at s1 n p as F1 \<and> initialized s1 = initialized s"
proof -
  have a: "a \<in> set as" using as by simp
  from take_chunk_listed [OF inv a fit n0]
  obtain h hs rest s1 where d: "F a = takeWhile (small n) (F a) @ (h, hs) # rest"
    and le: "n \<le> hs" and run: "take_chunk a n s = ret (h + 16, s1)" and nz: "h + 16 \<noteq> 0"
    and inv1: "heap_inv s1 ((h + 16) # L) as
             (F(a := taken_list (takeWhile (small n) (F a)) h hs rest n))"
    and sb: "same_but s s1 (touched a (mem s a))"
    and hd: "mem s1 h = (if 16 < hs - n then n else hs)" "ucast (mem s1 (h + 8)) = TALLOC_MAGIC"
    by blast
  let ?pre = "takeWhile (small n) (F a)"
  note ra = heap_inv_arena [OF inv a]
  have di: "distinct as" using inv unfolding heap_inv_def by (blast intro: path_distinct)
  have Pm: "\<forall>b\<in>set P. mem s1 (b + 8) < n"
  proof
    fix b assume b: "b \<in> set P"
    then have "b \<in> set as" "b \<noteq> a" using as di by auto
    from untouched_headers(2) [OF inv ra(2) sb this] P b show "mem s1 (b + 8) < n" by simp
  qed
  have ma: "mem s1 a = mem s a" by (rule untouched_headers(1) [OF inv ra(2) sb a])
  from ra(1) have "gaps_ok (unat a + 40) (unat a + unat (mem s a)) (F a)"
    by (simp add: arena_inv_def)
  then have g: "gaps_ok (unat a + 40) (unat a + unat (mem s1 a)) (?pre @ (h, hs) # rest)"
    using d ma by simp
  have sm: "\<forall>x\<in>set ?pre. small n x" by (auto dest: set_takeWhileD)
  have "taken_at s1 n (h + 16) as (F(a := taken_list ?pre h hs rest n))"
    unfolding taken_at_def
    using as Pm sm le g hd by (intro exI [of _ a] exI [of _ P] exI [of _ Q] exI [of _ ?pre]
        exI [of _ h] exI [of _ hs] exI [of _ rest]) simp
  moreover from sb have "initialized s1 = initialized s"
    by (metis same_but_def select_convs(5) surjective update_convs(6))
  ultimately show ?thesis using run nz inv1 by blast
qed

lemma malloc_new_arena:
  assumes inv: "heap_inv s L as F" and ini: "initialized s \<noteq> 0" and n0: "n \<noteq> 0"
    and full: "\<forall>b\<in>set as. mem s (b + 8) < n"
    and am: "TAlloc_alloc_more_space n s = ret (Z, s0)" and Z0: "Z \<noteq> 0"
  shows "\<exists>p s1 as1 F1. take_chunk Z n s0 = ret (p, s1) \<and> p \<noteq> 0 \<and> heap_inv s1 (p # L) as1 F1 \<and>
           (taken_at s1 n p as1 F1 \<or> outside_all s1 p as1) \<and> initialized s1 \<noteq> 0"
proof -
  from alloc_more_space_cases [OF inv ini am] Z0
  obtain len where big: "unat n + 56 \<le> unat len" and reg: "(Z, len) \<in> set (mapped s0)"
    and zi: "arena_inv s0 L Z [(Z + 40, len - 56)]" and nin: "Z \<notin> set as"
    and keep: "\<forall>a\<in>set as. mem s0 (a + 8) = mem s (a + 8)"
    and hi: "if arena_tail s = last as
             then heap_inv s0 L (as @ [Z]) (F(Z := [(Z + 40, len - 56)]))
             else heap_inv s0 L as F"
    by auto
  from zi have mz: "mem s0 Z = len" "mem s0 (Z + 8) = len - 56"
    "unat Z + unat len < 2 ^ 64"
  proof -
    from zi have r: "(Z, mem s0 Z) \<in> set (mapped s0)" "unat Z + unat (mem s0 Z) < 2 ^ 64"
      "mem s0 (Z + 8) = largest (map snd [(Z + 40, len - 56)])"
      by (simp_all add: arena_inv_def)
    from hi have "regions_ok (unat (os_pagesize s0)) (set (mapped s0))"
      by (auto simp: heap_inv_def split: if_splits)
    from regions_ok_same [OF this r(1) reg] show "mem s0 Z = len" .
    with r show "mem s0 (Z + 8) = len - 56" "unat Z + unat len < 2 ^ 64"
      by (simp_all add: largest_Cons max_def)
  qed
  have ul: "unat (len - 56) = unat len - 56" using big by (simp add: unat_minus)
  have fit: "n \<le> len - 56" using big ul by (simp add: word_le_nat_alt)
  have ane: "as \<noteq> []" using inv ini by (simp add: heap_inv_def)
  have i0: "initialized s0 \<noteq> 0"
  proof
    assume u: "initialized s0 = 0"
    show False
    proof (cases "arena_tail s = last as")
      case True
      with hi have "heap_inv s0 L (as @ [Z]) (F(Z := [(Z + 40, len - 56)]))" by simp
      from heap_inv_uninit(1) [OF this u] show False by simp
    next
      case False
      with hi have "heap_inv s0 L as F" by simp
      from heap_inv_uninit(1) [OF this u] ane show False by simp
    qed
  qed
  show ?thesis
  proof (cases "arena_tail s = last as")
    case True
    with hi have inv0: "heap_inv s0 L (as @ [Z]) (F(Z := [(Z + 40, len - 56)]))" by simp
    have "\<exists>p s1 F1. take_chunk Z n s0 = ret (p, s1) \<and> p \<noteq> 0 \<and>
        heap_inv s1 (p # L) (as @ [Z]) F1 \<and> taken_at s1 n p (as @ [Z]) F1 \<and>
        initialized s1 = initialized s0"
    proof (rule malloc_listed [OF inv0])
      show "as @ [Z] = as @ Z # []" by simp
      show "\<forall>b\<in>set as. mem s0 (b + 8) < n" using full keep by simp
      show "n \<le> mem s0 (Z + 8)" using fit mz by simp
      show "n \<noteq> 0" by (rule n0)
    qed
    with i0 show ?thesis by metis
  next
    case False
    with hi have inv0: "heap_inv s0 L as F" by simp
    have zi': "arena_inv s0 L Z ([] @ (Z + 40, len - 56) # [])" using zi by simp
    from take_chunk_at [OF zi' _ fit]
    obtain s1 where run: "take_chunk Z n s0 = ret (Z + 40 + 16, s1)"
      and sb: "same_but s0 s1 (touched Z (mem s0 Z))"
      by auto
    have up: "unat (Z + 40 + 16) = unat Z + 56"
      using mz big by (simp add: unat_plus)
    then have nz: "Z + 40 + 16 \<noteq> 0" by (auto simp: word_unat_eq_iff)
    have n1: "0 < unat n" using n0 by (simp add: unat_gt_0)
    have inv1: "heap_inv s1 ((Z + 40 + 16) # L) as F"
    proof (rule heap_inv_touch [OF inv0 reg sb [unfolded mz]])
      show "p \<in> set L \<or> (unat Z + 56 \<le> unat p \<and> unat p < unat Z + unat len)"
        if "p \<in> set ((Z + 40 + 16) # L)" for p
        using that up big n1 by auto
      show "arena_inv s1 ((Z + 40 + 16) # L) Z (F Z)" if "Z \<in> set as"
        using that nin by simp
      show "F b = F b" for b by simp
    qed
    have "outside_all s1 (Z + 40 + 16) as"
      unfolding outside_all_def
    proof
      fix a assume a: "a \<in> set as"
      from inv0 have ro: "regions_ok (unat (os_pagesize s0)) (set (mapped s0))"
        by (simp add: heap_inv_def)
      note ra = heap_inv_arena [OF inv0 a]
      have "a \<noteq> Z" using a nin by auto
      from regions_ok_disjoint [OF ro ra(2) reg this]
      have d: "unat a + unat (mem s0 a) \<le> unat Z \<or> unat Z + unat len \<le> unat a" .
      have "mem s1 a = mem s0 a"
        by (rule untouched_headers(1) [OF inv0 reg sb [unfolded mz] a])
      with d up big show "\<not> (unat a + 40 \<le> unat (Z + 40 + 16) \<and>
          unat (Z + 40 + 16) < unat a + unat (mem s1 a))" by auto
    qed
    moreover from sb have "initialized s1 = initialized s0"
      by (metis same_but_def select_convs(5) surjective update_convs(6))
    ultimately show ?thesis using run nz inv1 i0 by metis
  qed
qed

lemma malloc_detail:
  assumes inv: "heap_inv s L as F" and run: "TAlloc_malloc n s = ret (p, s1)"
  shows "if p = 0 then \<exists>as1 F1. heap_inv s1 L as1 F1
         else \<exists>as1 F1. heap_inv s1 (p # L) as1 F1 \<and> initialized s1 \<noteq> 0 \<and>
                (taken_at s1 n p as1 F1 \<or> outside_all s1 p as1)"
proof -
  from run obtain s0 where i: "(if initialized s = 0 then TAlloc_initialize s else ret s) = ret s0"
    and rest: "(if n = 0 then ret (0, s0)
         else bnd (TAlloc_get_accommodating_arena n s0) (\<lambda>(arena, s).
              if arena = 0 then ret (0, s) else take_chunk arena n s)) = ret (p, s1)"
    by (auto simp: TAlloc_malloc_def bnd_ret_iff)
  have "pagesize s0 = os_pagesize s0 \<and> minallocsize s0 = os_pagesize s0 * 1000 \<and>
      (\<exists>as0 F0. heap_inv s0 L as0 F0)"
  proof (cases "initialized s = 0")
    case True
    with i have "TAlloc_initialize s = ret s0" by simp
    from initialize_cases [OF inv True this] show ?thesis .
  next
    case False
    with i inv show ?thesis by (auto simp: heap_inv_def)
  qed
  then obtain as0 F0 where ps: "pagesize s0 = os_pagesize s0"
      "minallocsize s0 = os_pagesize s0 * 1000"
    and inv0: "heap_inv s0 L as0 F0" by blast
  show ?thesis
  proof (cases "n = 0")
    case True
    with rest inv0 show ?thesis by auto
  next
    case n0: False
    let ?r = "accommodating (mem s0) n as0"
    from rest n0 accommodating_run [OF inv0, of n]
    obtain a s0' where ga: "(if ?r = 0 then TAlloc_alloc_more_space n s0 else ret (?r, s0)) = ret (a, s0')"
      and tk: "(if a = 0 then ret (0, s0') else take_chunk a n s0') = ret (p, s1)"
      by (auto simp: TAlloc_get_accommodating_arena_def bnd_ret_iff)
    have nz: "0 \<notin> set as0"
      using inv0 unfolding heap_inv_def by (blast dest: path_nonzero)
    show ?thesis
    proof (cases "?r = 0")
      case False
      with ga have a: "a = ?r" "s0' = s0" by auto
      from accommodating_found [OF refl False]
      obtain P Q where d: "as0 = P @ ?r # Q" "\<forall>b\<in>set P. mem s0 (b + 8) < n"
        "\<not> mem s0 (?r + 8) < n" by blast
      from malloc_listed [OF inv0 d(1,2) _ n0] d(3)
      obtain p' s1' F1 where "take_chunk ?r n s0 = ret (p', s1')" "p' \<noteq> 0"
        "heap_inv s1' (p' # L) as0 F1" "taken_at s1' n p' as0 F1" "initialized s1' = initialized s0"
        by (auto simp: not_less)
      moreover have "initialized s0 \<noteq> 0"
      proof
        assume "initialized s0 = 0"
        from heap_inv_uninit(1) [OF inv0 this] d(1) show False by simp
      qed
      ultimately show ?thesis using tk a False by auto
    next
      case True
      with ga have am: "TAlloc_alloc_more_space n s0 = ret (a, s0')" by simp
      from accommodating_none [OF True nz] have full: "\<forall>b\<in>set as0. mem s0 (b + 8) < n" .
      show ?thesis
      proof (cases "initialized s0 = 0")
        case un: True
        from alloc_more_space_uninit [OF inv0 un ps am] tk show ?thesis by auto
      next
        case ini: False
        show ?thesis
        proof (cases "a = 0")
          case True
          with alloc_more_space_cases [OF inv0 ini am] tk show ?thesis by auto
        next
          case False
          from malloc_new_arena [OF inv0 ini n0 full am False] tk False
          show ?thesis by auto
        qed
      qed
    qed
  qed
qed

section \<open>The release of an arena and the invariant\<close>

lemma prevs_ok_append:
  "prevs_ok m (xs @ ys) =
     (prevs_ok m xs \<and> prevs_ok m ys \<and> (xs \<noteq> [] \<and> ys \<noteq> [] \<longrightarrow> m (hd ys + 32) = last xs))"
proof (induction xs)
  case Nil
  show ?case by simp
next
  case (Cons a xs)
  note IH = Cons.IH
  show ?case
  proof (cases xs)
    case Nil
    then show ?thesis by (cases ys) auto
  next
    case (Cons b bs)
    with IH show ?thesis by auto
  qed
qed

lemma prevs_ok_Cons:
  "prevs_ok m (a # ys) = (prevs_ok m ys \<and> (ys \<noteq> [] \<longrightarrow> m (hd ys + 32) = a))"
  by (cases ys) auto

lemma heap_inv_munmap_plan [simp]:
  "heap_inv (s\<lparr>munmap_plan := pl\<rparr>) L as F = heap_inv s L as F"
  "heap_inv (s\<lparr>munmap_log := lg\<rparr>) L as F = heap_inv s L as F"
  by (simp_all add: heap_inv_def arena_inv_def tail_ok_def lives_mapped_def)

lemma fully_free_no_lives:
  assumes ai: "arena_inv s L a fl" and ff: "mem s a = mem s (a + 8) + 56"
    and p: "p \<in> set L"
  shows "\<not> (unat a + 40 \<le> unat p \<and> unat p < unat a + unat (mem s a))"
proof
  let ?lo = "unat a + 40"
  let ?hi = "unat a + unat (mem s a)"
  assume pin: "?lo \<le> unat p \<and> unat p < ?hi"
  from ai have reg: "?hi < 2 ^ 64" "56 < unat (mem s a)"
    and gaps: "gaps_ok ?lo ?hi fl"
    and mx: "mem s (a + 8) = largest (map snd fl)"
    and lv: "lives_ok (mem s) L ?lo ?hi fl"
    by (simp_all add: arena_inv_def)
  have "mem s (a + 8) = mem s a - 56" using ff by simp
  then have um: "unat (mem s (a + 8)) = unat (mem s a) - 56"
    using reg by (simp add: unat_minus)
  have ne: "fl \<noteq> []"
  proof
    assume "fl = []"
    with mx um reg show False by simp
  qed
  then have "largest (map snd fl) \<in> set (map snd fl)" by (intro largest_in) simp
  then have "largest (map snd fl) \<in> snd ` set fl" by (simp only: set_map)
  then obtain x where x: "largest (map snd fl) = snd x" "x \<in> set fl" by (rule imageE)
  from gaps_ok_lower [OF gaps x(2)] have b: "?lo \<le> unat (fst x)"
    "unat (fst x) + 16 + unat (snd x) \<le> ?hi" by simp_all
  have sx: "unat (snd x) = unat (mem s a) - 56" using x(1) mx um by simp
  from lv p pin have "?lo + 16 \<le> unat p"
    "unat (fst x) + 16 + unat (snd x) \<le> unat p - 16 \<or>
     unat p + unat (mem s (p - 16)) \<le> unat (fst x)"
    using x(2) unfolding lives_ok_def by blast+
  with b sx pin reg show False by auto
qed

lemma free_arena_spec:
  assumes inv: "heap_inv s L as F" and a: "a \<in> set as" and nh: "a \<noteq> arena_head s"
    and ff: "mem s a = mem s (a + 8) + 56"
    and run: "TAlloc_free_arena a s = ret s'"
  shows "(heap_inv s' L as F \<and> mem s' = mem s \<and> mapped s' = mapped s) \<or>
         (heap_inv s' L (remove1 a as) F \<and> mapped s' = removeAll (a, mem s a) (mapped s) \<and>
          (\<forall>b\<in>set as. b \<noteq> a \<longrightarrow> mem s' b = mem s b \<and> mem s' (b + 8) = mem s (b + 8)))"
proof -
  let ?P = "unat (os_pagesize s)"
  let ?len = "mem s a"
  from inv have pg: "page_ok (os_pagesize s)" and ro: "regions_ok ?P (set (mapped s))"
    and lm: "lives_mapped s L" and pa: "path (mem s) 24 (arena_head s) as"
    and pv: "prevs_ok (mem s) as"
    and ini: "if initialized s = 0 then arena_head s = 0 \<and> arena_tail s = 0 \<and> mapped s = []
       else pagesize s = os_pagesize s \<and> minallocsize s = os_pagesize s * 1000 \<and>
            as \<noteq> [] \<and> tail_ok s as"
    by (simp_all add: heap_inv_def)
  note ra = heap_inv_arena [OF inv a]
  have i1: "initialized s \<noteq> 0"
  proof
    assume "initialized s = 0"
    from heap_inv_uninit(1) [OF inv this] a show False by simp
  qed
  with ini have tl: "tail_ok s as" by simp
  have di: "distinct as" using pa by (rule path_distinct)
  from a obtain xs ys where as: "as = xs @ a # ys" by (auto simp: in_set_conv_decomp)
  have hd: "arena_head s = hd as" using pa a by (cases as) auto
  have xne: "xs \<noteq> []" using nh hd as by (cases xs) auto
  define pr where "pr = last xs"
  define xs0 where "xs0 = butlast xs"
  have xs: "xs = xs0 @ [pr]" using xne by (simp add: pr_def xs0_def)
  have as2: "as = xs0 @ pr # a # ys" using as xs by simp
  define nx where "nx = mem s (a + 24)"
  from pa obtain r where sg: "seg (mem s) 24 (arena_head s) xs0 r"
    and p2: "path (mem s) 24 r (pr # a # ys)"
    unfolding as2 path_append by blast
  from p2 have rp: "r = pr" and p3: "mem s (pr + 24) = a" and p4: "path (mem s) 24 nx ys"
    by (simp_all add: nx_def)
  have prv: "mem s (a + 32) = pr"
    using pv unfolding as2 by (simp add: prevs_ok_append prevs_ok_Cons [of _ pr])
  have mem_as: "pr \<in> set as" "pr \<noteq> a" "set ys \<subseteq> set as" "a \<notin> set ys" "pr \<notin> set ys"
    "pr \<notin> set xs0" "a \<notin> set xs0" "set xs0 \<subseteq> set as"
    using di unfolding as2 by auto
  have nxys: "nx \<noteq> 0 \<Longrightarrow> ys \<noteq> [] \<and> nx = hd ys" "nx = 0 \<Longrightarrow> ys = []"
    using p4 by (cases ys; auto)+
  have nz: "0 \<notin> set as" using pa by (rule path_nonzero)
  have xnx: "x \<noteq> nx" if "x \<in> set as" "x \<notin> set ys" for x
  proof (cases "nx = 0")
    case True
    with that(1) nz show ?thesis by auto
  next
    case False
    from nxys(1) [OF this] have "nx \<in> set ys" by simp
    with that(2) show ?thesis by auto
  qed
  have ua: "unat (a + 24) = unat a + 24" "unat (a + 32) = unat a + 32" "unat (a + 8) = unat a + 8"
    using ra by (simp_all add: unat_plus)
  have va: "valid_access s a" "valid_access s (a + 24)" "valid_access s (a + 32)"
    using ua ra by (auto intro!: arena_inv_valid [OF ra(1)])
  \<comment> \<open>header cells of listed arenas\<close>
  have cell: "unat b \<le> unat (b + k) \<and> unat (b + k) + 8 \<le> unat b + unat (mem s b) \<and>
      unat (b + k) = unat b + unat k" if "b \<in> set as" "unat k \<le> 40" for b k
  proof -
    note rb = heap_inv_arena [OF inv that(1)]
    have "unat (b + k) = unat b + unat k" using rb that(2) by (simp add: unat_plus)
    then show ?thesis using rb that(2) by simp
  qed
  have cell_ne: "b + k \<noteq> c + j" if "b \<in> set as" "c \<in> set as" "unat k \<le> 40" "unat j \<le> 40"
    "b \<noteq> c \<or> k \<noteq> j" for b c k j
  proof (cases "b = c")
    case True
    with that(5) show ?thesis by simp
  next
    case False
    from heap_inv_disjoint [OF inv that(1,2) False] cell [OF that(1,3)] cell [OF that(2,4)]
    show ?thesis by (auto simp: word_unat_eq_iff)
  qed
  obtain rc s1 where mu: "munmap a ?len s = (rc, s1)" by (cases "munmap a ?len s")
  have "TAlloc_free_arena a s = (if rc = 0 then
       bnd (store (pr + 24) nx s1) (\<lambda>s. if nx \<noteq> 0 then store (nx + 32) pr s else ret s)
     else ret s1)"
    using va prv mu unfolding TAlloc_free_arena_def field_defs nx_def
    by (simp add: load_valid)
  with run have run2: "(if rc = 0 then
       bnd (store (pr + 24) nx s1) (\<lambda>s. if nx \<noteq> 0 then store (nx + 32) pr s else ret s)
     else ret s1) = ret s'"
    by simp
  show ?thesis
  proof (cases "munmap_succeeds s")
    case False
    with mu have "rc = - 1" "s1 = s\<lparr>munmap_plan := tl (munmap_plan s),
        munmap_log := (a, ?len) # munmap_log s\<rparr>"
      by (simp_all add: munmap_def Let_def)
    with run2 have "s' = s\<lparr>munmap_plan := tl (munmap_plan s),
        munmap_log := (a, ?len) # munmap_log s\<rparr>" by auto
    then show ?thesis using inv by simp
  next
    case True
    with mu have rc: "rc = 0" and s1: "s1 = s\<lparr>munmap_plan := tl (munmap_plan s),
        munmap_log := (a, ?len) # munmap_log s, mapped := removeAll (a, ?len) (mapped s)\<rparr>"
      by (simp_all add: munmap_def Let_def)
    have still: "(b, mem s b) \<in> set (mapped s1)" if "b \<in> set as" "b \<noteq> a" for b
      using heap_inv_arena(2) [OF inv that(1)] that(2) by (simp add: s1)
    have v1: "valid_access s1 (b + k)" if "b \<in> set as" "b \<noteq> a" "unat k \<le> 40" for b k
      using cell [OF that(1,3)] by (intro valid_in_region [OF still [OF that(1,2)]]) simp_all
    have vpr: "valid_access s1 (pr + 24)" using mem_as by (intro v1) simp_all
    have nxas: "nx \<in> set as" "nx \<noteq> a" if "nx \<noteq> 0"
      using nxys(1) [OF that] mem_as by (auto simp: subset_iff)
    define m' where "m' = (if nx \<noteq> 0 then (mem s)(pr + 24 := nx, nx + 32 := pr)
                           else (mem s)(pr + 24 := nx))"
    have ms1: "mem s1 = mem s" by (simp add: s1)
    have s': "s' = s1\<lparr>mem := m'\<rparr>"
    proof (cases "nx = 0")
      case True
      with run2 rc vpr show ?thesis by (auto simp: store_valid m'_def ms1)
    next
      case False
      have "valid_access s1 (nx + 32)" using nxas [OF False] by (intro v1) simp_all
      with run2 rc vpr False show ?thesis by (auto simp: store_valid m'_def ms1)
    qed
    have frame: "m' x = mem s x" if "x \<noteq> pr + 24" "nx \<noteq> 0 \<longrightarrow> x \<noteq> nx + 32" for x
      using that by (simp add: m'_def)
    have links: "m' (pr + 24) = nx" "nx \<noteq> 0 \<longrightarrow> m' (nx + 32) = pr"
    proof -
      have "nx \<noteq> 0 \<longrightarrow> pr + 24 \<noteq> nx + 32"
        using cell_ne [of pr nx 24 32] nxas mem_as by auto
      then show "m' (pr + 24) = nx" by (simp add: m'_def)
      show "nx \<noteq> 0 \<longrightarrow> m' (nx + 32) = pr" by (simp add: m'_def)
    qed
    \<comment> \<open>cells that keep their value\<close>
    have keep: "m' (b + k) = mem s (b + k)"
      if "b \<in> set as" "unat k \<le> 40" "\<not> (b = pr \<and> k = 24)" "\<not> (b = nx \<and> k = 32)" for b k
    proof (rule frame)
      show "b + k \<noteq> pr + 24"
        using cell_ne [OF that(1) mem_as(1) that(2), of 24] that(3) by auto
      show "nx \<noteq> 0 \<longrightarrow> b + k \<noteq> nx + 32"
      proof
        assume "nx \<noteq> 0"
        from cell_ne [OF that(1) nxas(1) [OF this] that(2), of 32] that(4)
        show "b + k \<noteq> nx + 32" by auto
      qed
    qed
    have inv_b: "arena_inv s' L b (F b)" if b: "b \<in> set as" "b \<noteq> a" for b
    proof (rule arena_inv_frame [OF heap_inv_arena(1) [OF inv b(1)]])
      show "(b, mem s b) \<in> set (mapped s')" using still [OF b] by (simp add: s')
      note rb = heap_inv_arena [OF inv b(1)]
      show "mem s' x = mem s x" if x: "x = b \<or> touched b (mem s b) x" for x
      proof -
        have xin: "unat b \<le> unat x" "unat x < unat b + unat (mem s b)"
          using x touched_inside(1,2) [OF _ rb(3,4), of x] rb(4) by auto
        have xn: "x \<noteq> b + 24" "x \<noteq> b + 32"
          using x touched_inside(4,5) [OF _ rb(3,4), of x] cell [OF b(1), of 24]
            cell [OF b(1), of 32]
          by (auto simp: word_unat_eq_iff)
        have "x \<noteq> c + k" if c: "c \<in> set as" "unat k \<le> 40" "k = 24 \<or> k = 32" for c k
        proof (cases "c = b")
          case True
          with xn c(3) show ?thesis by auto
        next
          case False
          from heap_inv_disjoint [OF inv c(1) b(1) False] cell [OF c(1,2)] xin
          show ?thesis by (auto simp: word_unat_eq_iff)
        qed
        from this [OF mem_as(1), of 24] this [of nx 32] nxas
        have "x \<noteq> pr + 24" "nx \<noteq> 0 \<longrightarrow> x \<noteq> nx + 32" by auto
        then show ?thesis by (simp add: s' frame)
      qed
      show "p \<in> set L" if "p \<in> set L" for p by (rule that)
    qed
    have flds: "os_pagesize s' = os_pagesize s" "arena_head s' = arena_head s"
      "initialized s' = initialized s" "pagesize s' = pagesize s"
      "minallocsize s' = minallocsize s" "arena_tail s' = arena_tail s" "mem s' = m'"
      "mapped s' = removeAll (a, ?len) (mapped s)"
      by (simp_all add: s' s1)
    have rem: "remove1 a as = xs0 @ pr # ys"
      unfolding as2 using mem_as by (simp add: remove1_append)
    have ro': "regions_ok ?P (set (mapped s'))"
      using ro unfolding regions_ok_def flds by auto
    have lm': "lives_mapped s' L"
      unfolding lives_mapped_def
    proof
      fix p assume p: "p \<in> set L"
      with lm obtain r where r: "r \<in> set (mapped s)" "unat (fst r) + 56 \<le> unat p"
        "unat p < unat (fst r) + unat (snd r)" unfolding lives_mapped_def by blast
      have "r \<noteq> (a, ?len)"
      proof
        assume "r = (a, ?len)"
        with r fully_free_no_lives [OF ra(1) ff p] show False by simp
      qed
      with r show "\<exists>r\<in>set (mapped s'). unat (fst r) + 56 \<le> unat p \<and>
          unat p < unat (fst r) + unat (snd r)"
        unfolding flds by auto
    qed
    have pa': "path (mem s') 24 (arena_head s') (xs0 @ pr # ys)"
      unfolding path_append flds
    proof (intro exI [of _ pr] conjI)
      have "seg m' 24 (arena_head s) xs0 pr = seg (mem s) 24 (arena_head s) xs0 pr"
      proof (rule seg_cong, rule ballI)
        fix x assume x: "x \<in> set xs0"
        then have "x \<in> set as" "x \<noteq> pr" "x \<notin> set ys"
          using mem_as di unfolding as2 by auto
        then show "m' (x + 24) = mem s (x + 24)" using xnx [of x] by (intro keep) auto
      qed
      with sg rp show "seg m' 24 (arena_head s) xs0 pr" by simp
      have "path m' 24 nx ys = path (mem s) 24 nx ys"
      proof (rule path_cong, rule ballI)
        fix y assume y: "y \<in> set ys"
        then have "y \<in> set as" "y \<noteq> pr" using mem_as by auto
        then show "m' (y + 24) = mem s (y + 24)" by (intro keep) auto
      qed
      moreover from p2 have "pr \<noteq> 0" by auto
      ultimately show "path m' 24 pr (pr # ys)" using p4 links(1) by simp
    qed
    have pv': "prevs_ok (mem s') (xs0 @ pr # ys)"
    proof -
      from pv have o: "prevs_ok (mem s) (xs0 @ [pr])" "prevs_ok (mem s) ys"
        unfolding as2
        by (simp_all add: prevs_ok_append [of _ xs0 "pr # a # ys"]
            prevs_ok_append [of _ xs0 "[pr]"] prevs_ok_Cons [of _ pr] prevs_ok_Cons [of _ a])
      have "prevs_ok m' (xs0 @ [pr]) = prevs_ok (mem s) (xs0 @ [pr])"
      proof (rule prevs_ok_cong, rule ballI)
        fix x assume "x \<in> set (xs0 @ [pr])"
        then have "x \<in> set as" "x \<notin> set ys"
          using mem_as di unfolding as2 by auto
        then show "m' (x + 32) = mem s (x + 32)" using xnx [of x] by (intro keep) auto
      qed
      moreover have "prevs_ok m' ys"
      proof (cases ys)
        case Nil
        then show ?thesis by simp
      next
        case (Cons y ys')
        have t: "prevs_ok m' ys' = prevs_ok (mem s) ys'"
        proof (rule prevs_ok_cong, rule ballI)
          fix x assume "x \<in> set ys'"
          then have "x \<in> set as" "x \<noteq> nx"
            using mem_as nxys di Cons p4 unfolding as2 by auto
          then show "m' (x + 32) = mem s (x + 32)" by (intro keep) auto
        qed
        have h: "ys' \<noteq> [] \<longrightarrow> m' (hd ys' + 32) = mem s (hd ys' + 32)"
        proof
          assume "ys' \<noteq> []"
          then have "hd ys' \<in> set ys'" by simp
          then have "hd ys' \<in> set as" "hd ys' \<noteq> nx"
            using mem_as nxys di Cons p4 unfolding as2 by auto
          then show "m' (hd ys' + 32) = mem s (hd ys' + 32)" by (intro keep) auto
        qed
        from o(2) Cons have "prevs_ok (mem s) (y # ys')" by simp
        then have "prevs_ok (mem s) ys' \<and> (ys' \<noteq> [] \<longrightarrow> mem s (hd ys' + 32) = y)"
          unfolding prevs_ok_Cons [of _ y] by blast
        with t h have "prevs_ok m' (y # ys')" unfolding prevs_ok_Cons [of _ y] by simp
        with Cons show ?thesis by simp
      qed
      moreover have "ys \<noteq> [] \<longrightarrow> m' (hd ys + 32) = pr"
      proof
        assume "ys \<noteq> []"
        then obtain y ys' where "ys = y # ys'" by (cases ys) auto
        with p4 have "nx \<noteq> 0" "hd ys = nx" by auto
        with links(2) show "m' (hd ys + 32) = pr" by simp
      qed
      ultimately have "prevs_ok m' ((xs0 @ [pr]) @ ys)"
        using o(1) unfolding prevs_ok_append [of _ "xs0 @ [pr]" ys] by simp
      then show ?thesis by (simp add: flds)
    qed
    have sizes: "m' b = mem s b \<and> m' (b + 8) = mem s (b + 8)" if "b \<in> set as" for b
      using keep [OF that, of 0] keep [OF that, of 8] by simp
    have tl': "tail_ok s' (xs0 @ pr # ys)"
    proof (cases "arena_tail s = last as \<and> ys \<noteq> []")
      case True
      then have "arena_tail s = last (xs0 @ pr # ys)" unfolding as2 by simp
      then show ?thesis by (simp add: tail_ok_def flds)
    next
      case False
      have det: "arena_tail s \<noteq> 0 \<and> unat (arena_tail s) mod ?P = 0 \<and>
          (\<forall>b\<in>set (xs0 @ pr # ys). unat (arena_tail s) + 40 \<le> unat b \<or>
             unat b + unat (mem s b) \<le> unat (arena_tail s))"
      proof (cases "arena_tail s = last as")
        case True
        with False have t: "arena_tail s = a" unfolding as2 by simp
        have "unat a + 40 \<le> unat b \<or> unat b + unat (mem s b) \<le> unat a"
          if "b \<in> set (xs0 @ pr # ys)" for b
        proof -
          from that have b: "b \<in> set as" "b \<noteq> a" using mem_as unfolding as2 by auto
          from heap_inv_disjoint [OF inv a b(1)] b(2) ra(4) show ?thesis by auto
        qed
        with t ra(5) regions_ok_in(2) [OF ro ra(2)] show ?thesis by simp
      next
        case False
        with tl show ?thesis unfolding tail_ok_def as2 by auto
      qed
      have "unat (arena_tail s) + 40 \<le> unat b \<or> unat b + unat (m' b) \<le> unat (arena_tail s)"
        if b: "b \<in> set (xs0 @ pr # ys)" for b
      proof -
        from b have "b \<in> set as" unfolding as2 by auto
        from sizes [OF this] det b show ?thesis by auto
      qed
      with det show ?thesis unfolding tail_ok_def flds by blast
    qed
    have i': "initialized s' \<noteq> 0" using i1 flds by simp
    have ps': "pagesize s' = os_pagesize s'" "minallocsize s' = os_pagesize s' * 1000"
      using ini i1 flds by simp_all
    have pg': "page_ok (os_pagesize s')" using pg flds by simp
    have ro'': "regions_ok (unat (os_pagesize s')) (set (mapped s'))" using ro' flds(1) by simp
    have all: "\<forall>b\<in>set (xs0 @ pr # ys). arena_inv s' L b (F b)"
    proof
      fix b assume "b \<in> set (xs0 @ pr # ys)"
      then have "b \<in> set as" "b \<noteq> a" using mem_as unfolding as2 by auto
      then show "arena_inv s' L b (F b)" by (rule inv_b)
    qed
    have "heap_inv s' L (remove1 a as) F"
      unfolding heap_inv_def rem
      using pg' ro'' lm' pa' all pv' i' ps' tl' by simp
    moreover have "\<forall>b\<in>set as. b \<noteq> a \<longrightarrow> mem s' b = mem s b \<and> mem s' (b + 8) = mem s (b + 8)"
      using sizes by (simp add: flds)
    ultimately show ?thesis using flds by simp
  qed
qed

section \<open>The cases of a deallocation\<close>

lemma heap_inv_sub:
  assumes inv: "heap_inv s L as F" and sub: "set L' \<subseteq> set L"
  shows "heap_inv s L' as F"
proof -
  have "arena_inv s L' a (F a)" if a: "a \<in> set as" for a
  proof (rule arena_inv_frame [OF heap_inv_arena(1) [OF inv a]])
    show "(a, mem s a) \<in> set (mapped s)" by (rule heap_inv_arena(2) [OF inv a])
    show "mem s x = mem s x" for x by simp
    show "p \<in> set L" if "p \<in> set L'" for p using that sub by auto
  qed
  moreover have "lives_mapped s L'"
    using inv sub unfolding heap_inv_def lives_mapped_def by blast
  ultimately show ?thesis using inv unfolding heap_inv_def by simp
qed

lemma inside_arena_nat:
  assumes "unat a + unat (mem s a) < 2 ^ 64" "56 < unat (mem s a)"
  shows "inside_arena s a p = (unat a + 40 \<le> unat p \<and> unat p < unat a + unat (mem s a))"
proof -
  have "unat (a + 40) = unat a + 40" "unat (a + mem s a) = unat a + unat (mem s a)"
    using assms by (simp_all add: unat_plus)
  then show ?thesis
    by (simp add: inside_arena_def const_defs field_defs word_le_nat_alt word_less_nat_alt)
qed

lemma owner_found:
  assumes "owner s p as = r" "r \<noteq> 0"
  shows "r \<in> set as" "inside_arena s r p"
proof -
  let ?q = "\<lambda>a. \<not> inside_arena s a p"
  from assms obtain Q where d: "dropWhile ?q as = r # Q"
    by (auto simp: owner_def split: list.splits)
  then show "r \<in> set as" by (metis list.set_intros(1) set_dropWhileD)
  from hd_dropWhile [of ?q as] d show "inside_arena s r p" by simp
qed

lemma owner_none:
  assumes "owner s p as = 0" "0 \<notin> set as"
  shows "\<forall>a\<in>set as. \<not> inside_arena s a p"
proof -
  let ?q = "\<lambda>a. \<not> inside_arena s a p"
  have "dropWhile ?q as = []"
  proof (cases "dropWhile ?q as")
    case Nil
    then show ?thesis .
  next
    case (Cons x xs)
    with assms(1) have "x = 0" by (simp add: owner_def)
    moreover have "x \<in> set as" using Cons by (metis list.set_intros(1) set_dropWhileD)
    ultimately show ?thesis using assms(2) by simp
  qed
  then show ?thesis by (simp add: dropWhile_eq_Nil_conv)
qed

lemma find_arena_run:
  assumes inv: "heap_inv s L as F"
  shows "TAlloc_find_arena p s = ret (owner s p as)"
  unfolding TAlloc_find_arena_def
proof (rule find_arena_from_spec)
  from inv show "path (mem s) 24 (arena_head s) as" by (simp add: heap_inv_def)
  show "\<forall>a\<in>set as. arena_readable s a"
  proof
    fix a assume a: "a \<in> set as"
    note r = heap_inv_arena [OF inv a]
    have "unat (a + 24) = unat a + 24" using r by (simp add: unat_plus)
    then show "arena_readable s a"
      unfolding arena_readable_def field_defs
      using r by (auto intro!: arena_inv_valid [OF r(1)])
  qed
qed

lemma free_detail:
  assumes inv: "heap_inv s L as F" and p: "p \<in> set L" and run: "TAlloc_free p s = ret s'"
  shows "(s' = s \<and> (outside_all s p as \<or> (ucast (mem s (p - 16 + 8)) :: 32 word) \<noteq> TALLOC_MAGIC)) \<or>
     (\<exists>a\<in>set as. inside s a p \<and> (ucast (mem s (p - 16 + 8)) :: 32 word) = TALLOC_MAGIC \<and>
        ((heap_inv s' (removeAll p L) as (F(a := insert_list (p - 16) (mem s (p - 16)) (F a))) \<and>
          mapped s' = mapped s \<and>
          (\<forall>b\<in>set as. mem s' b = mem s b \<and> (b \<noteq> a \<longrightarrow> mem s' (b + 8) = mem s (b + 8)))) \<or>
         (heap_inv s' (removeAll p L) (remove1 a as)
            (F(a := insert_list (p - 16) (mem s (p - 16)) (F a))) \<and>
          mapped s' = removeAll (a, mem s a) (mapped s))))"
proof -
  have i1: "initialized s \<noteq> 0"
  proof
    assume "initialized s = 0"
    from heap_inv_uninit(2) [OF inv this] p show False by simp
  qed
  have nz: "0 \<notin> set as" using inv unfolding heap_inv_def by (blast dest: path_nonzero)
  let ?r = "owner s p as"
  have "TAlloc_free p s = (if ?r = 0 then ret s
        else bnd (load_magic (p - 16) s) (\<lambda>magic.
          if magic \<noteq> TALLOC_MAGIC then ret s
          else bnd (free_insert ?r (p - 16) s) (\<lambda>s.
               bnd (release_wanted ?r s) (\<lambda>wanted.
               if wanted then TAlloc_free_arena ?r s else ret s))))"
    using i1 find_arena_run [OF inv, of p]
    unfolding TAlloc_free_def Let_def sizeof_header_def by simp
  with run have run1: "(if ?r = 0 then ret s
        else bnd (load_magic (p - 16) s) (\<lambda>magic.
          if magic \<noteq> TALLOC_MAGIC then ret s
          else bnd (free_insert ?r (p - 16) s) (\<lambda>s.
               bnd (release_wanted ?r s) (\<lambda>wanted.
               if wanted then TAlloc_free_arena ?r s else ret s)))) = ret s'"
    by simp
  show ?thesis
  proof (cases "?r = 0")
    case True
    from owner_none [OF True nz] have "outside_all s p as"
      unfolding outside_all_def
      using inside_arena_nat [OF heap_inv_arena(3,4) [OF inv]] by blast
    with run1 True show ?thesis by auto
  next
    case False
    define a where "a = ?r"
    from owner_found [OF refl False] have a: "a \<in> set as" and ins: "inside_arena s a p"
      by (simp_all add: a_def)
    note ra = heap_inv_arena [OF inv a]
    from ins have pin: "unat a + 40 \<le> unat p" "unat p < unat a + unat (mem s a)"
      using inside_arena_nat [OF ra(3,4)] by simp_all
    from ra(1) have lv: "lives_ok (mem s) L (unat a + 40) (unat a + unat (mem s a)) (F a)"
      by (simp add: arena_inv_def)
    with p pin have pl: "unat a + 40 + 16 \<le> unat p"
      unfolding lives_ok_def by blast
    have uh: "unat (p - 16) = unat p - 16" using pl by (simp add: unat_minus)
    have uh8: "unat (p - 16 + 8) = unat p - 8" using pl by (simp add: unat_minus)
    have vm: "valid_access s (p - 16 + 8)"
      using uh8 pl pin by (intro arena_inv_valid [OF ra(1)]) simp_all
    have lmg: "load_magic (p - 16) s = ret (ucast (mem s (p - 16 + 8)))"
      using vm by (simp add: load_magic_def field_defs load_valid)
    show ?thesis
    proof (cases "(ucast (mem s (p - 16 + 8)) :: 32 word) = TALLOC_MAGIC")
      case False
      with run1 lmg \<open>?r \<noteq> 0\<close> show ?thesis by auto
    next
      case mg: True
      let ?fl' = "insert_list (p - 16) (mem s (p - 16)) (F a)"
      let ?L' = "removeAll p L"
      from free_insert_spec [OF ra(1) p pin]
      obtain s2 where fi: "free_insert a (p - 16) s = ret s2"
        and ai2: "arena_inv s2 ?L' a ?fl'"
        and sb: "same_but s s2 (touched a (mem s a))"
        by blast
      have run2: "bnd (release_wanted a s2) (\<lambda>wanted.
               if wanted then TAlloc_free_arena a s2 else ret s2) = ret s'"
        using run1 lmg mg fi \<open>?r \<noteq> 0\<close> unfolding a_def by simp
      have inv2: "heap_inv s2 ?L' as (F(a := ?fl'))"
      proof (rule heap_inv_touch [OF inv ra(2) sb])
        show "q \<in> set L \<or> (unat a + 56 \<le> unat q \<and> unat q < unat a + unat (mem s a))"
          if "q \<in> set ?L'" for q using that by simp
        show "arena_inv s2 ?L' a ((F(a := ?fl')) a)" using ai2 by simp
        show "(F(a := ?fl')) b = F b" if "b \<noteq> a" for b using that by simp
      qed
      from sb have s2: "s2 = s\<lparr>mem := mem s2\<rparr>" by (simp add: same_but_def)
      have flds: "mapped s2 = mapped s" "arena_head s2 = arena_head s"
        by (subst s2, simp)+
      have hdrs: "\<forall>b\<in>set as. mem s2 b = mem s b \<and> (b \<noteq> a \<longrightarrow> mem s2 (b + 8) = mem s (b + 8))"
        using untouched_headers [OF inv ra(2) sb] by blast
      note ra2 = heap_inv_arena [OF inv2 a]
      have ua: "unat (a + 8) = unat a + 8" using ra2 by (simp add: unat_plus)
      have v2: "valid_access s2 a" "valid_access s2 (a + 8)"
        using ua ra2 by (auto intro!: arena_inv_valid [OF ra2(1)])
      have rw: "release_wanted a s2 =
          ret (a \<noteq> arena_head s2 \<and> mem s2 a = mem s2 (a + 8) + 56)"
        using v2 by (simp add: release_wanted_def load_valid field_defs const_defs)
      have mi: "inside s a p" using pin by (simp add: inside_def)
      show ?thesis
      proof (cases "a \<noteq> arena_head s2 \<and> mem s2 a = mem s2 (a + 8) + 56")
        case False
        with run2 rw have "s' = s2" by auto
        with inv2 flds hdrs a mi mg show ?thesis by blast
      next
        case True
        with run2 rw have fa: "TAlloc_free_arena a s2 = ret s'" by auto
        from free_arena_spec [OF inv2 a _ _ fa] True
        have "(heap_inv s' ?L' as (F(a := ?fl')) \<and> mem s' = mem s2 \<and> mapped s' = mapped s2) \<or>
           (heap_inv s' ?L' (remove1 a as) (F(a := ?fl')) \<and>
            mapped s' = removeAll (a, mem s2 a) (mapped s2) \<and>
            (\<forall>b\<in>set as. b \<noteq> a \<longrightarrow> mem s' b = mem s2 b \<and> mem s' (b + 8) = mem s2 (b + 8)))"
          by simp
        then show ?thesis
        proof
          assume k: "heap_inv s' ?L' as (F(a := ?fl')) \<and> mem s' = mem s2 \<and> mapped s' = mapped s2"
          with hdrs a flds mi mg show ?thesis by auto
        next
          assume "heap_inv s' ?L' (remove1 a as) (F(a := ?fl')) \<and>
            mapped s' = removeAll (a, mem s2 a) (mapped s2) \<and>
            (\<forall>b\<in>set as. b \<noteq> a \<longrightarrow> mem s' b = mem s2 b \<and> mem s' (b + 8) = mem s2 (b + 8))"
          with hdrs a flds mi mg show ?thesis by auto
        qed
      qed
    qed
  qed
qed

section \<open>The invariant along a run\<close>

lemma heap_inv_boot:
  "page_ok ps \<Longrightarrow> heap_inv (boot ps mm mu) [] [] F"
  by (simp add: heap_inv_def boot_def regions_ok_def lives_mapped_def)

lemma step_inv:
  assumes inv: "heap_inv s L as F"
    and ok: "case c of Malloc n \<Rightarrow> True | Free p \<Rightarrow> p \<in> set L"
    and st: "step c (s, L) = ret (s', L')"
  shows "\<exists>as' F'. heap_inv s' L' as' F'"
proof (cases c)
  case (Malloc n)
  with st obtain p where m: "TAlloc_malloc n s = ret (p, s')"
    and L': "L' = (if p = 0 then L else p # L)"
    by (auto simp: bnd_ret_iff)
  from malloc_detail [OF inv m] L' show ?thesis by (auto split: if_splits)
next
  case (Free p)
  with ok have p: "p \<in> set L" by simp
  from st Free have f: "TAlloc_free p s = ret s'" and L': "L' = removeAll p L"
    by (auto simp: bnd_ret_iff)
  from free_detail [OF inv p f] heap_inv_sub [OF inv, of L'] L'
  show ?thesis by auto
qed

lemma run_inv:
  assumes "heap_inv s L as F" "polite calls (s, L)" "run calls (s, L) = ret (s', L')"
  shows "\<exists>as' F'. heap_inv s' L' as' F'"
  using assms
proof (induction calls arbitrary: s L as F)
  case Nil
  then show ?case by auto
next
  case (Cons c cs)
  from Cons.prems(3) obtain s1 L1 where st: "step c (s, L) = ret (s1, L1)"
    and rest: "run cs (s1, L1) = ret (s', L')"
    by (auto simp: bnd_ret_iff)
  from Cons.prems(2) st have ok: "case c of Malloc n \<Rightarrow> True | Free p \<Rightarrow> p \<in> set L"
    and pol: "polite cs (s1, L1)"
    by (auto simp: ret_def split: call.splits)
  from step_inv [OF Cons.prems(1) ok st] obtain as1 F1 where "heap_inv s1 L1 as1 F1" by blast
  from Cons.IH [OF this pol rest] show ?case .
qed

lemma gaps_not_adjacent:
  assumes "gaps_ok lo hi fl" "x \<in> set fl" "y \<in> set fl"
  shows "unat (fst x) + 16 + unat (snd x) \<noteq> unat (fst y)"
  using assms
proof (induction fl arbitrary: lo)
  case Nil
  then show ?case by simp
next
  case (Cons z fl)
  obtain c n where z: "z = (c, n)" by (cases z)
  from Cons.prems(1) z have g: "gaps_ok (unat c + 16 + unat n + 1) hi fl" by simp
  have later: "unat c + 16 + unat n + 1 \<le> unat (fst w)" if "w \<in> set fl" for w
    using gaps_ok_lower [OF g that] by simp
  show ?case
  proof (cases "x = z")
    case xz: True
    show ?thesis
    proof (cases "y = z")
      case True
      with xz z show ?thesis by simp
    next
      case False
      with Cons.prems(3) have "y \<in> set fl" by simp
      from later [OF this] xz z show ?thesis by simp
    qed
  next
    case False
    with Cons.prems(2) have xf: "x \<in> set fl" by simp
    show ?thesis
    proof (cases "y = z")
      case True
      from later [OF xf] True z show ?thesis by simp
    next
      case False
      with Cons.prems(3) have "y \<in> set fl" by simp
      from Cons.IH [OF g xf this] show ?thesis .
    qed
  qed
qed

lemma arena_free_list:
  assumes "arena_inv s L a fl"
  shows "free_list_is s a (map fst fl)"
    "map (\<lambda>c. mem s (size_at c)) (map fst fl) = map snd fl"
    "mem s (max_free_space_at a) = largest (map snd fl)"
    "\<forall>c\<in>set (map fst fl). \<forall>c'\<in>set (map fst fl). snd (free_block s c) \<noteq> c'"
proof -
  let ?lo = "unat a + 40"
  let ?hi = "unat a + unat (mem s a)"
  from assms have reg: "?hi < 2 ^ 64"
    and rep: "fl_rep (mem s) (mem s (a + 16)) fl"
    and gaps: "gaps_ok ?lo ?hi fl"
    and mx: "mem s (a + 8) = largest (map snd fl)"
    by (simp_all add: arena_inv_def)
  from rep show "free_list_is s a (map fst fl)"
    by (simp add: free_list_is_def fl_rep_def field_defs)
  from rep have vals: "\<forall>x\<in>set fl. mem s (fst x) = snd x" by (simp add: fl_rep_def)
  then show "map (\<lambda>c. mem s (size_at c)) (map fst fl) = map snd fl"
    by (simp add: field_defs)
  from mx show "mem s (max_free_space_at a) = largest (map snd fl)" by (simp add: field_defs)
  show "\<forall>c\<in>set (map fst fl). \<forall>c'\<in>set (map fst fl). snd (free_block s c) \<noteq> c'"
  proof (intro ballI)
    fix c c' assume "c \<in> set (map fst fl)" "c' \<in> set (map fst fl)"
    then have "c \<in> fst ` set fl" "c' \<in> fst ` set fl" by (simp_all only: set_map)
    then obtain x y where x: "c = fst x" "x \<in> set fl" and y: "c' = fst y" "y \<in> set fl"
      by (elim imageE)
    from gaps_ok_lower [OF gaps x(2)] reg
    have "unat (fst x + 16 + snd x) = unat (fst x) + 16 + unat (snd x)"
      by (simp add: unat_plus)
    with gaps_not_adjacent [OF gaps x(2) y(2)] have "fst x + 16 + snd x \<noteq> fst y"
      by (auto simp: word_unat_eq_iff)
    with vals x y show "snd (free_block s c) \<noteq> c'"
      by (simp add: free_block_def field_defs const_defs)
  qed
qed

section \<open>An allocation after a deallocation\<close>





section \<open>The cached maximum, the coalescing invariant and the reuse of a chunk\<close>

lemma page_ok_4096: "page_ok 4096"
  by (simp add: page_ok_def)

subsection \<open>The cached maximum\<close>

text \<open>
  C4, as the claim states it, fails: the claim is about every deallocate call, and
  \<^verbatim>\<open>TAlloc_free\<close> of a pointer that is already free can pass the tag check, which is the
  only check there is. With page size 4096 and the first arena mapped at
  \<open>0x7f12ab91e000\<close>, allocations of 2620 and of 16 bytes return \<open>0x7f12ab91e038\<close> and
  \<open>0x7f12ab91ea84\<close> and leave the free list \<open>[0x7f12ab91ea94]\<close>, a chunk of 4093276 bytes.
  Freeing \<open>0x7f12ab91e038\<close> puts the chunk \<open>0x7f12ab91e028\<close> in front of it, so the
  chunk's \<^verbatim>\<open>next\<close> field holds \<open>0x7f12ab91ea94\<close>, whose low four bytes, the bytes of
  \<^verbatim>\<open>magic\<close>, are \<^verbatim>\<open>TALLOC_MAGIC\<close>. Freeing \<open>0x7f12ab91e038\<close> again therefore passes the
  check of line 184 and links the chunk after itself (lines 201-206): afterwards the free
  list starts at \<open>0x7f12ab91e028\<close>, a chunk of 2620 bytes whose \<^verbatim>\<open>next\<close> is the chunk
  itself, the chunk of 4093276 bytes is no longer in the list, and \<^verbatim>\<open>max_free_space\<close> is
  still 4093276.
\<close>

theorem double_free_detaches_largest_chunk:
  "returns (run [Malloc 2620, Malloc 16, Free 0x7f12ab91e038, Free 0x7f12ab91e038]
              (boot 4096 [0x7f12ab91e000] [], []))
     (\<lambda>(s, live). arena_head s = 0x7f12ab91e000 \<and>
        mem s (free_list_at 0x7f12ab91e000) = 0x7f12ab91e028 \<and>
        mem s (next_at 0x7f12ab91e028) = 0x7f12ab91e028 \<and>
        mem s (size_at 0x7f12ab91e028) = 2620 \<and>
        mem s (max_free_space_at 0x7f12ab91e000) = 4093276)"
  by (simp add: exec_defs cong: bnd_weak_cong)

text \<open>
  C4, amended. For a client that passes to \<^verbatim>\<open>TAlloc_free\<close> only pointers of its live
  allocations, starting from the initial state of the allocator, with a page size that is
  a power of two of at least 64 bytes (and at most \<open>2 ^ 54\<close>): after every sequence of
  calls that completes, every arena of the arena sequence has a well-formed free list, and
  its \<^verbatim>\<open>max_free_space\<close> is the largest size of a chunk of that list, 0 when the list is
  empty.
\<close>

theorem max_free_space_is_largest_free_chunk:
  assumes "page_ok ps" "polite calls (boot ps mm mu, [])"
    and "run calls (boot ps mm mu, []) = ret (s, live)"
    and "arenas_are s as" "a \<in> set as"
  shows "\<exists>cs. free_list_is s a cs \<and>
           mem s (max_free_space_at a) = largest (map (\<lambda>c. mem s (size_at c)) cs)"
proof -
  from run_inv [OF heap_inv_boot [OF assms(1)] assms(2,3)]
  obtain as' F where inv: "heap_inv s live as' F" by blast
  then have "path (mem s) 24 (arena_head s) as'" by (simp add: heap_inv_def)
  with assms(4) have "as' = as" unfolding arenas_are_def by (metis path_unique)
  with inv assms(5) have "arena_inv s live a (F a)" by (simp add: heap_inv_def)
  from arena_free_list(1,2,3) [OF this] show ?thesis by metis
qed

theorem max_free_space_is_largest_free_chunk_witness:
  "returns (run [Malloc 16, Malloc 16, Malloc 16, Free 0x10000038, Free 0x10000078, Malloc 16]
              (boot 4096 [0x10000000] [], []))
     (\<lambda>(s, live). \<exists>cs. free_list_is s 0x10000000 cs \<and>
        mem s (max_free_space_at 0x10000000) = largest (map (\<lambda>c. mem s (size_at c)) cs))"
proof -
  let ?calls = "[Malloc 16, Malloc 16, Malloc 16, Free 0x10000038, Free 0x10000078, Malloc 16]"
  have "returns (run ?calls (boot 4096 [0x10000000] [], []))
     (\<lambda>(s, live). arenas_are s [0x10000000])"
    by (simp add: exec_defs cong: bnd_weak_cong)
  then obtain s live where r: "run ?calls (boot 4096 [0x10000000] [], []) = ret (s, live)"
    and ar: "arenas_are s [0x10000000]"
    by (auto elim!: returnsE)
  have pol: "polite ?calls (boot 4096 [0x10000000] [], [])"
    by (simp add: exec_defs cong: bnd_weak_cong)
  from max_free_space_is_largest_free_chunk [OF page_ok_4096 pol r ar, of "0x10000000"]
  show ?thesis using r by (auto intro!: returnsI)
qed

subsection \<open>The coalescing invariant\<close>

text \<open>
  C5, as the claim states it, fails, on the same misuse. After the double deallocation of
  C4, an allocation of 16 bytes takes the chunk \<open>0x7f12ab91e028\<close>, splits it, and links the
  remainder \<open>0x7f12ab91e048\<close> in front of the list, whose second chunk is still
  \<open>0x7f12ab91e028\<close>: the free list is then
  \<open>[0x7f12ab91e048, 0x7f12ab91e028, 0x7f12ab91ea94]\<close>, and the block of its second chunk
  ends where its first chunk starts.
\<close>

theorem double_free_leaves_adjacent_free_chunks:
  "returns (run [Malloc 2620, Malloc 16, Free 0x7f12ab91e038, Free 0x7f12ab91e038, Malloc 16]
              (boot 4096 [0x7f12ab91e000] [], []))
     (\<lambda>(s, live). arenas_are s [0x7f12ab91e000] \<and>
        free_list_is s 0x7f12ab91e000 [0x7f12ab91e048, 0x7f12ab91e028, 0x7f12ab91ea94] \<and>
        snd (free_block s 0x7f12ab91e028) = 0x7f12ab91e048)"
  by (simp add: exec_defs cong: bnd_weak_cong)

text \<open>
  C5, amended. For a client that passes to \<^verbatim>\<open>TAlloc_free\<close> only pointers of its live
  allocations, starting from the initial state of the allocator, with a page size that is
  a power of two of at least 64 bytes (and at most \<open>2 ^ 54\<close>): after every sequence of
  calls that completes, every arena of the arena sequence has a well-formed free list, and
  no chunk of that list ends where a chunk of the list starts.
\<close>

theorem free_chunks_never_adjacent:
  assumes "page_ok ps" "polite calls (boot ps mm mu, [])"
    and "run calls (boot ps mm mu, []) = ret (s, live)"
    and "arenas_are s as" "a \<in> set as"
  shows "\<exists>cs. free_list_is s a cs \<and> (\<forall>c\<in>set cs. \<forall>c'\<in>set cs. snd (free_block s c) \<noteq> c')"
proof -
  from run_inv [OF heap_inv_boot [OF assms(1)] assms(2,3)]
  obtain as' F where inv: "heap_inv s live as' F" by blast
  then have "path (mem s) 24 (arena_head s) as'" by (simp add: heap_inv_def)
  with assms(4) have "as' = as" unfolding arenas_are_def by (metis path_unique)
  with inv assms(5) have "arena_inv s live a (F a)" by (simp add: heap_inv_def)
  from arena_free_list(1,4) [OF this] show ?thesis by blast
qed

theorem free_chunks_never_adjacent_witness:
  "returns (run [Malloc 16, Malloc 16, Malloc 16, Free 0x10000058, Free 0x10000038]
              (boot 4096 [0x10000000] [], []))
     (\<lambda>(s, live). \<exists>cs. free_list_is s 0x10000000 cs \<and> cs \<noteq> [] \<and>
        list_all (\<lambda>c. list_all (\<lambda>c'. snd (free_block s c) \<noteq> c') cs) cs)"
proof -
  let ?calls = "[Malloc 16, Malloc 16, Malloc 16, Free 0x10000058, Free 0x10000038]"
  have "returns (run ?calls (boot 4096 [0x10000000] [], []))
     (\<lambda>(s, live). arenas_are s [0x10000000] \<and> mem s (free_list_at 0x10000000) \<noteq> 0)"
    by (simp add: exec_defs cong: bnd_weak_cong)
  then obtain s live where r: "run ?calls (boot 4096 [0x10000000] [], []) = ret (s, live)"
    and ar: "arenas_are s [0x10000000]" and ne: "mem s (free_list_at 0x10000000) \<noteq> 0"
    by (auto elim!: returnsE)
  have pol: "polite ?calls (boot 4096 [0x10000000] [], [])"
    by (simp add: exec_defs cong: bnd_weak_cong)
  from free_chunks_never_adjacent [OF page_ok_4096 pol r ar, of "0x10000000"]
  obtain cs where cs: "free_list_is s 0x10000000 cs"
    "\<forall>c\<in>set cs. \<forall>c'\<in>set cs. snd (free_block s c) \<noteq> c'" by auto
  from cs(1) ne have "cs \<noteq> []" by (auto simp: free_list_is_def)
  with cs show ?thesis using r by (auto intro!: returnsI exI [of _ cs] simp: list_all_iff)
qed

subsection \<open>An allocation after the deallocation of its pointer\<close>




end
